(* ===== verification/Prelude.thy ===== *)
theory Prelude
  imports Main "HOL-Library.Word"
begin

text \<open>
  Shared ground of the development: the result type of a C call, the state-passing
  programs built from it, a calculus for what their runs can do and one for what they leave
  alone, and lemmas on lists and on C arithmetic that several components use.
\<close>

named_theorems keeps_intros \<open>which parts of the state a program leaves alone\<close>
named_theorems runs_intros \<open>what runs of the program constructors can do\<close>

section \<open>Results and programs\<close>

text \<open>
  A C call returns a value, ends the process (\<^verbatim>\<open>exit\<close>), waits for ever (the environment
  never answers), or has undefined behaviour (an access out of bounds, through a null
  pointer or to freed memory, a signed overflow).
\<close>

datatype 'a res = Ret 'a | Exit int | Block | Fault

type_synonym ('s, 'a) prog = "'s \<Rightarrow> 'a res \<times> 's"

definition ret :: "'a \<Rightarrow> ('s, 'a) prog" where
  "ret a s = (Ret a, s)"

definition fault :: "('s, 'a) prog" where
  "fault s = (Fault, s)"

definition block :: "('s, 'a) prog" where
  "block s = (Block, s)"

definition exit_with :: "int \<Rightarrow> ('s, 'a) prog" where
  "exit_with c s = (Exit c, s)"

definition bnd :: "('s, 'a) prog \<Rightarrow> ('a \<Rightarrow> ('s, 'b) prog) \<Rightarrow> ('s, 'b) prog" where
  "bnd m f s = (case m s of
      (Ret a, t) \<Rightarrow> f a t
    | (Exit c, t) \<Rightarrow> (Exit c, t)
    | (Block, t) \<Rightarrow> (Block, t)
    | (Fault, t) \<Rightarrow> (Fault, t))"

definition gets :: "('s \<Rightarrow> 'a) \<Rightarrow> ('s, 'a) prog" where
  "gets f s = (Ret (f s), s)"

definition modify :: "('s \<Rightarrow> 's) \<Rightarrow> ('s, unit) prog" where
  "modify f s = (Ret (), f s)"

definition require :: "bool \<Rightarrow> ('s, unit) prog" where
  "require b = (if b then ret () else fault)"

lemma bnd_cong [fundef_cong]:
  assumes "m s = m' s'"
    and "\<And>a t. m' s' = (Ret a, t) \<Longrightarrow> f a t = g a t"
  shows "bnd m f s = bnd m' g s'"
  using assms by (auto simp: bnd_def split: prod.splits res.splits)

lemma bnd_Ret [simp]: "m s = (Ret a, t) \<Longrightarrow> bnd m f s = f a t"
  by (simp add: bnd_def)

lemma bnd_Exit [simp]: "m s = (Exit c, t) \<Longrightarrow> bnd m f s = (Exit c, t)"
  by (simp add: bnd_def)

lemma bnd_Block [simp]: "m s = (Block, t) \<Longrightarrow> bnd m f s = (Block, t)"
  by (simp add: bnd_def)

lemma bnd_Fault [simp]: "m s = (Fault, t) \<Longrightarrow> bnd m f s = (Fault, t)"
  by (simp add: bnd_def)

lemma bnd_ret [simp]: "bnd (ret a) f = f a"
  by (simp add: fun_eq_iff ret_def)

lemma bnd_assoc: "bnd (bnd m f) g = bnd m (\<lambda>a. bnd (f a) g)"
  by (simp add: fun_eq_iff bnd_def split: prod.splits res.splits)

lemma bnd_RetE:
  assumes "bnd m f s = (Ret b, t)"
  obtains a u where "m s = (Ret a, u)" and "f a u = (Ret b, t)"
  using assms by (auto simp: bnd_def split: prod.splits res.splits)

lemmas prog_basics = ret_def fault_def block_def exit_with_def gets_def modify_def require_def

section \<open>What a run can do\<close>

text \<open>
  \<open>runs m R F s\<close>: from \<open>s\<close> the program \<open>m\<close> does not end the process, a value it returns
  satisfies \<open>R\<close> with the state it leaves, and it has undefined behaviour only as \<open>F\<close> allows.
  Whether it returns at all is a separate matter.
\<close>

definition runs :: "('s, 'a) prog \<Rightarrow> ('a \<Rightarrow> 's \<Rightarrow> bool) \<Rightarrow> ('s \<Rightarrow> bool) \<Rightarrow> 's \<Rightarrow> bool" where
  "runs m R F s = (case m s of
      (Ret a, t) \<Rightarrow> R a t
    | (Exit c, t) \<Rightarrow> False
    | (Block, t) \<Rightarrow> True
    | (Fault, t) \<Rightarrow> F t)"

abbreviation never :: "'s \<Rightarrow> bool" where
  "never \<equiv> \<lambda>_. False"

lemma runs_ret [runs_intros]: "R a s \<Longrightarrow> runs (ret a) R F s"
  by (simp add: runs_def ret_def)

lemma runs_gets [runs_intros]: "R (f s) s \<Longrightarrow> runs (gets f) R F s"
  by (simp add: runs_def gets_def)

lemma runs_modify [runs_intros]: "R () (f s) \<Longrightarrow> runs (modify f) R F s"
  by (simp add: runs_def modify_def)

lemma runs_require: "(b \<Longrightarrow> R () s) \<Longrightarrow> (\<not> b \<Longrightarrow> F s) \<Longrightarrow> runs (require b) R F s"
  by (simp add: runs_def require_def ret_def fault_def)

lemma runs_if [runs_intros]:
  "(b \<Longrightarrow> runs m R F s) \<Longrightarrow> (\<not> b \<Longrightarrow> runs n R F s) \<Longrightarrow> runs (if b then m else n) R F s"
  by simp

text \<open>Sequencing, with the contract of the first program as the first premise.\<close>

lemma runs_bnd:
  assumes "runs m P G s" "\<And>a t. P a t \<Longrightarrow> runs (f a) R F t" "\<And>t. G t \<Longrightarrow> F t"
  shows "runs (bnd m f) R F s"
proof (cases "m s")
  case (Pair x u)
  with assms show ?thesis by (cases x) (simp_all add: runs_def)
qed

lemma runs_mono:
  assumes "runs m P G s" "\<And>a t. P a t \<Longrightarrow> R a t" "\<And>t. G t \<Longrightarrow> F t"
  shows "runs m R F s"
  using assms by (auto simp: runs_def split: prod.splits res.splits)

lemma runs_bnd_gets [runs_intros]: "runs (k (f s)) R F s \<Longrightarrow> runs (bnd (gets f) k) R F s"
  by (simp add: runs_def bnd_def gets_def)

lemma runs_bnd_modify [runs_intros]: "runs (k ()) R F (f s) \<Longrightarrow> runs (bnd (modify f) k) R F s"
  by (simp add: runs_def bnd_def modify_def)

lemma runs_bnd_require:
  "(b \<Longrightarrow> runs (k ()) R F s) \<Longrightarrow> (\<not> b \<Longrightarrow> F s) \<Longrightarrow> runs (bnd (require b) k) R F s"
  by (simp add: runs_def bnd_def require_def ret_def fault_def)

lemma runs_eq: "m s = n s \<Longrightarrow> runs n R F s \<Longrightarrow> runs m R F s"
  by (simp add: runs_def)

lemma runs_Ret: "runs m R F s \<Longrightarrow> m s = (Ret a, t) \<Longrightarrow> R a t"
  by (simp add: runs_def)

lemma runs_no_Fault: "runs m R never s \<Longrightarrow> m s \<noteq> (Fault, t)"
  by (auto simp: runs_def)

lemma runs_no_Exit: "runs m R F s \<Longrightarrow> m s \<noteq> (Exit c, t)"
  by (auto simp: runs_def)

section \<open>Frames: what a program leaves alone\<close>

definition keeps :: "('s \<Rightarrow> 'x) \<Rightarrow> ('s, 'a) prog \<Rightarrow> bool" where
  "keeps f m \<longleftrightarrow> (\<forall>s r t. m s = (r, t) \<longrightarrow> f t = f s)"

lemma keepsI: "(\<And>s r t. m s = (r, t) \<Longrightarrow> f t = f s) \<Longrightarrow> keeps f m"
  by (simp add: keeps_def)

lemma keepsD: "keeps f m \<Longrightarrow> m s = (r, t) \<Longrightarrow> f t = f s"
  by (simp add: keeps_def)

lemma keeps_basic [keeps_intros]:
  "keeps f (ret a)" "keeps f fault" "keeps f block" "keeps f (exit_with c)"
  "keeps f (gets g)" "keeps f (require b)"
  by (auto simp: keeps_def prog_basics)

lemma keeps_modify: "(\<And>s. f (g s) = f s) \<Longrightarrow> keeps f (modify g)"
  by (simp add: keeps_def modify_def)

lemma keeps_bnd [keeps_intros]:
  "keeps f m \<Longrightarrow> (\<And>a. keeps f (k a)) \<Longrightarrow> keeps f (bnd m k)"
  by (auto simp: keeps_def bnd_def split: prod.splits res.splits)

lemma keeps_if [keeps_intros]: "keeps f m \<Longrightarrow> keeps f n \<Longrightarrow> keeps f (if b then m else n)"
  by simp

section \<open>Counting the threads in a state\<close>

lemma finite_fun_upd: "finite {x. P (f x)} \<Longrightarrow> finite {x. P ((f(k := c)) x)}"
  by (rule finite_subset [of _ "insert k {x. P (f x)}"]) auto

lemma card_fun_upd:
  assumes "finite {x. P (f x)}"
  shows "int (card {x. P ((f(k := c)) x)}) = int (card {x. P (f x)}) + (if P c then 1 else 0) - (if P (f k) then 1 else 0)"
proof -
  let ?A = "{x. P (f x)}" and ?B = "{x. P ((f(k := c)) x)}"
  have fin: "finite (?A - {k})" using assms by simp
  have "int (card ?B) = int (card (?A - {k})) + (if P c then 1 else 0)"
  proof (cases "P c")
    case True
    then have "?B = insert k (?A - {k})" by auto
    then have "card ?B = Suc (card (?A - {k}))"
      using card_insert_disjoint [OF fin, of k] by (metis Diff_iff singletonI)
    with True show ?thesis by simp
  next
    case False
    then have "?B = ?A - {k}" by auto
    with False show ?thesis by simp
  qed
  moreover have "card ?A = card (?A - {k}) + (if P (f k) then 1 else 0)"
    using card.remove [OF assms, of k] by auto
  ultimately show ?thesis by simp
qed

section \<open>Arithmetic of the C types\<close>

definition INT_MAX :: int where "INT_MAX = 2147483647"
definition INT_MIN :: int where "INT_MIN = -2147483648"
definition SIZE_MAX :: nat where "SIZE_MAX = 18446744073709551615"
definition PTRDIFF_MAX :: nat where "PTRDIFF_MAX = 9223372036854775807"

text \<open>Conversions of a signed value to \<^verbatim>\<open>unsigned int\<close> and to \<^verbatim>\<open>size_t\<close> (64 bits).\<close>

definition c_uint :: "int \<Rightarrow> nat" where
  "c_uint x = nat (x mod 2 ^ 32)"

definition c_size :: "int \<Rightarrow> nat" where
  "c_size x = nat (x mod 2 ^ 64)"

lemma c_uint_nonneg [simp]: "0 \<le> x \<Longrightarrow> x \<le> INT_MAX \<Longrightarrow> c_uint x = nat x"
  by (simp add: c_uint_def INT_MAX_def)

lemma c_uint_0 [simp]: "c_uint 0 = 0"
  by (simp add: c_uint_def)

lemma c_size_nonneg [simp]: "0 \<le> x \<Longrightarrow> x \<le> INT_MAX \<Longrightarrow> c_size x = nat x"
  by (simp add: c_size_def INT_MAX_def)

lemma c_size_neg: "x < 0 \<Longrightarrow> INT_MIN \<le> x \<Longrightarrow> c_size x = nat (x + 2 ^ 64)"
proof -
  assume a: "x < 0" "INT_MIN \<le> x"
  have "x mod 2 ^ 64 = (x + 2 ^ 64) mod 2 ^ 64" by simp
  also have "\<dots> = x + 2 ^ 64" using a by (intro mod_pos_pos_trivial) (auto simp: INT_MIN_def)
  finally show ?thesis by (simp add: c_size_def)
qed

end
