(* ===== verification/Posix.thy ===== *)
theory Posix
  imports Prelude
begin

text \<open>
  The part of the C library and of the operating system that the program calls: byte
  order, descriptors and sockets, the heap, and the system calls on them.

  The kernel is a state \<open>os\<close>. Whatever a call may do is decided by the next element of
  \<open>sched\<close>, the answers the kernel is going to give: \<open>Err e\<close> makes the call fail with
  \<^verbatim>\<open>errno\<close> \<open>e\<close>; \<open>Ok k bs f\<close> lets it succeed, with \<open>k\<close> the number it is free to choose (how
  many bytes are moved, which descriptor is opened, which socket error is pending) and
  \<open>bs\<close>, \<open>f\<close> what the peer of a new connection is going to send and whether it closes
  afterwards. Every theorem quantifies over all schedules, so over every fragmentation,
  interruption and failure. A call with no answer left does not return (\<open>Block\<close>), which
  makes every retry loop a recursion on the schedule.
\<close>

unbundle bit_operations_syntax

section \<open>Byte order\<close>

type_synonym byte = "8 word"

text \<open>The four bytes of a 32-bit value, most significant first, and back.\<close>

definition be_bytes :: "32 word \<Rightarrow> byte list" where
  "be_bytes x = [ucast (drop_bit 24 x), ucast (drop_bit 16 x), ucast (drop_bit 8 x), ucast x]"

fun of_be :: "byte list \<Rightarrow> 32 word" where
  "of_be [a, b, c, d] =
     push_bit 24 (ucast a) OR push_bit 16 (ucast b) OR push_bit 8 (ucast c) OR ucast d"
| "of_be _ = 0"

text \<open>
  The object representation of an \<^verbatim>\<open>int\<close> in the host's memory (what \<^verbatim>\<open>memcpy\<close> moves), on a
  little-endian host (\<open>le\<close>) or a big-endian one, and the conversions to network order.
\<close>

definition mem_of :: "bool \<Rightarrow> 32 word \<Rightarrow> byte list" where
  "mem_of le x = (if le then rev (be_bytes x) else be_bytes x)"

definition of_mem :: "bool \<Rightarrow> byte list \<Rightarrow> 32 word" where
  "of_mem le bs = of_be (if le then rev bs else bs)"

definition htonl :: "bool \<Rightarrow> 32 word \<Rightarrow> 32 word" where
  "htonl le x = of_mem le (be_bytes x)"

definition ntohl :: "bool \<Rightarrow> 32 word \<Rightarrow> 32 word" where
  "ntohl le x = of_be (mem_of le x)"

lemma of_be_be_bytes [simp]: "of_be (be_bytes x) = x"
proof (rule bit_word_eqI)
  fix n assume "n < LENGTH(32)"
  then consider "n < 8" | "8 \<le> n" "n < 16" | "16 \<le> n" "n < 24" | "24 \<le> n" "n < 32" by fastforce
  then show "bit (of_be (be_bytes x)) n = bit x n"
    by cases (auto simp: be_bytes_def bit_simps)
qed

lemma be_bytes_of_be: "length bs = 4 \<Longrightarrow> be_bytes (of_be bs) = bs"
proof -
  assume "length bs = 4"
  then obtain a b c d where bs: "bs = [a, b, c, d]"
    by (auto simp: numeral_eq_Suc length_Suc_conv)
  have "ucast (drop_bit 24 (of_be bs)) = a" "ucast (drop_bit 16 (of_be bs)) = b"
    "ucast (drop_bit 8 (of_be bs)) = c" "ucast (of_be bs) = d"
    by (rule bit_word_eqI, auto simp: bs bit_simps dest: bit_imp_le_length)+
  then show ?thesis by (simp add: be_bytes_def bs)
qed

lemma length_be_bytes [simp]: "length (be_bytes x) = 4"
  by (simp add: be_bytes_def)

lemma length_mem_of [simp]: "length (mem_of le x) = 4"
  by (simp add: mem_of_def)

text \<open>On the wire a length is big-endian whatever the host's byte order is.\<close>

lemma mem_of_htonl [simp]: "mem_of le (htonl le x) = be_bytes x"
  by (simp add: mem_of_def htonl_def of_mem_def be_bytes_of_be)

lemma ntohl_of_mem: "length bs = 4 \<Longrightarrow> ntohl le (of_mem le bs) = of_be bs"
  by (simp add: ntohl_def mem_of_def of_mem_def be_bytes_of_be)

definition htons :: "bool \<Rightarrow> 16 word \<Rightarrow> 16 word" where
  "htons le p = (if le then push_bit 8 p OR drop_bit 8 p else p)"

section \<open>The kernel's state\<close>

text \<open>
  An open descriptor: the bytes that its peer sends and that are not read yet, whether the
  peer closes after them, the bytes accepted for sending so far, the file status flags, the
  address a \<^verbatim>\<open>connect\<close> or \<^verbatim>\<open>bind\<close> was called with and whether \<^verbatim>\<open>listen\<close> was called.
\<close>

record sock =
  rcvq :: "byte list"
  fin :: bool
  sndq :: "byte list"
  flags :: int
  addr :: "(32 word \<times> 16 word) option"
  listening :: bool

datatype answer = Err int | Ok nat "byte list" bool

abbreviation ok :: "nat \<Rightarrow> answer" where
  "ok k \<equiv> Ok k [] False"

text \<open>
  \<open>live\<close> holds the heap blocks allocated and not freed, \<open>junk\<close> the contents of fresh
  memory, by allocation and offset. \<open>home\<close>, \<open>curtime\<close>, \<open>inet_addr\<close>, \<open>inet_pton\<close> and \<open>le\<close> are the
  environment (\<^verbatim>\<open>getenv("HOME")\<close>, the formatted local time, the library's address parsers and
  the byte order); \<open>logfail\<close> says for each log call whether opening the log file fails, and
  \<open>logfile\<close> holds the lines written to it.
\<close>

record os =
  sched :: "answer list"
  errno :: int
  fds :: "int \<Rightarrow> sock option"
  live :: "nat list"
  allocs :: nat
  junk :: "nat \<Rightarrow> nat \<Rightarrow> int"
  le :: bool
  home :: "string option"
  curtime :: string
  inet_addr :: "string \<Rightarrow> 32 word"
  inet_pton :: "string \<Rightarrow> 32 word option"
  logfail :: "nat \<Rightarrow> int option"
  logcalls :: nat
  logfile :: "string list"

type_synonym 'a call = "(os, 'a) prog"

definition EINTR :: int where "EINTR = 4"
definition EBADF :: int where "EBADF = 9"
definition EAGAIN :: int where "EAGAIN = 11"
definition ENOMEM :: int where "ENOMEM = 12"
definition EINVAL :: int where "EINVAL = 22"
definition EMFILE :: int where "EMFILE = 24"
definition ECONNABORTED :: int where "ECONNABORTED = 103"
definition ECONNRESET :: int where "ECONNRESET = 104"
definition ETIMEDOUT :: int where "ETIMEDOUT = 110"
definition EINPROGRESS :: int where "EINPROGRESS = 115"
definition O_NONBLOCK :: int where "O_NONBLOCK = 2048"
definition O_RDWR :: int where "O_RDWR = 2"
definition FD_SETSIZE :: int where "FD_SETSIZE = 1024"

lemmas errno_defs = EINTR_def EBADF_def EAGAIN_def ENOMEM_def EINVAL_def EMFILE_def ECONNABORTED_def
  ECONNRESET_def ETIMEDOUT_def EINPROGRESS_def

definition nonblocking :: "sock \<Rightarrow> bool" where
  "nonblocking c = bit (flags c) 11"

definition new_sock :: "byte list \<Rightarrow> bool \<Rightarrow> sock" where
  "new_sock bs f = \<lparr>rcvq = bs, fin = f, sndq = [], flags = O_RDWR, addr = None, listening = False\<rparr>"

section \<open>System calls\<close>

text \<open>The next answer of the kernel drives a call.\<close>

definition syscall :: "'a call \<Rightarrow> (nat \<Rightarrow> byte list \<Rightarrow> bool \<Rightarrow> 'a call) \<Rightarrow> 'a call" where
  "syscall fl good s = (case sched s of
      [] \<Rightarrow> (Block, s)
    | Err e # r \<Rightarrow> fl (s\<lparr>sched := r, errno := e\<rparr>)
    | Ok k bs f # r \<Rightarrow> good k bs f (s\<lparr>sched := r\<rparr>))"

definition fail_with :: "int \<Rightarrow> 'a \<Rightarrow> 'a call" where
  "fail_with e a s = (Ret a, s\<lparr>errno := e\<rparr>)"

definition set_fd :: "int \<Rightarrow> sock option \<Rightarrow> os \<Rightarrow> os" where
  "set_fd fd c s = s\<lparr>fds := (fds s)(fd := c)\<rparr>"

text \<open>
  \<^verbatim>\<open>read\<close> returns between 1 and \<open>n\<close> of the bytes that are there, 0 at the end of the stream;
  with nothing there it fails with \<^verbatim>\<open>EAGAIN\<close> on a non-blocking descriptor and waits on a
  blocking one. The second component of the result is what it stores in the buffer.
\<close>

definition sys_read :: "int \<Rightarrow> nat \<Rightarrow> (int \<times> byte list) call" where
  "sys_read fd n = syscall (ret (-1, [])) (\<lambda>k _ _ s.
     (case fds s fd of
        None \<Rightarrow> fail_with EBADF (-1, []) s
      | Some c \<Rightarrow>
          if n = 0 then (Ret (0, []), s)
          else if rcvq c = [] then
            (if fin c then (Ret (0, []), s)
             else if nonblocking c then fail_with EAGAIN (-1, []) s
             else (Block, s))
          else (let m = min (min n (max 1 k)) (length (rcvq c)) in
             (Ret (int m, take m (rcvq c)),
              set_fd fd (Some (c\<lparr>rcvq := drop m (rcvq c)\<rparr>)) s))))"

text \<open>\<^verbatim>\<open>recv\<close> with \<^verbatim>\<open>MSG_PEEK\<close> is a \<^verbatim>\<open>read\<close> that leaves the bytes in the socket.\<close>

definition sys_recv_peek :: "int \<Rightarrow> nat \<Rightarrow> (int \<times> byte list) call" where
  "sys_recv_peek fd n s = (case sys_read fd n s of (r, t) \<Rightarrow> (r, t\<lparr>fds := fds s\<rparr>))"

definition sys_write :: "int \<Rightarrow> byte list \<Rightarrow> int call" where
  "sys_write fd bs = syscall (ret (-1)) (\<lambda>k _ _ s.
     (case fds s fd of
        None \<Rightarrow> fail_with EBADF (-1) s
      | Some c \<Rightarrow> (let m = min k (length bs) in
          (Ret (int m), set_fd fd (Some (c\<lparr>sndq := sndq c @ take m bs\<rparr>)) s))))"

definition sys_close :: "int \<Rightarrow> int call" where
  "sys_close fd = syscall (\<lambda>s. (Ret (-1), set_fd fd None s)) (\<lambda>_ _ _ s.
     (if fds s fd = None then fail_with EBADF (-1) s else (Ret 0, set_fd fd None s)))"

text \<open>A new descriptor is one that is not open; the kernel is free to choose which.\<close>

definition open_fd :: "nat \<Rightarrow> sock \<Rightarrow> int call" where
  "open_fd k c s = (if fds s (int k) = None then (Ret (int k), set_fd (int k) (Some c) s)
                    else fail_with EMFILE (-1) s)"

text \<open>The error number of a failed \<^verbatim>\<open>socket\<close> call is positive; the callers return it as a code.\<close>

definition sys_socket :: "int call" where
  "sys_socket = syscall (\<lambda>s. (Ret (-1), if 0 < errno s then s else s\<lparr>errno := EMFILE\<rparr>))
     (\<lambda>k _ _. open_fd k (new_sock [] False))"

definition sys_accept :: "int \<Rightarrow> int call" where
  "sys_accept fd = syscall (ret (-1)) (\<lambda>k bs f s.
     (case fds s fd of None \<Rightarrow> fail_with EBADF (-1) s
      | Some c \<Rightarrow> if listening c then open_fd k (new_sock bs f) s
                  else fail_with EINVAL (-1) s))"

text \<open>Calls that change one descriptor and return 0.\<close>

definition sys_on_fd :: "int \<Rightarrow> (byte list \<Rightarrow> bool \<Rightarrow> sock \<Rightarrow> sock) \<Rightarrow> int call" where
  "sys_on_fd fd g = syscall (ret (-1)) (\<lambda>_ bs f s.
     (case fds s fd of None \<Rightarrow> fail_with EBADF (-1) s
      | Some c \<Rightarrow> (Ret 0, set_fd fd (Some (g bs f c)) s)))"

definition sys_connect :: "int \<Rightarrow> 32 word \<Rightarrow> 16 word \<Rightarrow> int call" where
  "sys_connect fd a p s = sys_on_fd fd (\<lambda>bs f c. c\<lparr>rcvq := bs, fin := f\<rparr>)
     (case fds s fd of None \<Rightarrow> s | Some c \<Rightarrow> set_fd fd (Some (c\<lparr>addr := Some (a, p)\<rparr>)) s)"

definition sys_bind :: "int \<Rightarrow> 32 word \<Rightarrow> 16 word \<Rightarrow> int call" where
  "sys_bind fd a p = sys_on_fd fd (\<lambda>_ _ c. c\<lparr>addr := Some (a, p)\<rparr>)"

definition sys_listen :: "int \<Rightarrow> int call" where
  "sys_listen fd = sys_on_fd fd (\<lambda>_ _ c. c\<lparr>listening := True\<rparr>)"

definition sys_setsockopt :: "int \<Rightarrow> int call" where
  "sys_setsockopt fd = sys_on_fd fd (\<lambda>_ _ c. c)"

definition sys_fcntl_setfl :: "int \<Rightarrow> int \<Rightarrow> int call" where
  "sys_fcntl_setfl fd v = sys_on_fd fd (\<lambda>_ _ c. c\<lparr>flags := v\<rparr>)"

definition sys_fcntl_getfl :: "int \<Rightarrow> int call" where
  "sys_fcntl_getfl fd = syscall (ret (-1)) (\<lambda>_ _ _ s.
     (case fds s fd of None \<Rightarrow> fail_with EBADF (-1) s | Some c \<Rightarrow> (Ret (flags c), s)))"

text \<open>
  \<^verbatim>\<open>getsockopt(SO_ERROR)\<close>: the pending error, and what the peer of the connection then sends.
  \<^verbatim>\<open>select\<close> on one descriptor: 0 when the time is over, 1 when the descriptor is ready.
\<close>

definition sys_so_error :: "int \<Rightarrow> (int \<times> int) call" where
  "sys_so_error fd = syscall (ret (-1, 0)) (\<lambda>k bs f s.
     (case fds s fd of None \<Rightarrow> fail_with EBADF (-1, 0) s
      | Some c \<Rightarrow> (Ret (0, int k), set_fd fd (Some (c\<lparr>rcvq := bs, fin := f\<rparr>)) s)))"

definition sys_select1 :: "int call" where
  "sys_select1 = syscall (ret (-1)) (\<lambda>k _ _. ret (if k = 0 then 0 else 1))"

section \<open>The heap\<close>

text \<open>
  \<^verbatim>\<open>malloc\<close> returns a null pointer (\<open>None\<close>) or a new block, known by its number; no request
  above \<^verbatim>\<open>PTRDIFF_MAX\<close> bytes succeeds.
\<close>

definition malloc :: "nat \<Rightarrow> nat option call" where
  "malloc n = syscall (ret None) (\<lambda>_ _ _ s.
     (if PTRDIFF_MAX < n then fail_with ENOMEM None s
      else (Ret (Some (allocs s)), s\<lparr>live := allocs s # live s, allocs := Suc (allocs s)\<rparr>)))"

definition free :: "nat \<Rightarrow> unit call" where
  "free b s = (if b \<in> set (live s) then (Ret (), s\<lparr>live := remove1 b (live s)\<rparr>) else (Fault, s))"

text \<open>Contents of the \<open>int\<close> array that fills block \<open>b\<close>, right after its allocation.\<close>

definition fresh_ints :: "os \<Rightarrow> nat \<Rightarrow> nat \<Rightarrow> int list" where
  "fresh_ints s b n = map (junk s b) [0..<n]"

section \<open>Frames of the system calls\<close>

text \<open>
  Three parts of the state matter to the frame lemmas: what never changes, the heap, and
  the log.
\<close>

definition env :: "os \<Rightarrow> (nat \<Rightarrow> nat \<Rightarrow> int) \<times> bool \<times> string option \<times> string \<times>
    (string \<Rightarrow> 32 word) \<times> (string \<Rightarrow> 32 word option) \<times> (nat \<Rightarrow> int option)" where
  "env s = (junk s, le s, home s, curtime s, inet_addr s, inet_pton s, logfail s)"

definition heap :: "os \<Rightarrow> nat list \<times> nat" where
  "heap s = (live s, allocs s)"

definition logs :: "os \<Rightarrow> nat \<times> string list" where
  "logs s = (logcalls s, logfile s)"

lemma env_upd [simp]:
  "env (s\<lparr>sched := x\<rparr>) = env s" "env (s\<lparr>errno := e\<rparr>) = env s" "env (s\<lparr>fds := g\<rparr>) = env s"
  "env (s\<lparr>live := l\<rparr>) = env s" "env (s\<lparr>allocs := n\<rparr>) = env s"
  "env (s\<lparr>logcalls := n\<rparr>) = env s" "env (s\<lparr>logfile := f\<rparr>) = env s"
  "env (set_fd fd c s) = env s"
  by (simp_all add: env_def set_fd_def)

lemma heap_upd [simp]:
  "heap (s\<lparr>sched := x\<rparr>) = heap s" "heap (s\<lparr>errno := e\<rparr>) = heap s" "heap (s\<lparr>fds := g\<rparr>) = heap s"
  "heap (s\<lparr>logcalls := n\<rparr>) = heap s" "heap (s\<lparr>logfile := f\<rparr>) = heap s"
  "heap (set_fd fd c s) = heap s"
  by (simp_all add: heap_def set_fd_def)

lemma logs_upd [simp]:
  "logs (s\<lparr>sched := x\<rparr>) = logs s" "logs (s\<lparr>errno := e\<rparr>) = logs s" "logs (s\<lparr>fds := g\<rparr>) = logs s"
  "logs (s\<lparr>live := l\<rparr>) = logs s" "logs (s\<lparr>allocs := n\<rparr>) = logs s"
  "logs (set_fd fd c s) = logs s"
  by (simp_all add: logs_def set_fd_def)

lemma errno_sched_swap [simp]: "s\<lparr>errno := e, sched := x\<rparr> = s\<lparr>sched := x, errno := e\<rparr>"
  by simp

lemma set_fd_simps [simp]:
  "sched (set_fd fd c s) = sched s" "errno (set_fd fd c s) = errno s"
  "fds (set_fd fd c s) = (fds s)(fd := c)" "live (set_fd fd c s) = live s"
  "allocs (set_fd fd c s) = allocs s" "home (set_fd fd c s) = home s" "le (set_fd fd c s) = le s"
  "junk (set_fd fd c s) = junk s"
  by (simp_all add: set_fd_def)

lemma env_eqD: "env t = env s \<Longrightarrow> home t = home s \<and> le t = le s \<and> junk t = junk s \<and>
    inet_addr t = inet_addr s \<and> inet_pton t = inet_pton s"
  by (simp add: env_def)

lemma heap_eqD: "heap t = heap s \<Longrightarrow> live t = live s \<and> allocs t = allocs s"
  by (simp add: heap_def)

lemma keeps_syscall:
  assumes "\<And>s x e. f (s\<lparr>sched := x, errno := e\<rparr>) = f s" "\<And>s x. f (s\<lparr>sched := x\<rparr>) = f s"
    and "keeps f fl" "\<And>k bs b. keeps f (good k bs b)"
  shows "keeps f (syscall fl good)"
proof (rule keepsI)
  fix s r t assume "syscall fl good s = (r, t)"
  then show "f t = f s"
    using assms keepsD [OF assms(3)] keepsD [OF assms(4)]
    by (fastforce simp: syscall_def split: list.splits answer.splits)
qed

lemmas sys_defs = sys_read_def sys_recv_peek_def sys_write_def sys_close_def open_fd_def
  sys_socket_def sys_accept_def sys_on_fd_def sys_connect_def sys_bind_def sys_listen_def
  sys_setsockopt_def sys_fcntl_setfl_def sys_fcntl_getfl_def sys_so_error_def sys_select1_def
  fail_with_def syscall_def malloc_def ret_def

lemmas sys_splits = list.splits answer.splits option.splits if_splits prod.splits

lemma keeps_env_sys [keeps_intros]:
  "keeps env (sys_read fd n)" "keeps env (sys_recv_peek fd n)" "keeps env (sys_write fd bs)"
  "keeps env (sys_close fd)" "keeps env sys_socket" "keeps env (sys_accept fd)"
  "keeps env (sys_connect fd a p)" "keeps env (sys_bind fd a p)" "keeps env (sys_listen fd)"
  "keeps env (sys_setsockopt fd)" "keeps env (sys_fcntl_setfl fd v)" "keeps env (sys_fcntl_getfl fd)"
  "keeps env (sys_so_error fd)" "keeps env sys_select1" "keeps env (malloc n)"
  by (auto simp: keeps_def sys_defs Let_def split: sys_splits)

lemma keeps_env_free [keeps_intros]: "keeps env (free b)"
  by (auto simp: keeps_def free_def)

lemma keeps_heap_sys [keeps_intros]:
  "keeps heap (sys_read fd n)" "keeps heap (sys_recv_peek fd n)" "keeps heap (sys_write fd bs)"
  "keeps heap (sys_close fd)" "keeps heap sys_socket" "keeps heap (sys_accept fd)"
  "keeps heap (sys_connect fd a p)" "keeps heap (sys_bind fd a p)" "keeps heap (sys_listen fd)"
  "keeps heap (sys_setsockopt fd)" "keeps heap (sys_fcntl_setfl fd v)"
  "keeps heap (sys_fcntl_getfl fd)" "keeps heap (sys_so_error fd)" "keeps heap sys_select1"
  by (auto simp: keeps_def sys_defs Let_def split: sys_splits)

lemma malloc_runs:
  "runs (malloc n) (\<lambda>x t. env t = env s \<and> fds t = fds s \<and>
     (case x of None \<Rightarrow> live t = live s | Some b \<Rightarrow> live t = b # live s)) never s"
  by (auto simp: runs_def malloc_def syscall_def fail_with_def ret_def split: sys_splits)

lemma free_runs:
  "b \<in> set (live s) \<Longrightarrow>
   runs (free b) (\<lambda>_ t. env t = env s \<and> fds t = fds s \<and> live t = remove1 b (live s)) never s"
  by (auto simp: runs_def free_def)

section \<open>Interfaces of the system calls\<close>

text \<open>
  A system call uses up one answer of the kernel when it returns, returns a fixed value
  when the answer is a failure, and never returns without an answer.
\<close>

locale sys_call =
  fixes call :: "'a call" and failv :: 'a
  assumes starved: "sched s = [] \<Longrightarrow> call s = (Block, s)"
    and failing: "sched s = Err e # r \<Longrightarrow> call s = (Ret failv, s\<lparr>sched := r, errno := e\<rparr>)"
    and answered: "call s = (x, t) \<Longrightarrow> sched t = tl (sched s)"
begin

lemma shorter: "call s = (Ret a, t) \<Longrightarrow> length (sched t) < length (sched s)"
  using starved [of s] answered [of s] by (cases "sched s") auto

lemma not_longer: "call s = (x, t) \<Longrightarrow> length (sched t) \<le> length (sched s)"
  using answered [of s] by simp

end

text \<open>
  A retry loop runs such a call again as long as \<open>again\<close> holds of its result (a \<^verbatim>\<open>goto again\<close>
  or a \<^verbatim>\<open>continue\<close> on \<^verbatim>\<open>EINTR\<close>) and goes on with \<open>final\<close> after the last one.
\<close>

locale retry = sys_call call failv for call :: "'a call" and failv :: 'a +
  fixes loop :: "'b call" and again :: "'a \<Rightarrow> os \<Rightarrow> bool" and final :: "'a \<Rightarrow> 'b call"
  assumes unfold: "loop s = bnd call (\<lambda>a t. if again a t then loop t else final a t) s"
begin

text \<open>
  The outcome of the loop is the outcome of one call that is not repeated, in a state that
  only repeated calls separate from the first.
\<close>

lemma outcome:
  assumes "loop s = (x, t)" "I s" "\<And>u a v. I u \<Longrightarrow> call u = (Ret a, v) \<Longrightarrow> again a v \<Longrightarrow> I v"
  shows "\<exists>u. I u \<and> bnd call final u = (x, t) \<and> (\<forall>a v. call u = (Ret a, v) \<longrightarrow> \<not> again a v)"
  using assms(1,2)
proof (induction "length (sched s)" arbitrary: s rule: less_induct)
  case less
  obtain y u where y: "call s = (y, u)" by fastforce
  show ?case
  proof (cases "\<exists>a. y = Ret a \<and> again a u")
    case True
    then obtain a where a: "y = Ret a" "again a u" by blast
    with y less.prems(1) have "loop u = (x, t)" by (subst (asm) unfold) simp
    with less.hyps [OF shorter] assms(3) [OF less.prems(2)] y a show ?thesis by blast
  next
    case False
    with y have "loop s = bnd call final s" by (subst unfold) (auto intro: bnd_cong)
    with False y less.prems show ?thesis by (intro exI [of _ s]) auto
  qed
qed

lemma skip_one:
  assumes "sched s = Err e # r" "again failv (s\<lparr>sched := r, errno := e\<rparr>)"
  shows "loop s = loop (s\<lparr>sched := r, errno := e\<rparr>)"
  using assms by (subst unfold) (simp add: failing)

lemma skip_many:
  assumes "\<And>r. again failv (s\<lparr>sched := r, errno := e\<rparr>)"
  shows "loop (s\<lparr>sched := replicate (Suc n) (Err e) @ r\<rparr>) = loop (s\<lparr>sched := r, errno := e\<rparr>)"
  using assms
proof (induction n arbitrary: s)
  case 0
  then show ?case by (subst skip_one [where e = e and r = r]) simp_all
next
  case (Suc n)
  have "loop (s\<lparr>sched := replicate (Suc (Suc n)) (Err e) @ r\<rparr>)
      = loop ((s\<lparr>errno := e\<rparr>)\<lparr>sched := replicate (Suc n) (Err e) @ r\<rparr>)"
    using Suc.prems by (subst skip_one [where e = e and r = "replicate (Suc n) (Err e) @ r"]) simp_all
  also have "\<dots> = loop ((s\<lparr>errno := e\<rparr>)\<lparr>sched := r, errno := e\<rparr>)"
    using Suc.prems by (intro Suc.IH) simp
  finally show ?case by simp
qed

lemma loop_now: "call s = (Ret a, t) \<Longrightarrow> \<not> again a t \<Longrightarrow> loop s = final a t"
  by (subst unfold) simp

lemma keeps_loop:
  assumes call: "keeps f call" and final: "\<And>a. keeps f (final a)"
  shows "keeps f loop"
proof (rule keepsI)
  fix s x t show "loop s = (x, t) \<Longrightarrow> f t = f s"
  proof (induction "length (sched s)" arbitrary: s rule: less_induct)
    case less
    obtain y u where Pair: "call s = (y, u)" by fastforce
    note fu = keepsD [OF call Pair]
    show ?case
    proof (cases y)
      case (Ret a)
      with Pair less.prems have "(if again a u then loop u else final a u) = (x, t)"
        by (subst (asm) unfold) simp
      with fu less.hyps [OF shorter] Ret Pair keepsD [OF final] show ?thesis
        by (auto split: if_splits)
    qed (use Pair fu less.prems in \<open>auto simp: unfold [of s]\<close>)
  qed
qed

end

text \<open>The calls that the program puts into retry loops.\<close>

interpretation rd: sys_call "sys_read fd n" "(-1, [])" for fd n
  by unfold_locales (auto simp: sys_defs Let_def split: sys_splits)

interpretation pk: sys_call "sys_recv_peek fd n" "(-1, [])" for fd n
  by unfold_locales (auto simp: sys_defs Let_def split: sys_splits)

interpretation wr: sys_call "sys_write fd bs" "-1" for fd bs
  by unfold_locales (auto simp: sys_defs Let_def split: sys_splits)

interpretation ac: sys_call "sys_accept fd" "-1" for fd
  by unfold_locales (auto simp: sys_defs Let_def split: sys_splits)

interpretation sl: sys_call sys_select1 "-1"
  by unfold_locales (auto simp: sys_defs Let_def split: sys_splits)

text \<open>A concrete state for examples: one connection, descriptor 3, whose peer sends \<open>bs\<close> and closes.\<close>

definition demo_os :: "answer list \<Rightarrow> byte list \<Rightarrow> os" where
  "demo_os xs bs = \<lparr>sched = xs, errno = 0, fds = [3 \<mapsto> new_sock bs True], live = [], allocs = 0,
     junk = (\<lambda>_ _. 0), le = True, home = Some ''/root'', curtime = ''2019.01.01 00:00:00'',
     inet_addr = (\<lambda>_. 0), inet_pton = (\<lambda>_. None), logfail = (\<lambda>_. None), logcalls = 0, logfile = []\<rparr>"

end
