(* ===== verification/Socketlog.thy ===== *)
theory Socketlog
  imports Posix
begin

text \<open>
  The logger, \<^verbatim>\<open>src/Csocket/socketlog.c\<close>: one line per call, put together in a fixed buffer
  and appended to \<^verbatim>\<open>$HOME/log/socketlib.log\<close>. A line or a file name that does not fit its
  buffer is undefined behaviour, and so is a level outside the table of names. The message
  is the format string with its arguments already put in.
\<close>

section \<open>Definitions\<close>

definition ITCAST_DEBUG_FILE :: string where "ITCAST_DEBUG_FILE = ''socketlib.log''"
definition ITCAST_MAX_STRING_LEN :: nat where "ITCAST_MAX_STRING_LEN = 10240"

definition IC_NO_LOG_LEVEL :: int where "IC_NO_LOG_LEVEL = 0"

definition SocketLevel :: "int list" where
  "SocketLevel = [0, 1, 2, 3, 4]"

definition ICLevelName :: "string list" where
  "ICLevelName = [''NOLOG'', ''DEBUG'', ''INFO'', ''WARNING'', ''ERROR'']"

text \<open>\<^verbatim>\<open>%d\<close> of \<^verbatim>\<open>printf\<close>.\<close>

fun show_nat :: "nat \<Rightarrow> string" where
  "show_nat n = (if n < 10 then [char_of (48 + n)] else show_nat (n div 10) @ [char_of (48 + n mod 10)])"

declare show_nat.simps [simp del]

definition show_int :: "int \<Rightarrow> string" where
  "show_int i = (if i < 0 then CHR ''-'' # show_nat (nat (- i)) else show_nat (nat i))"

text \<open>\<^verbatim>\<open>strftime\<close> into a buffer of 33 characters: the time, or nothing when it does not fit.\<close>

definition ITCAST_Error_GetCurTime :: "string call" where
  "ITCAST_Error_GetCurTime s = (Ret (if length (curtime s) < 33 then curtime s else []), s)"

definition ITCAST_Error_OpenFile :: "int call" where
  "ITCAST_Error_OpenFile s = (case home s of
      None \<Rightarrow> (Fault, s)
    | Some h \<Rightarrow>
        if length (h @ ''/log/'' @ ITCAST_DEBUG_FILE) < 1024 then
          (case logfail s (logcalls s) of
             Some e \<Rightarrow> (Ret (-1), s\<lparr>logcalls := Suc (logcalls s), errno := e\<rparr>)
           | None \<Rightarrow> (Ret 0, s\<lparr>logcalls := Suc (logcalls s)\<rparr>))
        else (Fault, s))"

definition log_line :: "string \<Rightarrow> string \<Rightarrow> int \<Rightarrow> int \<Rightarrow> int \<Rightarrow> string \<Rightarrow> string" where
  "log_line tm file line level status msg =
     ''['' @ tm @ ''] '' @ ''['' @ ICLevelName ! nat level @ ''] '' @
     (if status \<noteq> 0 then ''[ERRNO is '' @ show_int status @ ''] '' else ''[SUCCESS] '') @
     msg @ '' ['' @ file @ '']'' @ '' ['' @ show_int line @ '']'' @ [char_of (10 :: nat)]"

definition ITCAST_Error_Core :: "string \<Rightarrow> int \<Rightarrow> int \<Rightarrow> int \<Rightarrow> string \<Rightarrow> unit call" where
  "ITCAST_Error_Core file line level status msg =
     bnd ITCAST_Error_GetCurTime (\<lambda>tm.
     bnd (require (0 \<le> level \<and> level < int (length ICLevelName))) (\<lambda>_.
     bnd (require (length (log_line tm file line level status msg) < ITCAST_MAX_STRING_LEN)) (\<lambda>_.
     bnd ITCAST_Error_OpenFile (\<lambda>r.
       if r \<noteq> 0 then ret ()
       else modify (\<lambda>s. s\<lparr>logfile := logfile s @ [log_line tm file line level status msg]\<rparr>)))))"

definition Socket_Log :: "string \<Rightarrow> int \<Rightarrow> int \<Rightarrow> int \<Rightarrow> string \<Rightarrow> unit call" where
  "Socket_Log file line level status msg =
     (if level = IC_NO_LOG_LEVEL then ret () else ITCAST_Error_Core file line level status msg)"

text \<open>What a successful log call does to the state.\<close>

definition logged :: "string \<Rightarrow> int \<Rightarrow> int \<Rightarrow> int \<Rightarrow> string \<Rightarrow> os \<Rightarrow> os" where
  "logged file line level status msg s =
     (case logfail s (logcalls s) of
        Some e \<Rightarrow> s\<lparr>logcalls := Suc (logcalls s), errno := e\<rparr>
      | None \<Rightarrow> s\<lparr>logcalls := Suc (logcalls s), logfile := logfile s @
          [log_line (if length (curtime s) < 33 then curtime s else []) file line level status msg]\<rparr>)"

text \<open>The environment's strings fit the logger's buffers.\<close>

definition log_safe :: "os \<Rightarrow> bool" where
  "log_safe s = (case home s of None \<Rightarrow> False | Some h \<Rightarrow> length h \<le> 1005)"

text \<open>The arguments of a log call fit: what every call in the library passes.\<close>

definition log_args_ok :: "string \<Rightarrow> int \<Rightarrow> int \<Rightarrow> int \<Rightarrow> string \<Rightarrow> bool" where
  "log_args_ok file line level status msg \<longleftrightarrow>
     0 < level \<and> level \<le> 4 \<and> length file + length msg \<le> 10000 \<and>
     INT_MIN \<le> line \<and> line \<le> INT_MAX \<and> INT_MIN \<le> status \<and> status \<le> INT_MAX"

section \<open>Properties\<close>

lemma length_show_nat: "0 < k \<Longrightarrow> n < 10 ^ k \<Longrightarrow> length (show_nat n) \<le> k"
proof (induction k arbitrary: n rule: nat_induct_non_zero)
  case 1
  then show ?case by (subst show_nat.simps) simp
next
  case (Suc k)
  show ?case
  proof (cases "n < 10")
    case True
    with Suc.hyps show ?thesis by (subst show_nat.simps) simp
  next
    case False
    from Suc.prems have "n div 10 < 10 ^ k" by (simp add: less_mult_imp_div_less mult.commute)
    from Suc.IH [OF this] False show ?thesis by (subst show_nat.simps) simp
  qed
qed

lemma length_show_int: "INT_MIN \<le> i \<Longrightarrow> i \<le> INT_MAX \<Longrightarrow> length (show_int i) \<le> 11"
proof -
  assume i: "INT_MIN \<le> i" "i \<le> INT_MAX"
  then have "nat (- i) < 10 ^ 10" "nat i < 10 ^ 10" by (auto simp: INT_MIN_def INT_MAX_def)
  then have "length (show_nat (nat (- i))) \<le> 10" "length (show_nat (nat i)) \<le> 10"
    by (intro length_show_nat; simp)+
  then show ?thesis by (simp add: show_int_def)
qed

lemma length_ICLevelName: "0 \<le> l \<Longrightarrow> l \<le> 4 \<Longrightarrow> length (ICLevelName ! nat l) \<le> 7"
proof -
  assume "0 \<le> l" "l \<le> 4"
  then have "l = 0 \<or> l = 1 \<or> l = 2 \<or> l = 3 \<or> l = 4" by arith
  then show ?thesis by (auto simp: ICLevelName_def)
qed

lemma length_log_line:
  assumes "log_args_ok file line level status msg" "length tm < 33"
  shows "length (log_line tm file line level status msg) < ITCAST_MAX_STRING_LEN"
  using assms length_show_int [of line] length_show_int [of status] length_ICLevelName [of level]
  by (auto simp: log_args_ok_def log_line_def ITCAST_MAX_STRING_LEN_def)

lemma log_safe_open: "log_safe s \<Longrightarrow> \<exists>h. home s = Some h \<and>
    length (h @ ''/log/'' @ ITCAST_DEBUG_FILE) < 1024"
  by (auto simp: log_safe_def ITCAST_DEBUG_FILE_def split: option.splits)

lemma Socket_Log_logged:
  assumes "log_safe s" "log_args_ok file line level status msg"
  shows "Socket_Log file line level status msg s = (Ret (), logged file line level status msg s)"
proof -
  let ?tm = "if length (curtime s) < 33 then curtime s else []"
  have fits: "length (log_line ?tm file line level status msg) < ITCAST_MAX_STRING_LEN"
    using assms(2) by (intro length_log_line) auto
  have lev: "0 \<le> level" "level < int (length ICLevelName)" "level \<noteq> IC_NO_LOG_LEVEL"
    using assms(2) by (auto simp: log_args_ok_def ICLevelName_def IC_NO_LOG_LEVEL_def)
  obtain h where h: "home s = Some h" "length (h @ ''/log/'' @ ITCAST_DEBUG_FILE) < 1024"
    using log_safe_open [OF assms(1)] by blast
  show ?thesis
    using fits lev h
    by (simp add: Socket_Log_def ITCAST_Error_Core_def ITCAST_Error_GetCurTime_def bnd_def
        prog_basics ITCAST_Error_OpenFile_def logged_def split: option.splits)
qed

lemma logged_simps [simp]:
  "sched (logged f l v st m s) = sched s" "fds (logged f l v st m s) = fds s"
  "live (logged f l v st m s) = live s" "allocs (logged f l v st m s) = allocs s"
  "home (logged f l v st m s) = home s" "le (logged f l v st m s) = le s"
  "junk (logged f l v st m s) = junk s" "env (logged f l v st m s) = env s"
  "heap (logged f l v st m s) = heap s"
  by (simp_all add: logged_def env_def heap_def split: option.splits)

lemma Socket_Log_frame:
  assumes "Socket_Log f l v st m s = (r, t)"
  shows "sched t = sched s \<and> fds t = fds s \<and> env t = env s \<and> heap t = heap s"
  using assms
  by (auto simp: Socket_Log_def ITCAST_Error_Core_def ITCAST_Error_GetCurTime_def bnd_def
      prog_basics ITCAST_Error_OpenFile_def env_def heap_def split: if_splits option.splits)

lemma keeps_Socket_Log [keeps_intros]:
  "keeps env (Socket_Log f l v st m)" "keeps heap (Socket_Log f l v st m)"
  "keeps fds (Socket_Log f l v st m)" "keeps sched (Socket_Log f l v st m)"
  using Socket_Log_frame by (fastforce intro: keepsI)+

text \<open>
  A log call whose arguments fit returns, appends at most one line to the log file and
  touches nothing else: the line has the time, the name of the level, the status or
  \<^verbatim>\<open>SUCCESS\<close>, the message, the file and the line number; no line is written when the file
  cannot be opened or the level is 0. A level outside the table of names is read out of
  bounds, because the check for it is commented out.
\<close>

theorem Socket_Log_outcome:
  assumes "log_safe s" "log_args_ok file line level status msg" "length (curtime s) < 33"
  shows "(\<exists>t. Socket_Log file line level status msg s = (Ret (), t) \<and>
      fds t = fds s \<and> heap t = heap s \<and> sched t = sched s \<and>
      logfile t = (if logfail s (logcalls s) = None
        then logfile s @ [log_line (curtime s) file line level status msg] else logfile s)) \<and>
    Socket_Log file line 0 status msg s = (Ret (), s) \<and>
    Socket_Log file line 5 status msg s = (Fault, s)"
proof -
  have "Socket_Log file line 5 status msg s = (Fault, s)"
    by (simp add: Socket_Log_def IC_NO_LOG_LEVEL_def ITCAST_Error_Core_def ITCAST_Error_GetCurTime_def bnd_def
        require_def fault_def ICLevelName_def)
  with assms show ?thesis
    by (auto simp: Socket_Log_logged logged_def Socket_Log_def [of _ _ 0] IC_NO_LOG_LEVEL_def ret_def heap_def
        split: option.splits)
qed

theorem Socket_Log_outcome_witness:
  "logfile (snd (Socket_Log ''a.c'' 7 4 (-1) ''bad'' (demo_os [] []))) =
     [''[2019.01.01 00:00:00] [ERROR] [ERRNO is -1] bad [a.c] [7]'' @ [char_of (10 :: nat)]]"
proof -
  have "log_line ''2019.01.01 00:00:00'' ''a.c'' 7 4 (-1) ''bad'' =
      ''[2019.01.01 00:00:00] [ERROR] [ERRNO is -1] bad [a.c] [7]'' @ [char_of (10 :: nat)]"
    by (simp add: log_line_def ICLevelName_def show_int_def show_nat.simps char_of_def bit_0)
  moreover have "log_safe (demo_os [] [])" "log_args_ok ''a.c'' 7 4 (-1) ''bad''"
    "length (curtime (demo_os [] [])) < 33"
    by (simp_all add: demo_os_def log_safe_def log_args_ok_def INT_MIN_def INT_MAX_def)
  ultimately show ?thesis
    using Socket_Log_outcome [of "demo_os [] []" "''a.c''" 7 4 "-1" "''bad''"] by (auto simp: demo_os_def)
qed

end
