(* ===== verification/Stream_IO.thy ===== *)
theory Stream_IO
  imports Posix
begin

text \<open>
  What the program's routines for reading and writing a given number of bytes promise.
  Both \<^verbatim>\<open>socketutil.c\<close> (\<^verbatim>\<open>readn\<close>, \<^verbatim>\<open>writen\<close>) and \<^verbatim>\<open>wrap.c\<close> (\<^verbatim>\<open>Readn\<close>, \<^verbatim>\<open>Writen\<close>) provide
  them; the message layer relies on the promises only.
\<close>

section \<open>One \<^verbatim>\<open>read\<close> and one \<^verbatim>\<open>write\<close>\<close>

lemma moved_pos [simp]: "0 < n \<Longrightarrow> xs \<noteq> [] \<Longrightarrow> min (min n (max (Suc 0) k)) (length xs) \<noteq> 0"
  by (simp add: min_def max_def)

lemma sys_read_Ret:
  assumes "sys_read fd n s = (Ret (r, bs), t)" "fds s fd = Some c" "0 < n"
  shows "r < 0 \<and> r = -1 \<and> bs = [] \<and> fds t = fds s \<or>
    r = 0 \<and> bs = [] \<and> rcvq c = [] \<and> fin c \<and> fds t = fds s \<or>
    0 < r \<and> r = int (length bs) \<and> bs \<noteq> [] \<and> length bs \<le> n \<and>
      rcvq c = bs @ drop (length bs) (rcvq c) \<and>
      fds t = (fds s)(fd \<mapsto> c\<lparr>rcvq := drop (length bs) (rcvq c)\<rparr>)"
  using assms
  by (auto simp: sys_read_def syscall_def fail_with_def ret_def Let_def split: sys_splits)

lemma sys_write_Ret:
  assumes "sys_write fd bs s = (Ret r, t)" "fds s fd = Some c"
  shows "r = -1 \<and> fds t = fds s \<or>
    0 \<le> r \<and> nat r \<le> length bs \<and> fds t = (fds s)(fd \<mapsto> c\<lparr>sndq := sndq c @ take (nat r) bs\<rparr>)"
  using assms
  by (auto simp: sys_write_def syscall_def fail_with_def ret_def Let_def split: sys_splits)

text \<open>Neither has undefined behaviour, and each uses up an answer of the kernel.\<close>

definition consumed :: "os \<Rightarrow> os \<Rightarrow> bool" where
  "consumed s t \<longleftrightarrow> (\<exists>k. sched t = drop k (sched s))"

lemma sys_read_calm:
  "runs (sys_read fd n) (\<lambda>x t. length (sched t) < length (sched s) \<and> consumed s t) never s"
  by (auto simp: consumed_def runs_def drop_Suc sys_read_def syscall_def fail_with_def ret_def Let_def
      intro: exI [of _ 1] split: sys_splits)

lemma sys_write_calm:
  "runs (sys_write fd bs) (\<lambda>x t. length (sched t) < length (sched s) \<and> consumed s t) never s"
  by (auto simp: consumed_def runs_def drop_Suc sys_write_def syscall_def fail_with_def ret_def Let_def
      intro: exI [of _ 1] split: sys_splits)

lemma consumed_refl [simp]: "consumed s s"
  unfolding consumed_def by (rule exI [of _ 0]) simp

lemma consumed_trans: "consumed s t \<Longrightarrow> consumed t u \<Longrightarrow> consumed s u"
  by (auto simp: consumed_def)

text \<open>
  Schedules in which the kernel only interrupts and serves: enough of them make every
  transfer go through. A write is served when it moves at least one byte.
\<close>

fun serves :: "answer \<Rightarrow> bool" where
  "serves (Ok k _ _) = True"
| "serves (Err e) = False"

fun moves :: "answer \<Rightarrow> bool" where
  "moves (Ok k _ _) = (0 < k)"
| "moves (Err e) = False"

definition benign :: "(answer \<Rightarrow> bool) \<Rightarrow> answer list \<Rightarrow> bool" where
  "benign p xs = list_all (\<lambda>a. p a \<or> a = Err EINTR) xs"

definition served :: "(answer \<Rightarrow> bool) \<Rightarrow> answer list \<Rightarrow> nat" where
  "served p xs = length (filter p xs)"

lemma benign_simps [simp]:
  "benign p []" "benign p (a # xs) \<longleftrightarrow> (p a \<or> a = Err EINTR) \<and> benign p xs"
  by (simp_all add: benign_def)

lemma served_simps [simp]:
  "served p [] = 0" "served p (a # xs) = (if p a then Suc (served p xs) else served p xs)"
  by (simp_all add: served_def)

lemma all_served:
  assumes "list_all serves xs"
  shows "benign serves xs" "served serves xs = length xs"
  using assms by (induction xs) simp_all

lemma served_moves_le: "served moves xs \<le> served serves xs"
proof (induction xs)
  case (Cons a xs) then show ?case by (cases a) auto
qed simp

section \<open>The interfaces\<close>

locale exact_reader =
  fixes rdn :: "int \<Rightarrow> nat \<Rightarrow> (int \<times> byte list) call"
  assumes sound: "rdn fd n s = (Ret (r, bs), t) \<Longrightarrow> fds s fd = Some c \<Longrightarrow>
      rcvq c = bs @ drop (length bs) (rcvq c) \<and>
      fds t = (fds s)(fd \<mapsto> c\<lparr>rcvq := drop (length bs) (rcvq c)\<rparr>) \<and>
      (r = int n \<and> length bs = n \<or>
       r = int (length bs) \<and> length bs < n \<and> bs = rcvq c \<and> fin c \<or>
       r = -1 \<and> length bs < n \<and> errno t \<noteq> EINTR)"
    and total: "fds s fd = Some c \<Longrightarrow> n \<le> length (rcvq c) \<Longrightarrow>
      benign serves (sched s) \<Longrightarrow> n \<le> served serves (sched s) \<Longrightarrow>
      \<exists>t. rdn fd n s = (Ret (int n, take n (rcvq c)), t) \<and> benign serves (sched t) \<and>
        served serves (sched s) \<le> served serves (sched t) + n"
    and rdn_env: "keeps env (rdn fd n)"
    and rdn_heap: "keeps heap (rdn fd n)"
    and rdn_calm: "runs (rdn fd n) (\<lambda>x. consumed s) never s"
begin

text \<open>The promises as one contract of a run.\<close>

lemma contract:
  assumes "fds s fd = Some c"
  shows "runs (rdn fd n) (\<lambda>(r, bs) t. heap t = heap s \<and> env t = env s \<and> consumed s t \<and>
      rcvq c = bs @ drop (length bs) (rcvq c) \<and>
      fds t = (fds s)(fd \<mapsto> c\<lparr>rcvq := drop (length bs) (rcvq c)\<rparr>) \<and>
      (r = int n \<and> length bs = n \<or>
       r = int (length bs) \<and> length bs < n \<and> bs = rcvq c \<and> fin c \<or>
       r = -1 \<and> length bs < n \<and> errno t \<noteq> EINTR)) never s"
  using rdn_calm [of fd n s] keepsD [OF rdn_env] keepsD [OF rdn_heap] sound [OF _ assms]
  by (fastforce simp: runs_def split: res.splits)

text \<open>A full read takes exactly the first \<open>n\<close> bytes of the stream.\<close>

lemma full:
  assumes "rdn fd n s = (Ret (int n, bs), t)" "fds s fd = Some c"
  shows "bs = take n (rcvq c)" "fds t = (fds s)(fd \<mapsto> c\<lparr>rcvq := drop n (rcvq c)\<rparr>)"
    "n \<le> length (rcvq c)"
proof -
  from sound [OF assms] have eq: "rcvq c = bs @ drop (length bs) (rcvq c)"
    and upd: "fds t = (fds s)(fd \<mapsto> c\<lparr>rcvq := drop (length bs) (rcvq c)\<rparr>)"
    and n: "length bs = n" by auto
  from eq n show "bs = take n (rcvq c)" by (metis append_eq_conv_conj)
  from upd n show "fds t = (fds s)(fd \<mapsto> c\<lparr>rcvq := drop n (rcvq c)\<rparr>)" by simp
  from eq n show "n \<le> length (rcvq c)" by (metis length_append le_add1)
qed

text \<open>On a kernel that never fails, every answer serves.\<close>

lemma calm_total:
  assumes "fds s fd = Some c" "n \<le> length (rcvq c)" "list_all serves (sched s)" "n \<le> length (sched s)"
  shows "\<exists>t. rdn fd n s = (Ret (int n, take n (rcvq c)), t) \<and> list_all serves (sched t) \<and>
    length (sched s) \<le> length (sched t) + n \<and> fds t = (fds s)(fd \<mapsto> c\<lparr>rcvq := drop n (rcvq c)\<rparr>)"
proof -
  note sv = all_served [OF assms(3)]
  from total [OF assms(1,2) sv(1)] sv(2) assms(4) obtain t where
    t: "rdn fd n s = (Ret (int n, take n (rcvq c)), t)" "served serves (sched s) \<le> served serves (sched t) + n"
    by auto
  with rdn_calm [of fd n s] obtain k where "sched t = drop k (sched s)" by (auto simp: runs_def consumed_def)
  with assms(3) have "list_all serves (sched t)" by (auto simp: list_all_iff dest: in_set_dropD)
  with t all_served(2) [OF this] sv(2) full(2) [OF t(1) assms(1)] show ?thesis by auto
qed

text \<open>Two full reads, one after the other, split the stream: the framing of a message.\<close>

lemma two_blocks:
  assumes "fds s fd = Some c" "rcvq c = xs @ ys @ zs"
    and "benign serves (sched s)" "length xs + length ys \<le> served serves (sched s)"
  shows "\<exists>t u. rdn fd (length xs) s = (Ret (int (length xs), xs), t) \<and>
    rdn fd (length ys) t = (Ret (int (length ys), ys), u) \<and>
    fds u = (fds s)(fd \<mapsto> c\<lparr>rcvq := zs\<rparr>)"
proof -
  from total [OF assms(1), of "length xs"] assms obtain t where
    t: "rdn fd (length xs) s = (Ret (int (length xs), xs), t)" and
    bt: "benign serves (sched t)" "served serves (sched s) \<le> served serves (sched t) + length xs"
    by auto
  from full [OF t assms(1)] assms(2) have ft: "fds t fd = Some (c\<lparr>rcvq := ys @ zs\<rparr>)"
    and ft': "fds t = (fds s)(fd \<mapsto> c\<lparr>rcvq := ys @ zs\<rparr>)" by auto
  from total [OF ft, of "length ys"] bt assms(4) obtain u where
    u: "rdn fd (length ys) t = (Ret (int (length ys), ys), u)" by auto
  from full [OF u ft] ft' have "fds u = (fds s)(fd \<mapsto> c\<lparr>rcvq := zs\<rparr>)" by simp
  with t u show ?thesis by blast
qed

end

locale exact_writer =
  fixes wrn :: "int \<Rightarrow> byte list \<Rightarrow> int call"
  assumes sound: "wrn fd bs s = (Ret r, t) \<Longrightarrow> fds s fd = Some c \<Longrightarrow>
      \<exists>m \<le> length bs. fds t = (fds s)(fd \<mapsto> c\<lparr>sndq := sndq c @ take m bs\<rparr>) \<and>
        (r = int (length bs) \<and> m = length bs \<or> r = -1)"
    and total: "fds s fd = Some c \<Longrightarrow> benign moves (sched s) \<Longrightarrow> length bs \<le> served moves (sched s) \<Longrightarrow>
      \<exists>t. wrn fd bs s = (Ret (int (length bs)), t) \<and> benign moves (sched t) \<and>
        served moves (sched s) \<le> served moves (sched t) + length bs"
    and wrn_env: "keeps env (wrn fd bs)"
    and wrn_heap: "keeps heap (wrn fd bs)"
    and wrn_calm: "runs (wrn fd bs) (\<lambda>x. consumed s) never s"
begin

lemma contract:
  assumes "fds s fd = Some c"
  shows "runs (wrn fd bs) (\<lambda>r t. heap t = heap s \<and> env t = env s \<and>
      (\<exists>m \<le> length bs. fds t = (fds s)(fd \<mapsto> c\<lparr>sndq := sndq c @ take m bs\<rparr>) \<and>
        (r = int (length bs) \<and> m = length bs \<or> r = -1))) never s"
  using wrn_calm [of fd bs s] keepsD [OF wrn_env] keepsD [OF wrn_heap] sound [OF _ assms]
  by (fastforce simp: runs_def split: res.splits)

lemma delivers:
  assumes "wrn fd bs s = (Ret r, t)" "fds s fd = Some c" "r \<noteq> -1"
  shows "r = int (length bs) \<and> fds t = (fds s)(fd \<mapsto> c\<lparr>sndq := sndq c @ bs\<rparr>)"
  using sound [OF assms(1,2)] assms(3) by auto

end

section \<open>Loops that keep the promises\<close>

text \<open>
  Both reading routines are the same loop, and both writing routines are the same loop up
  to what they do when a \<^verbatim>\<open>write\<close> returns 0 (\<open>zero\<close>): try again, or give up.
\<close>

lemma sys_read_serves:
  assumes "fds s fd = Some c" "0 < n" "n \<le> length (rcvq c)" "sched s = Ok k ys f # r"
  shows "\<exists>m. 0 < m \<and> m \<le> n \<and> sys_read fd n s = (Ret (int m, take m (rcvq c)),
    set_fd fd (Some (c\<lparr>rcvq := drop m (rcvq c)\<rparr>)) (s\<lparr>sched := r\<rparr>))"
  using assms by (intro exI [of _ "min (min n (max 1 k)) (length (rcvq c))"])
    (auto simp: sys_read_def syscall_def Let_def)

lemma sys_write_moves:
  assumes "fds s fd = Some c" "bs \<noteq> []" "sched s = Ok k ys f # r" "0 < k"
  shows "\<exists>m. 0 < m \<and> m \<le> length bs \<and> sys_write fd bs s = (Ret (int m),
    set_fd fd (Some (c\<lparr>sndq := sndq c @ take m bs\<rparr>)) (s\<lparr>sched := r\<rparr>))"
  using assms by (intro exI [of _ "min k (length bs)"]) (auto simp: sys_write_def syscall_def Let_def)

text \<open>What a routine has read, \<open>nleft\<close> bytes being wanted: \<open>got\<close>, and why it stopped.\<close>

definition read_post :: "int \<Rightarrow> nat \<Rightarrow> nat \<Rightarrow> sock \<Rightarrow> os \<Rightarrow> byte list \<Rightarrow> int \<Rightarrow> os \<Rightarrow> bool" where
  "read_post fd n nleft c s got r t \<longleftrightarrow> rcvq c = got @ drop (length got) (rcvq c) \<and>
     fds t = (fds s)(fd \<mapsto> c\<lparr>rcvq := drop (length got) (rcvq c)\<rparr>) \<and>
     (r = int n \<and> length got = nleft \<or>
      r = int (n - nleft + length got) \<and> length got < nleft \<and> got = rcvq c \<and> fin c \<or>
      r = -1 \<and> length got < nleft \<and> errno t \<noteq> EINTR)"

lemma read_post_more:
  assumes "rcvq c = xs @ q" "length xs \<le> nleft" "nleft \<le> n" "fds u = (fds s)(fd \<mapsto> c\<lparr>rcvq := q\<rparr>)"
    and "read_post fd n (nleft - length xs) (c\<lparr>rcvq := q\<rparr>) u got r t"
  shows "read_post fd n nleft c s (xs @ got) r t"
proof -
  from assms(5) obtain z where "q = got @ z" by (auto simp: read_post_def)
  with assms show ?thesis by (auto simp: read_post_def)
qed

locale read_loop =
  fixes loop :: "int \<Rightarrow> nat \<Rightarrow> nat \<Rightarrow> byte list \<Rightarrow> (int \<times> byte list) call"
  assumes unfold: "loop fd n nleft acc s =
    (if nleft = 0 then ret (int n, acc) s
     else bnd (sys_read fd nleft) (\<lambda>x t. case x of (nread, bs) \<Rightarrow>
       if nread < 0 then (if errno t = EINTR then loop fd n nleft acc t else ret (-1, acc) t)
       else if nread = 0 then ret (int (n - nleft), acc) t
       else loop fd n (nleft - nat nread) (acc @ bs) t) s)"
begin

lemma loop_sound:
  assumes "loop fd n nleft acc s = (Ret (r, bs), t)" "fds s fd = Some c" "nleft \<le> n"
  shows "\<exists>got. bs = acc @ got \<and> read_post fd n nleft c s got r t"
  using assms
proof (induction "length (sched s)" arbitrary: nleft acc s c rule: less_induct)
  case less
  show ?case
  proof (cases "nleft = 0")
    case True
    with less.prems show ?thesis
      by (subst (asm) unfold) (auto simp: ret_def fun_upd_idem read_post_def)
  next
    case False
    with less.prems(1) obtain nread xs u where call: "sys_read fd nleft s = (Ret (nread, xs), u)"
      and rest: "(if nread < 0 then if errno u = EINTR then loop fd n nleft acc u else ret (-1, acc) u
        else if nread = 0 then ret (int (n - nleft), acc) u
        else loop fd n (nleft - nat nread) (acc @ xs) u) = (Ret (r, bs), t)"
      by (subst (asm) unfold) (auto elim!: bnd_RetE split: prod.splits)
    note IH = less.hyps [OF rd.shorter [OF call]]
    from sys_read_Ret [OF call less.prems(2)] False consider
        (err) "nread < 0" "nread = -1" "xs = []" "fds u = fds s"
      | (eof) "nread = 0" "xs = []" "rcvq c = []" "fin c" "fds u = fds s"
      | (some) "0 < nread" "nread = int (length xs)" "xs \<noteq> []" "length xs \<le> nleft"
          "rcvq c = xs @ drop (length xs) (rcvq c)"
          "fds u = (fds s)(fd \<mapsto> c\<lparr>rcvq := drop (length xs) (rcvq c)\<rparr>)" by blast
    then show ?thesis
    proof cases
      case err
      with IH [of nleft acc c] rest less.prems False show ?thesis
        by (cases "errno u = EINTR") (auto simp: ret_def fun_upd_idem read_post_def)
    next
      case eof
      with rest less.prems False show ?thesis by (auto simp: ret_def fun_upd_idem read_post_def)
    next
      case some
      have "\<exists>got. bs = (acc @ xs) @ got \<and> read_post fd n (nleft - length xs)
          (c\<lparr>rcvq := drop (length xs) (rcvq c)\<rparr>) u got r t"
        by (rule IH) (use some rest less.prems in auto)
      with read_post_more [OF some(5,4) less.prems(3) some(6)] show ?thesis by auto
    qed
  qed
qed

lemma loop_total:
  assumes "fds s fd = Some c" "nleft \<le> length (rcvq c)" "nleft \<le> n"
    and "benign serves (sched s)" "nleft \<le> served serves (sched s)"
  shows "\<exists>t. loop fd n nleft acc s = (Ret (int n, acc @ take nleft (rcvq c)), t) \<and>
    benign serves (sched t) \<and> served serves (sched s) \<le> served serves (sched t) + nleft"
  using assms
proof (induction "length (sched s)" arbitrary: s c nleft acc rule: less_induct)
  case less
  show ?case
  proof (cases "nleft = 0")
    case True
    with less.prems show ?thesis by (subst unfold) (auto simp: ret_def)
  next
    case False
    with less.prems obtain a r where sch: "sched s = a # r" by (cases "sched s") auto
    show ?thesis
    proof (cases a)
      case (Err e)
      let ?u = "s\<lparr>sched := r, errno := e\<rparr>"
      have "sys_read fd nleft s = (Ret (-1, []), ?u)" using sch Err by (simp add: rd.failing)
      then have "loop fd n nleft acc s = loop fd n nleft acc ?u"
        using False less.prems(4) sch Err by (subst unfold) simp
      with less.hyps [of ?u c nleft acc] less.prems sch Err show ?thesis by auto
    next
      case (Ok k ys f)
      obtain m where m: "0 < m" "m \<le> nleft" "sys_read fd nleft s = (Ret (int m, take m (rcvq c)),
          set_fd fd (Some (c\<lparr>rcvq := drop m (rcvq c)\<rparr>)) (s\<lparr>sched := r\<rparr>))"
        using sys_read_serves [OF less.prems(1) _ less.prems(2)] False sch Ok by blast
      let ?c = "c\<lparr>rcvq := drop m (rcvq c)\<rparr>"
      let ?u = "set_fd fd (Some ?c) (s\<lparr>sched := r\<rparr>)"
      have "loop fd n nleft acc s = loop fd n (nleft - m) (acc @ take m (rcvq c)) ?u"
        using m False by (subst unfold) simp
      moreover have "take nleft (rcvq c) = take m (rcvq c) @ take (nleft - m) (drop m (rcvq c))"
        using m(2) by (metis le_add_diff_inverse take_add)
      moreover have "\<exists>t. loop fd n (nleft - m) (acc @ take m (rcvq c)) ?u =
          (Ret (int n, (acc @ take m (rcvq c)) @ take (nleft - m) (rcvq ?c)), t) \<and>
        benign serves (sched t) \<and> served serves (sched ?u) \<le> served serves (sched t) + (nleft - m)"
        by (rule less.hyps) (use less.prems sch Ok m in auto)
      ultimately show ?thesis using sch Ok m by auto
    qed
  qed
qed

lemma keeps_loop:
  assumes "\<And>fd k. keeps f (sys_read fd k)"
  shows "keeps f (loop fd n nleft acc)"
proof (rule keepsI)
  fix s x t show "loop fd n nleft acc s = (x, t) \<Longrightarrow> f t = f s"
  proof (induction "length (sched s)" arbitrary: nleft acc s rule: less_induct)
    case less
    obtain y u where call: "sys_read fd nleft s = (y, u)" by fastforce
    note fu = keepsD [OF assms call]
    show ?case
    proof (cases y)
      case (Ret a)
      with call less.hyps [OF rd.shorter] less.prems fu show ?thesis
        by (subst (asm) (2) unfold) (auto simp: ret_def split: if_splits prod.splits)
    qed (use call fu less.prems in \<open>auto simp: unfold [of _ _ _ _ s] ret_def split: if_splits\<close>)
  qed
qed

lemma loop_calm: "runs (loop fd n nleft acc) (\<lambda>x. consumed s) never s"
proof -
  have "(\<exists>a. x = Ret a) \<and> consumed s t \<or> x = Block" if "loop fd n nleft acc s = (x, t)" for x t
    using that
  proof (induction "length (sched s)" arbitrary: nleft acc s rule: less_induct)
    case less
    obtain y u where call: "sys_read fd nleft s = (y, u)" by fastforce
    from sys_read_calm [of fd nleft s] call consider (ret) a where "y = Ret a" "consumed s u" | "y = Block"
      by (cases y) (auto simp: runs_def)
    then show ?case
    proof cases
      case ret
      have IH: "(\<exists>a. x = Ret a) \<and> consumed s t \<or> x = Block" if "loop fd n m a u = (x, t)" for m a
        using less.hyps [OF rd.shorter that, OF call [unfolded ret(1)]] ret(2) consumed_trans by blast
      from call less.prems ret show ?thesis
        by (subst (asm) unfold) (auto simp: ret_def dest: IH split: if_splits prod.splits)
    qed (use call less.prems in \<open>auto simp: unfold [of _ _ _ _ s] ret_def split: if_splits\<close>)
  qed
  then show ?thesis by (auto simp: runs_def split: res.splits prod.splits)
qed

sublocale exact_reader "\<lambda>fd n. loop fd n n []"
proof
  show "rcvq c = bs @ drop (length bs) (rcvq c) \<and>
      fds t = (fds s)(fd \<mapsto> c\<lparr>rcvq := drop (length bs) (rcvq c)\<rparr>) \<and>
      (r = int n \<and> length bs = n \<or>
       r = int (length bs) \<and> length bs < n \<and> bs = rcvq c \<and> fin c \<or>
       r = -1 \<and> length bs < n \<and> errno t \<noteq> EINTR)"
    if "loop fd n n [] s = (Ret (r, bs), t)" "fds s fd = Some c" for fd n s r bs t c
    using loop_sound [OF that] by (auto simp: read_post_def)
  show "\<exists>t. loop fd n n [] s = (Ret (int n, take n (rcvq c)), t) \<and> benign serves (sched t) \<and>
        served serves (sched s) \<le> served serves (sched t) + n"
    if "fds s fd = Some c" "n \<le> length (rcvq c)" "benign serves (sched s)"
      "n \<le> served serves (sched s)" for fd n c and s :: os
    using loop_total [of s fd c n n "[]"] that by simp
qed (simp_all add: keeps_loop keeps_intros loop_calm)

end

locale write_loop =
  fixes loop :: "int \<Rightarrow> nat \<Rightarrow> byte list \<Rightarrow> int call" and zero :: "int \<Rightarrow> nat \<Rightarrow> byte list \<Rightarrow> int call"
  assumes unfold: "loop fd n bs s =
    (if bs = [] then ret (int n) s
     else bnd (sys_write fd bs) (\<lambda>w t.
       if w < 0 then (if errno t = EINTR then loop fd n bs t else ret (-1) t)
       else if w = 0 then zero fd n bs t
       else loop fd n (drop (nat w) bs) t) s)"
    and zero: "zero = loop \<or> zero = (\<lambda>_ _ _. ret (-1))"
begin

lemma loop_sound:
  assumes "loop fd n bs s = (Ret r, t)" "fds s fd = Some c"
  shows "\<exists>m \<le> length bs. fds t = (fds s)(fd \<mapsto> c\<lparr>sndq := sndq c @ take m bs\<rparr>) \<and>
    (r = int n \<and> m = length bs \<or> r = -1)"
  using assms
proof (induction "length (sched s)" arbitrary: bs s c rule: less_induct)
  case less
  show ?case
  proof (cases "bs = []")
    case True
    with less.prems show ?thesis by (subst (asm) unfold) (auto simp: ret_def fun_upd_idem)
  next
    case False
    with less.prems(1) obtain w u where call: "sys_write fd bs s = (Ret w, u)"
      and rest: "(if w < 0 then if errno u = EINTR then loop fd n bs u else ret (-1) u
        else if w = 0 then zero fd n bs u else loop fd n (drop (nat w) bs) u) = (Ret r, t)"
      by (subst (asm) unfold) (auto elim!: bnd_RetE)
    note IH = less.hyps [OF wr.shorter [OF call]]
    have stop: ?thesis if "fds t = fds s" "r = -1"
      using that less.prems(2) by (intro exI [of _ 0]) (simp add: fun_upd_idem)
    from sys_write_Ret [OF call less.prems(2)] consider
        (err) "w < 0" "fds u = fds s"
      | (none) "w = 0" "fds u = fds s"
      | (some) "0 < w" "nat w \<le> length bs" "fds u = (fds s)(fd \<mapsto> c\<lparr>sndq := sndq c @ take (nat w) bs\<rparr>)"
      using less.prems(2) by (cases "w = 0") (auto simp: fun_upd_idem)
    then show ?thesis
    proof cases
      case err
      with rest stop IH [of bs c] less.prems(2) show ?thesis by (auto simp: ret_def split: if_splits)
    next
      case none
      with rest stop IH [of bs c] less.prems(2) zero show ?thesis by (auto simp: ret_def)
    next
      case some
      with rest IH [of "drop (nat w) bs" "c\<lparr>sndq := sndq c @ take (nat w) bs\<rparr>"] obtain m where
        m: "m \<le> length bs - nat w" "r = int n \<and> m = length bs - nat w \<or> r = -1"
          "fds t = (fds u)(fd \<mapsto> c\<lparr>sndq := (sndq c @ take (nat w) bs) @ take m (drop (nat w) bs)\<rparr>)"
        by auto
      have "take (nat w) bs @ take m (drop (nat w) bs) = take (nat w + m) bs" by (simp add: take_add)
      with m some show ?thesis by (intro exI [of _ "nat w + m"]) auto
    qed
  qed
qed

lemma loop_total:
  assumes "fds s fd = Some c" "benign moves (sched s)" "length bs \<le> served moves (sched s)"
  shows "\<exists>t. loop fd n bs s = (Ret (int n), t) \<and> benign moves (sched t) \<and>
    served moves (sched s) \<le> served moves (sched t) + length bs"
  using assms
proof (induction "length (sched s)" arbitrary: s c bs rule: less_induct)
  case less
  show ?case
  proof (cases "bs = []")
    case True
    with less.prems show ?thesis by (subst unfold) (auto simp: ret_def)
  next
    case False
    with less.prems obtain a r where sch: "sched s = a # r" by (cases "sched s") auto
    show ?thesis
    proof (cases a)
      case (Err e)
      let ?u = "s\<lparr>sched := r, errno := e\<rparr>"
      have "sys_write fd bs s = (Ret (-1), ?u)" using sch Err by (simp add: wr.failing)
      then have "loop fd n bs s = loop fd n bs ?u"
        using False less.prems(2) sch Err by (subst unfold) simp
      with less.hyps [of ?u c bs] less.prems sch Err show ?thesis by auto
    next
      case (Ok k ys f)
      with less.prems(2) sch have "0 < k" by simp
      then obtain m where m: "0 < m" "m \<le> length bs" "sys_write fd bs s = (Ret (int m),
          set_fd fd (Some (c\<lparr>sndq := sndq c @ take m bs\<rparr>)) (s\<lparr>sched := r\<rparr>))"
        using sys_write_moves [OF less.prems(1) False] sch Ok by blast
      let ?c = "c\<lparr>sndq := sndq c @ take m bs\<rparr>"
      let ?u = "set_fd fd (Some ?c) (s\<lparr>sched := r\<rparr>)"
      have "loop fd n bs s = loop fd n (drop m bs) ?u"
        using m False by (subst unfold) simp
      moreover have "\<exists>t. loop fd n (drop m bs) ?u = (Ret (int n), t) \<and> benign moves (sched t) \<and>
        served moves (sched ?u) \<le> served moves (sched t) + length (drop m bs)"
        by (rule less.hyps) (use less.prems sch Ok m in auto)
      ultimately show ?thesis using sch Ok m \<open>0 < k\<close> by auto
    qed
  qed
qed

lemma keeps_loop:
  assumes "\<And>bs. keeps f (sys_write fd bs)"
  shows "keeps f (loop fd n bs)"
proof (rule keepsI)
  fix s x t show "loop fd n bs s = (x, t) \<Longrightarrow> f t = f s"
  proof (induction "length (sched s)" arbitrary: bs s rule: less_induct)
    case less
    obtain y u where call: "sys_write fd bs s = (y, u)" by fastforce
    note fu = keepsD [OF assms call]
    show ?case
    proof (cases y)
      case (Ret w)
      with call less.hyps [OF wr.shorter] less.prems fu zero show ?thesis
        by (subst (asm) (2) unfold) (auto simp: ret_def split: if_splits)
    qed (use call fu less.prems in \<open>auto simp: unfold [of _ _ _ s] ret_def split: if_splits\<close>)
  qed
qed

lemma loop_calm: "runs (loop fd n bs) (\<lambda>x. consumed s) never s"
proof -
  have "(\<exists>a. x = Ret a) \<and> consumed s t \<or> x = Block" if "loop fd n bs s = (x, t)" for x t
    using that
  proof (induction "length (sched s)" arbitrary: bs s rule: less_induct)
    case less
    obtain y u where call: "sys_write fd bs s = (y, u)" by fastforce
    from sys_write_calm [of fd bs s] call consider (ret) a where "y = Ret a" "consumed s u" | "y = Block"
      by (cases y) (auto simp: runs_def)
    then show ?case
    proof cases
      case ret
      have IH: "(\<exists>a. x = Ret a) \<and> consumed s t \<or> x = Block" if "loop fd n m u = (x, t)" for m
        using less.hyps [OF wr.shorter that, OF call [unfolded ret(1)]] ret(2) consumed_trans by blast
      from call less.prems ret zero show ?thesis
        by (subst (asm) unfold) (auto simp: ret_def dest: IH split: if_splits prod.splits)
    qed (use call less.prems in \<open>auto simp: unfold [of _ _ _ s] ret_def split: if_splits\<close>)
  qed
  then show ?thesis by (auto simp: runs_def split: res.splits prod.splits)
qed

sublocale exact_writer "\<lambda>fd bs. loop fd (length bs) bs"
proof
  show "\<exists>m \<le> length bs. fds t = (fds s)(fd \<mapsto> c\<lparr>sndq := sndq c @ take m bs\<rparr>) \<and>
        (r = int (length bs) \<and> m = length bs \<or> r = -1)"
    if "loop fd (length bs) bs s = (Ret r, t)" "fds s fd = Some c" for fd bs s r t c
    using loop_sound [OF that] .
  show "\<exists>t. loop fd (length bs) bs s = (Ret (int (length bs)), t) \<and> benign moves (sched t) \<and>
        served moves (sched s) \<le> served moves (sched t) + length bs"
    if "fds s fd = Some c" "benign moves (sched s)" "length bs \<le> served moves (sched s)"
    for fd c bs and s :: os
    using loop_total [OF that] .
qed (simp_all add: keeps_loop keeps_intros loop_calm)

end

end
