(* ===== verification/Wrap.thy ===== *)
theory Wrap
  imports Stream_IO
begin

text \<open>
  The wrappers of the socket calls, \<^verbatim>\<open>src/Csocket/wrap.c\<close>. The capitalised names end the
  process when the call fails, or run it again after an interruption. \<^verbatim>\<open>Readn\<close> and \<^verbatim>\<open>Writen\<close>
  move a whole block; \<^verbatim>\<open>Readline\<close> reads a line through a static buffer.
\<close>

section \<open>Definitions\<close>

definition perr_exit :: "string \<Rightarrow> 'a call" where
  "perr_exit msg = exit_with (-1)"

function Accept :: "int \<Rightarrow> int call" where
  "Accept fd s = bnd (sys_accept fd) (\<lambda>n t.
     if n < 0 then
       (if errno t = ECONNABORTED \<or> errno t = EINTR then Accept fd t
        else perr_exit ''accept error'' t)
     else ret n t) s"
  by pat_completeness auto
termination by (relation "measure (\<lambda>(fd, s). length (sched s))") (auto dest: ac.shorter)

definition Bind :: "int \<Rightarrow> 32 word \<Rightarrow> 16 word \<Rightarrow> int call" where
  "Bind fd a p = bnd (sys_bind fd a p) (\<lambda>n. if n < 0 then perr_exit ''bind error'' else ret n)"

definition Connect :: "int \<Rightarrow> 32 word \<Rightarrow> 16 word \<Rightarrow> int call" where
  "Connect fd a p = bnd (sys_connect fd a p) (\<lambda>n. if n < 0 then perr_exit ''connect error'' else ret n)"

definition Listen :: "int \<Rightarrow> int call" where
  "Listen fd = bnd (sys_listen fd) (\<lambda>n. if n < 0 then perr_exit ''listen error'' else ret n)"

definition Socket :: "int call" where
  "Socket = bnd sys_socket (\<lambda>n. if n < 0 then perr_exit ''socket error'' else ret n)"

function Read :: "int \<Rightarrow> nat \<Rightarrow> (int \<times> byte list) call" where
  "Read fd nbytes s = bnd (sys_read fd nbytes) (\<lambda>x t. case x of (n, bs) \<Rightarrow>
     if n = -1 then (if errno t = EINTR then Read fd nbytes t else ret (-1, bs) t)
     else ret (n, bs) t) s"
  by pat_completeness auto
termination by (relation "measure (\<lambda>(fd, n, s). length (sched s))") (auto dest: rd.shorter)

function Write :: "int \<Rightarrow> byte list \<Rightarrow> int call" where
  "Write fd bs s = bnd (sys_write fd bs) (\<lambda>n t.
     if n = -1 then (if errno t = EINTR then Write fd bs t else ret (-1) t)
     else ret n t) s"
  by pat_completeness auto
termination by (relation "measure (\<lambda>(fd, bs, s). length (sched s))") (auto dest: wr.shorter)

definition Close :: "int \<Rightarrow> int call" where
  "Close fd = bnd (sys_close fd) (\<lambda>n. if n = -1 then perr_exit ''close error'' else ret n)"

text \<open>
  The loops of \<^verbatim>\<open>Readn\<close> and \<^verbatim>\<open>Writen\<close>: \<open>nleft\<close> bytes still to move, \<open>acc\<close> what is in the buffer
  already, \<open>bs\<close> what is still to be written.
\<close>

function Readn_loop :: "int \<Rightarrow> nat \<Rightarrow> nat \<Rightarrow> byte list \<Rightarrow> (int \<times> byte list) call" where
  "Readn_loop fd n nleft acc s =
     (if nleft = 0 then ret (int (n - nleft), acc) s
      else bnd (sys_read fd nleft) (\<lambda>x t. case x of (nread, bs) \<Rightarrow>
        if nread < 0 then
          (if errno t = EINTR then Readn_loop fd n nleft acc t else ret (-1, acc) t)
        else if nread = 0 then ret (int (n - nleft), acc) t
        else Readn_loop fd n (nleft - nat nread) (acc @ bs) t) s)"
  by pat_completeness auto
termination
  by (relation "measure (\<lambda>(fd, n, nleft, acc, s). length (sched s))") (auto dest: rd.shorter)

definition Readn :: "int \<Rightarrow> nat \<Rightarrow> (int \<times> byte list) call" where
  "Readn fd n = Readn_loop fd n n []"

function Writen_loop :: "int \<Rightarrow> nat \<Rightarrow> byte list \<Rightarrow> int call" where
  "Writen_loop fd n bs s =
     (if bs = [] then ret (int n) s
      else bnd (sys_write fd bs) (\<lambda>nwritten t.
        if nwritten \<le> 0 then
          (if nwritten < 0 \<and> errno t = EINTR then Writen_loop fd n bs t else ret (-1) t)
        else Writen_loop fd n (drop (nat nwritten) bs) t) s)"
  by pat_completeness auto
termination by (relation "measure (\<lambda>(fd, n, bs, s). length (sched s))") (auto dest: wr.shorter)

definition Writen :: "int \<Rightarrow> byte list \<Rightarrow> int call" where
  "Writen fd bs = Writen_loop fd (length bs) bs"

text \<open>The static variables of \<^verbatim>\<open>my_read\<close>.\<close>

record rl_static =
  read_cnt :: int
  read_ptr :: nat
  read_buf :: "byte list"

definition rl_init :: rl_static where
  "rl_init = \<lparr>read_cnt = 0, read_ptr = 0, read_buf = replicate 100 0\<rparr>"

function my_read_fill :: "int \<Rightarrow> (int \<times> byte list) call" where
  "my_read_fill fd s = bnd (sys_read fd 100) (\<lambda>x t. case x of (n, bs) \<Rightarrow>
     if n < 0 then (if errno t = EINTR then my_read_fill fd t else ret (n, bs) t)
     else ret (n, bs) t) s"
  by pat_completeness auto
termination by (relation "measure (\<lambda>(fd, s). length (sched s))") (auto dest: rd.shorter)

definition my_read_take :: "rl_static \<Rightarrow> ((int \<times> byte) \<times> rl_static) call" where
  "my_read_take b = bnd (require (read_ptr b < length (read_buf b))) (\<lambda>_.
     ret ((1, read_buf b ! read_ptr b),
          b\<lparr>read_cnt := read_cnt b - 1, read_ptr := Suc (read_ptr b)\<rparr>))"

definition my_read :: "int \<Rightarrow> rl_static \<Rightarrow> ((int \<times> byte) \<times> rl_static) call" where
  "my_read fd b =
     (if read_cnt b \<le> 0 then
        bnd (my_read_fill fd) (\<lambda>(n, bs).
          let b' = b\<lparr>read_cnt := n, read_buf := bs @ drop (length bs) (read_buf b)\<rparr> in
          if n < 0 then ret ((-1, 0), b')
          else if n = 0 then ret ((0, 0), b')
          else my_read_take (b'\<lparr>read_ptr := 0\<rparr>))
      else my_read_take b)"

text \<open>
  \<^verbatim>\<open>Readline\<close>: the result, what is stored in the buffer (with the final zero byte where the
  code stores it) and the static variables.
\<close>

function Readline_loop ::
  "int \<Rightarrow> nat \<Rightarrow> nat \<Rightarrow> byte list \<Rightarrow> rl_static \<Rightarrow> ((int \<times> byte list) \<times> rl_static) call" where
  "Readline_loop fd maxlen n acc b s =
     (if n < maxlen then
        bnd (my_read fd b) (\<lambda>x t. case x of ((rc, c), b') \<Rightarrow>
          if rc = 1 then
            (if c = 10 then ret ((int n, acc @ [c, 0]), b') t
             else Readline_loop fd maxlen (Suc n) (acc @ [c]) b' t)
          else if rc = 0 then ret ((int (n - 1), acc @ [0]), b') t
          else ret ((-1, acc), b') t) s
      else ret ((int n, acc @ [0]), b) s)"
  by pat_completeness auto
termination by (relation "measure (\<lambda>(fd, maxlen, n, acc, b, s). maxlen - n)") auto

definition Readline :: "int \<Rightarrow> nat \<Rightarrow> rl_static \<Rightarrow> ((int \<times> byte list) \<times> rl_static) call" where
  "Readline fd maxlen b = Readline_loop fd maxlen 1 [] b"

definition INADDR_ANY :: "32 word" where "INADDR_ANY = 0"

definition tcp4bind :: "16 word \<Rightarrow> string option \<Rightarrow> int call" where
  "tcp4bind port IP =
     bnd Socket (\<lambda>lfd.
     bnd (case IP of
            None \<Rightarrow> ret INADDR_ANY
          | Some ip \<Rightarrow> bnd (gets (\<lambda>s. inet_pton s ip)) (\<lambda>a.
              case a of None \<Rightarrow> exit_with 1 | Some a \<Rightarrow> ret a)) (\<lambda>a.
     bnd (gets le) (\<lambda>l.
     bnd (sys_setsockopt lfd) (\<lambda>_.
     bnd (Bind lfd a (htons l port)) (\<lambda>_.
     ret lfd)))))"

declare Accept.simps [simp del] Read.simps [simp del] Write.simps [simp del]
  Readn_loop.simps [simp del] Writen_loop.simps [simp del] my_read_fill.simps [simp del]
  Readline_loop.simps [simp del]

section \<open>Retry loops\<close>

interpretation Accept: retry "sys_accept fd" "-1" "Accept fd"
  "\<lambda>n t. n < 0 \<and> (errno t = ECONNABORTED \<or> errno t = EINTR)"
  "\<lambda>n. if n < 0 then perr_exit ''accept error'' else ret n" for fd
  by unfold_locales (subst Accept.simps, rule bnd_cong, simp_all)

interpretation Read: retry "sys_read fd n" "(-1, [])" "Read fd n"
  "\<lambda>x t. fst x = -1 \<and> errno t = EINTR" ret for fd n
  by unfold_locales (subst Read.simps, rule bnd_cong, auto)

interpretation Write: retry "sys_write fd bs" "-1" "Write fd bs"
  "\<lambda>n t. n = -1 \<and> errno t = EINTR" ret for fd bs
  by unfold_locales (subst Write.simps, rule bnd_cong, auto)

interpretation fill: retry "sys_read fd 100" "(-1, [])" "my_read_fill fd"
  "\<lambda>x t. fst x < 0 \<and> errno t = EINTR" ret for fd
  by unfold_locales (subst my_read_fill.simps, rule bnd_cong, auto)

lemma keeps_perr_exit [keeps_intros]: "keeps f (perr_exit m)"
  by (simp add: perr_exit_def keeps_basic)

lemma keeps_env_wrap [keeps_intros]:
  "keeps env (Accept fd)" "keeps env (Read fd n)" "keeps env (Write fd bs)"
  "keeps env (my_read_fill fd)" "keeps env (Bind fd a p)" "keeps env (Listen fd)"
  "keeps env Socket" "keeps env (Close fd)" "keeps env (Connect fd a p)"
  by (auto simp: Bind_def Listen_def Socket_def Close_def Connect_def
      intro!: Accept.keeps_loop Read.keeps_loop Write.keeps_loop fill.keeps_loop keeps_intros)

section \<open>\<^verbatim>\<open>Readn\<close> and \<^verbatim>\<open>Writen\<close> keep the promises\<close>

interpretation Readn_loop: read_loop Readn_loop
  by unfold_locales (subst Readn_loop.simps, auto simp: ret_def intro: bnd_cong)

interpretation Readn: exact_reader Readn
  by (simp add: Readn_def [abs_def] Readn_loop.exact_reader_axioms)

interpretation Writen_loop: write_loop Writen_loop "\<lambda>_ _ _. ret (-1)"
  by unfold_locales (subst Writen_loop.simps, auto intro: bnd_cong)

interpretation Writen: exact_writer Writen
  by (simp add: Writen_def [abs_def] Writen_loop.exact_writer_axioms)

section \<open>\<^verbatim>\<open>Accept\<close>\<close>

definition accepted :: "os \<Rightarrow> int \<Rightarrow> os \<Rightarrow> bool" where
  "accepted s n t \<longleftrightarrow> 0 \<le> n \<and> fds s n = None \<and> fds t n \<noteq> None \<and> fds t = (fds s)(n := fds t n)"

lemma sys_accept_runs:
  "runs (sys_accept fd) (\<lambda>n t. n = -1 \<and> fds t = fds s \<or> accepted s n t) never s"
  by (auto simp: runs_def accepted_def sys_accept_def syscall_def fail_with_def open_fd_def ret_def
      split: sys_splits)

lemma sys_accept_Ret: "sys_accept fd s = (Ret n, t) \<Longrightarrow> n = -1 \<and> fds t = fds s \<or> accepted s n t"
  by (rule runs_Ret [OF sys_accept_runs])

text \<open>
  \<^verbatim>\<open>Accept\<close> never reports a failure: when it returns, the result is a descriptor that was
  not open before and that now is, and no other descriptor has changed; when it ends the
  process, the status is -1 and \<^verbatim>\<open>errno\<close> is neither \<^verbatim>\<open>ECONNABORTED\<close> nor \<^verbatim>\<open>EINTR\<close>, however
  often the call was interrupted before.
\<close>

theorem Accept_outcome:
  "case Accept fd s of
     (Ret n, t) \<Rightarrow> accepted s n t
   | (Exit c, t) \<Rightarrow> c = -1 \<and> fds t = fds s \<and> errno t \<notin> {ECONNABORTED, EINTR}
   | (Block, t) \<Rightarrow> True
   | (Fault, t) \<Rightarrow> False"
proof -
  obtain x t where x: "Accept fd s = (x, t)" by fastforce
  obtain u where u: "fds u = fds s" "bnd (sys_accept fd)
      (\<lambda>n. if n < 0 then perr_exit ''accept error'' else ret n) u = (x, t)"
    and last: "\<And>a v. sys_accept fd u = (Ret a, v) \<Longrightarrow> \<not> (a < 0 \<and> errno v \<in> {ECONNABORTED, EINTR})"
    using Accept.outcome [OF x, of "\<lambda>u. fds u = fds s"] sys_accept_Ret by (fastforce simp: accepted_def)
  obtain y v where y: "sys_accept fd u = (y, v)" by fastforce
  show ?thesis
    using sys_accept_runs [of fd u] last y u x
    by (auto simp: runs_def perr_exit_def exit_with_def ret_def accepted_def split: res.splits if_splits)
qed

section \<open>\<^verbatim>\<open>Readline\<close>\<close>

text \<open>
  The static buffer holds \<open>read_cnt\<close> bytes from \<open>read_ptr\<close> on. What a caller can still read
  on a descriptor is what is buffered followed by what is in the socket.
\<close>

definition rl_wf :: "rl_static \<Rightarrow> bool" where
  "rl_wf b \<longleftrightarrow> length (read_buf b) = 100 \<and> (0 < read_cnt b \<longrightarrow> read_ptr b + nat (read_cnt b) \<le> 100)"

definition buffered :: "rl_static \<Rightarrow> byte list" where
  "buffered b = take (nat (read_cnt b)) (drop (read_ptr b) (read_buf b))"

definition rl_stream :: "rl_static \<Rightarrow> os \<Rightarrow> int \<Rightarrow> byte list" where
  "rl_stream b s fd = buffered b @ (case fds s fd of None \<Rightarrow> [] | Some c \<Rightarrow> rcvq c)"

lemma rl_init_wf: "rl_wf rl_init" "buffered rl_init = []"
  by (simp_all add: rl_wf_def rl_init_def buffered_def)

lemma my_read_fill_Ret:
  assumes "my_read_fill fd s = (Ret (n, bs), t)" "fds s fd = Some c"
  shows "n < 0 \<and> bs = [] \<and> fds t = fds s \<and> errno t \<noteq> EINTR \<or>
    n = 0 \<and> bs = [] \<and> rcvq c = [] \<and> fin c \<and> fds t = fds s \<or>
    0 < n \<and> n = int (length bs) \<and> length bs \<le> 100 \<and> (\<exists>q. rcvq c = bs @ q \<and> fds t = (fds s)(fd \<mapsto> c\<lparr>rcvq := q\<rparr>))"
proof -
  obtain u where u: "fds u = fds s" "sys_read fd 100 u = (Ret (n, bs), t)"
    "\<not> (n < 0 \<and> errno t = EINTR)"
    using fill.outcome [OF assms(1), of "\<lambda>u. fds u = fds s"] sys_read_Ret [of fd 100] assms(2)
    by (fastforce simp: ret_def elim!: bnd_RetE)
  with sys_read_Ret [OF u(2)] assms(2) show ?thesis by fastforce
qed

lemma my_read_take_Ret:
  assumes "my_read_take b s = (Ret ((rc, x), b'), t)" "rl_wf b" "0 < read_cnt b"
  shows "rc = 1 \<and> t = s \<and> rl_wf b' \<and> buffered b = x # buffered b'"
proof -
  have "buffered b = read_buf b ! read_ptr b #
      take (nat (read_cnt b) - 1) (drop (Suc (read_ptr b)) (read_buf b))"
    using assms(2,3) Cons_nth_drop_Suc [of "read_ptr b" "read_buf b", symmetric]
    by (cases "nat (read_cnt b)") (auto simp: buffered_def rl_wf_def)
  then show ?thesis
    using assms by (auto simp: my_read_take_def bnd_def require_def ret_def fault_def buffered_def
        rl_wf_def nat_diff_distrib split: if_splits)
qed

text \<open>One byte: the first of the stream, the end of it, or an error that loses nothing.\<close>

lemma my_read_Ret:
  assumes "my_read fd b s = (Ret ((rc, x), b'), t)" "rl_wf b" "fds s fd = Some c"
  shows "rl_wf b' \<and> fds t fd \<noteq> None \<and>
    (rc = 1 \<and> rl_stream b s fd = x # rl_stream b' t fd \<or>
     rc = 0 \<and> rl_stream b s fd = [] \<and> rl_stream b' t fd = [] \<or>
     rc = -1 \<and> rl_stream b' t fd = rl_stream b s fd \<and> errno t \<noteq> EINTR)"
proof (cases "read_cnt b \<le> 0")
  case False
  with assms my_read_take_Ret [of b s rc x b' t] show ?thesis
    by (auto simp: my_read_def rl_stream_def)
next
  case True
  then have nil: "buffered b = []" by (simp add: buffered_def)
  from assms(1) True obtain n bs u where fill: "my_read_fill fd s = (Ret (n, bs), u)"
    and rest: "(let b' = b\<lparr>read_cnt := n, read_buf := bs @ drop (length bs) (read_buf b)\<rparr> in
          if n < 0 then ret ((-1, 0), b') else if n = 0 then ret ((0, 0), b')
          else my_read_take (b'\<lparr>read_ptr := 0\<rparr>)) u = (Ret ((rc, x), b'), t)"
    by (auto simp: my_read_def elim!: bnd_RetE)
  let ?b = "b\<lparr>read_cnt := n, read_buf := bs @ drop (length bs) (read_buf b), read_ptr := 0\<rparr>"
  from my_read_fill_Ret [OF fill assms(3)] assms(2) nil True rest show ?thesis
    using my_read_take_Ret [of ?b u rc x b' t] assms(3)
    by (fastforce simp: rl_stream_def rl_wf_def buffered_def ret_def Let_def)
qed

lemma Readline_loop_post:
  assumes "Readline_loop fd maxlen n acc b s = (Ret ((r, st), b'), t)" "rl_wf b" "fds s fd = Some c"
    and "Suc (length acc) = n" "n \<le> maxlen" "10 \<notin> set acc"
  shows "rl_wf b' \<and> (\<exists>line. st = (acc @ line) @ (if r = -1 then [] else [0]) \<and>
    rl_stream b s fd = line @ rl_stream b' t fd \<and> 10 \<notin> set (butlast line) \<and>
    length st \<le> maxlen \<and> (r = -1 \<longrightarrow> 10 \<notin> set line) \<and> (r \<noteq> -1 \<longrightarrow>
      (if 10 \<in> set line then r = int (length (acc @ line))
       else r = int (length (acc @ line)) \<and> rl_stream b' t fd = [] \<or>
         r = int maxlen \<and> Suc (length (acc @ line)) = maxlen)))"
  using assms
proof (induction fd maxlen n acc b s arbitrary: c rule: Readline_loop.induct)
  case (1 fd maxlen n acc b s)
  show ?case
  proof (cases "n < maxlen")
    case False
    with "1.prems" show ?thesis
      by (subst (asm) Readline_loop.simps) (auto simp: ret_def intro!: exI [of _ "[]"])
  next
    case True
    with "1.prems"(1) obtain rc x b1 u where call: "my_read fd b s = (Ret ((rc, x), b1), u)"
      and rest: "(if rc = 1 then
            if x = 10 then ret ((int n, acc @ [x, 0]), b1) u
            else Readline_loop fd maxlen (Suc n) (acc @ [x]) b1 u
          else if rc = 0 then ret ((int (n - 1), acc @ [0]), b1) u
          else ret ((-1, acc), b1) u) = (Ret ((r, st), b'), t)"
      by (subst (asm) Readline_loop.simps) (auto elim!: bnd_RetE split: prod.splits)
    note my = my_read_Ret [OF call "1.prems"(2,3)]
    show ?thesis
    proof (cases "rc = 1 \<and> x \<noteq> 10")
      case False
      with my rest "1.prems" True show ?thesis
        by (intro conjI exI [of _ "if rc = 1 then [10] else []"]) (auto simp: ret_def)
    next
      case more: True
      with my obtain c1 where c1: "fds u fd = Some c1" by auto
      from Suc_leI [OF True] "1.IH" [OF True call refl refl _ _ _ _ c1] more rest my "1.prems"
      obtain line where
        line: "rl_wf b'" "st = ((acc @ [x]) @ line) @ (if r = -1 then [] else [0])"
          "rl_stream b1 u fd = line @ rl_stream b' t fd" "10 \<notin> set (butlast line)"
          "length st \<le> maxlen" "r = -1 \<longrightarrow> 10 \<notin> set line"
          "r \<noteq> -1 \<longrightarrow> (if 10 \<in> set line then r = int (length ((acc @ [x]) @ line))
             else r = int (length ((acc @ [x]) @ line)) \<and> rl_stream b' t fd = [] \<or>
               r = int maxlen \<and> Suc (length ((acc @ [x]) @ line)) = maxlen)" by auto
      with more my show ?thesis by (intro conjI exI [of _ "x # line"]) auto
    qed
  qed
qed

text \<open>
  C37: a call of \<^verbatim>\<open>Readline\<close> with room for at least one character takes a prefix of what the
  descriptor still delivers, never more than \<^verbatim>\<open>maxlen - 1\<close> bytes of it, stops right after the
  first newline and leaves the rest to the next call. What it stores is that prefix and a
  zero byte, so it stays inside a buffer of \<^verbatim>\<open>maxlen\<close> bytes; on an error only the prefix.
\<close>

theorem Readline_line:
  assumes "Readline fd maxlen b s = (Ret ((r, st), b'), t)" "rl_wf b" "fds s fd = Some c" "0 < maxlen"
  shows "rl_wf b' \<and> length st \<le> maxlen \<and>
    (\<exists>line. rl_stream b s fd = line @ rl_stream b' t fd \<and> 10 \<notin> set (butlast line) \<and>
      (if r = -1 then st = line \<and> 10 \<notin> set line
       else st = line @ [0] \<and>
         (if 10 \<in> set line then r = int (length line)
          else r = int (length line) \<and> rl_stream b' t fd = [] \<or>
            r = int maxlen \<and> Suc (length line) = maxlen)))"
  using Readline_loop_post [of fd maxlen 1 "[]" b s r st b' t c] assms
  by (fastforce simp: Readline_def)

theorem Readline_line_witness:
  "case Readline 3 80 rl_init (demo_os [ok 2, Err EINTR, ok 5] [104, 105, 10, 33]) of
     (Ret ((r, st), b'), t) \<Rightarrow> r = 3 \<and> st = [104, 105, 10, 0] \<and> rl_wf b' \<and> length st \<le> 80
   | _ \<Rightarrow> False"
proof -
  let ?s = "demo_os [ok 2, Err EINTR, ok 5] [104, 105, 10, 33]"
  have "\<exists>b' t. Readline 3 80 rl_init ?s = (Ret ((3, [104, 105, 10, 0]), b'), t)"
    by (simp add: Readline_def Readline_loop.simps my_read_def my_read_fill.simps my_read_take_def
        demo_os_def rl_init_def sys_read_def syscall_def new_sock_def set_fd_def bnd_def ret_def
        require_def Let_def)
  then obtain b' t where r: "Readline 3 80 rl_init ?s = (Ret ((3, [104, 105, 10, 0]), b'), t)" by blast
  have "fds ?s 3 = Some (new_sock [104, 105, 10, 33] True)" by (simp add: demo_os_def)
  from Readline_line [OF r rl_init_wf(1) this] r show ?thesis by simp
qed

end
