(* ===== verification/Socketutil.thy ===== *)
theory Socketutil
  imports Socketlog Wrap
begin

text \<open>
  The socket utilities and the message layer, \<^verbatim>\<open>src/Csocket/socketutil.c\<close> (declared in
  \<^verbatim>\<open>poolsocket.h\<close>): block transfers, calls with a time limit, and the client's and the server's
  messages, a length of four bytes in network order followed by the data.

  A pointer argument is an option (\<open>None\<close> the null pointer) or a flag that says whether an
  output pointer is valid; what is stored through an output pointer is part of the result.
\<close>

unbundle bit_operations_syntax

section \<open>Definitions\<close>

definition Sck_Ok :: int where "Sck_Ok = 0"
definition Sck_BaseErr :: int where "Sck_BaseErr = 3000"
definition Sck_ErrParam :: int where "Sck_ErrParam = Sck_BaseErr + 1"
definition Sck_ErrTimeOut :: int where "Sck_ErrTimeOut = Sck_BaseErr + 2"
definition Sck_ErrPeerClosed :: int where "Sck_ErrPeerClosed = Sck_BaseErr + 3"
definition Sck_ErrMalloc :: int where "Sck_ErrMalloc = Sck_BaseErr + 4"

lemmas Sck_defs = Sck_Ok_def Sck_BaseErr_def Sck_ErrParam_def Sck_ErrTimeOut_def
  Sck_ErrPeerClosed_def Sck_ErrMalloc_def

text \<open>A log entry at the error level, and a return after it.\<close>

abbreviation ulog :: "int \<Rightarrow> int \<Rightarrow> string \<Rightarrow> unit call" where
  "ulog line status msg \<equiv> Socket_Log ''socketutil.c'' line (SocketLevel ! 4) status msg"

abbreviation log_ret :: "int \<Rightarrow> int \<Rightarrow> string \<Rightarrow> 'a \<Rightarrow> 'a call" where
  "log_ret line status msg a \<equiv> bnd (ulog line status msg) (\<lambda>_. ret a)"

subsection \<open>Block transfers\<close>

function readn_loop :: "int \<Rightarrow> nat \<Rightarrow> nat \<Rightarrow> byte list \<Rightarrow> (int \<times> byte list) call" where
  "readn_loop fd count nleft acc s =
     (if 0 < nleft then
        bnd (sys_read fd nleft) (\<lambda>x t. case x of (nread, bs) \<Rightarrow>
          if nread < 0 then
            (if errno t = EINTR then readn_loop fd count nleft acc t else ret (-1, acc) t)
          else if nread = 0 then ret (int (count - nleft), acc) t
          else readn_loop fd count (nleft - nat nread) (acc @ bs) t) s
      else ret (int count, acc) s)"
  by pat_completeness auto
termination
  by (relation "measure (\<lambda>(fd, n, nleft, acc, s). length (sched s))") (auto dest: rd.shorter)

definition readn :: "int \<Rightarrow> nat \<Rightarrow> (int \<times> byte list) call" where
  "readn fd count = readn_loop fd count count []"

function writen_loop :: "int \<Rightarrow> nat \<Rightarrow> byte list \<Rightarrow> int call" where
  "writen_loop fd count bs s =
     (if bs \<noteq> [] then
        bnd (sys_write fd bs) (\<lambda>nwritten t.
          if nwritten < 0 then
            (if errno t = EINTR then writen_loop fd count bs t else ret (-1) t)
          else if nwritten = 0 then writen_loop fd count bs t
          else writen_loop fd count (drop (nat nwritten) bs) t) s
      else ret (int count) s)"
  by pat_completeness auto
termination by (relation "measure (\<lambda>(fd, n, bs, s). length (sched s))") (auto dest: wr.shorter)

definition writen :: "int \<Rightarrow> byte list \<Rightarrow> int call" where
  "writen fd bs = writen_loop fd (length bs) bs"

function recv_peek :: "int \<Rightarrow> nat \<Rightarrow> (int \<times> byte list) call" where
  "recv_peek sockfd len s = bnd (sys_recv_peek sockfd len) (\<lambda>x t.
     if fst x = -1 \<and> errno t = EINTR then recv_peek sockfd len t else ret x t) s"
  by pat_completeness auto
termination by (relation "measure (\<lambda>(fd, n, s). length (sched s))") (auto dest: pk.shorter)

declare readn_loop.simps [simp del] writen_loop.simps [simp del] recv_peek.simps [simp del]

subsection \<open>Blocking mode and time limits\<close>

definition activate_nonblock :: "int \<Rightarrow> int call" where
  "activate_nonblock fd =
     bnd (sys_fcntl_getfl fd) (\<lambda>flags.
       if flags = -1 then log_ret 109 flags ''func activate_nonblock() err'' flags
       else bnd (sys_fcntl_setfl fd (flags OR O_NONBLOCK)) (\<lambda>r.
         if r = -1 then log_ret 117 r ''func activate_nonblock() err'' r else ret r))"

definition deactivate_nonblock :: "int \<Rightarrow> int call" where
  "deactivate_nonblock fd =
     bnd (sys_fcntl_getfl fd) (\<lambda>flags.
       if flags = -1 then log_ret 134 flags ''func deactivate_nonblock() err'' flags
       else bnd (sys_fcntl_setfl fd (flags AND NOT O_NONBLOCK)) (\<lambda>r.
         if r = -1 then log_ret 142 r ''func deactivate_nonblock() err'' r else ret r))"

text \<open>
  \<^verbatim>\<open>FD_SET\<close> writes outside the set for a descriptor that is negative or not below
  \<^verbatim>\<open>FD_SETSIZE\<close>; \<^verbatim>\<open>select\<close> is run again after an interruption.
\<close>

definition FD_SET :: "int \<Rightarrow> unit call" where
  "FD_SET fd = require (0 \<le> fd \<and> fd < FD_SETSIZE)"

function select_retry :: "int call" where
  "select_retry s = bnd sys_select1 (\<lambda>r t.
     if r < 0 \<and> errno t = EINTR then select_retry t else ret r t) s"
  by pat_completeness auto
termination by (relation "measure (\<lambda>s. length (sched s))") (auto dest: sl.shorter)

declare select_retry.simps [simp del]

definition set_errno :: "int \<Rightarrow> unit call" where
  "set_errno e = modify (\<lambda>s. s\<lparr>errno := e\<rparr>)"

text \<open>The end of \<^verbatim>\<open>connect_timeout\<close>: the socket goes back to blocking mode.\<close>

definition connect_finish :: "int \<Rightarrow> nat \<Rightarrow> int \<Rightarrow> int call" where
  "connect_finish fd wait_seconds r =
     (if 0 < wait_seconds then bnd (deactivate_nonblock fd) (\<lambda>_. ret r) else ret r)"

definition connect_timeout :: "int \<Rightarrow> 32 word \<Rightarrow> 16 word \<Rightarrow> nat \<Rightarrow> int call" where
  "connect_timeout fd a p wait_seconds =
     bnd (if 0 < wait_seconds then activate_nonblock fd else ret 0) (\<lambda>_.
     bnd (sys_connect fd a p) (\<lambda>r.
     bnd (gets errno) (\<lambda>e.
       if r < 0 \<and> e = EINPROGRESS then
         bnd (FD_SET fd) (\<lambda>_.
         bnd select_retry (\<lambda>r.
           if r = 0 then bnd (set_errno ETIMEDOUT) (\<lambda>_. connect_finish fd wait_seconds (-1))
           else if r < 0 then ret (-1)
           else if r = 1 then
             bnd (sys_so_error fd) (\<lambda>(sockoptret, err).
               if sockoptret = -1 then ret (-1)
               else if err = 0 then connect_finish fd wait_seconds 0
               else bnd (set_errno err) (\<lambda>_. connect_finish fd wait_seconds (-1)))
           else connect_finish fd wait_seconds r))
       else connect_finish fd wait_seconds r)))"

definition write_timeout :: "int \<Rightarrow> nat \<Rightarrow> int call" where
  "write_timeout fd wait_seconds =
     (if 0 < wait_seconds then
        bnd (FD_SET fd) (\<lambda>_.
        bnd select_retry (\<lambda>r.
          if r = 0 then bnd (set_errno ETIMEDOUT) (\<lambda>_. ret (-1))
          else if r = 1 then ret 0
          else ret r))
      else ret 0)"

definition read_timeout :: "int \<Rightarrow> nat \<Rightarrow> int call" where
  "read_timeout fd wait_seconds =
     (if 0 < wait_seconds then
        bnd (FD_SET fd) (\<lambda>_.
        bnd select_retry (\<lambda>r.
          if r = 0 then bnd (set_errno ETIMEDOUT) (\<lambda>_. ret (-1))
          else if r = 1 then ret 0
          else ret r))
      else ret 0)"

subsection \<open>The client\<close>

definition sckClient_init :: "int call" where
  "sckClient_init = ret 0"

text \<open>The result and what is stored in \<^verbatim>\<open>*connfd\<close>.\<close>

definition sckClient_connect ::
  "string option \<Rightarrow> int \<Rightarrow> int \<Rightarrow> bool \<Rightarrow> (int \<times> int option) call" where
  "sckClient_connect ip port connecttime connfd =
     (if ip = None \<or> \<not> connfd \<or> port \<le> 0 \<or> port > 65537 \<or> connecttime < 0 then
        log_ret 319 Sck_ErrParam ''func sckClient_connect() err, check  (ip==NULL || connfd==NULL || port<=0 || port>65537 || connecttime < 0)''
          (Sck_ErrParam, None)
      else
        bnd sys_socket (\<lambda>sockfd.
          if sockfd < 0 then bnd (gets errno) (\<lambda>e. ret (e, None))
          else
            bnd (gets (\<lambda>s. (inet_addr s (the ip), htons (le s) (word_of_int port)))) (\<lambda>(a, p).
            bnd (connect_timeout sockfd a p (c_uint connecttime)) (\<lambda>r.
            bnd (gets errno) (\<lambda>e.
              if r < 0 then
                (if r = -1 \<and> e = ETIMEDOUT then ret (Sck_ErrTimeOut, None)
                 else log_ret 350 r ''func connect_timeout() err'' (r, Some sockfd))
              else ret (r, Some sockfd))))))"

definition sckClient_send :: "int \<Rightarrow> int \<Rightarrow> byte list option \<Rightarrow> int \<Rightarrow> int call" where
  "sckClient_send connfd sendtime data datalen =
     (if data = None \<or> datalen \<le> 0 then
        log_ret 369 Sck_ErrParam ''func sckClient_send() err, check (data == NULL || datalen <= 0)'' Sck_ErrParam
      else
        bnd (write_timeout connfd (c_uint sendtime)) (\<lambda>r.
          if r = 0 then
            bnd (require (datalen + 4 \<le> INT_MAX)) (\<lambda>_.
            bnd (malloc (c_size (datalen + 4))) (\<lambda>netdata.
              case netdata of
                None \<Rightarrow> ret Sck_ErrMalloc
              | Some b \<Rightarrow>
                  bnd (require (nat datalen \<le> length (the data))) (\<lambda>_.
                  bnd (gets le) (\<lambda>l.
                  bnd (writen connfd (mem_of l (htonl l (word_of_int datalen)) @ take (nat datalen) (the data))) (\<lambda>writed.
                    if writed < datalen + 4 then bnd (free b) (\<lambda>_. ret writed)
                    else bnd (free b) (\<lambda>_. ret r))))))
          else
            bnd (gets errno) (\<lambda>e.
              if r < 0 then (if r = -1 \<and> e = ETIMEDOUT then ret Sck_ErrTimeOut else ret r)
              else ret r)))"

text \<open>The result and what is stored in \<^verbatim>\<open>*out\<close> (a heap block and its contents) and \<^verbatim>\<open>*outlen\<close>.\<close>

type_synonym rev_result = "int \<times> (nat \<times> byte list \<times> int) option"

definition sckClient_rev :: "int \<Rightarrow> int \<Rightarrow> bool \<Rightarrow> bool \<Rightarrow> rev_result call" where
  "sckClient_rev connfd revtime out outlen =
     (if \<not> out \<or> \<not> outlen then ret (Sck_ErrParam, None)
      else
        bnd (read_timeout connfd (c_uint revtime)) (\<lambda>r.
        bnd (gets errno) (\<lambda>e.
          if r \<noteq> 0 then
            (if r = -1 \<or> e = ETIMEDOUT then
               log_ret 442 Sck_ErrTimeOut ''func read_timeout() timeout'' (Sck_ErrTimeOut, None)
             else log_ret 447 r ''func read_timeout() err'' (r, None))
          else
            bnd (readn connfd 4) (\<lambda>(r, hdr).
              if r = -1 then log_ret 457 r ''func readn() err'' (r, None)
              else if r < 4 then
                log_ret 464 Sck_ErrPeerClosed ''func readn() err, peer closed'' (Sck_ErrPeerClosed, None)
              else
                bnd (gets le) (\<lambda>l.
                let n = sint (ntohl l (of_mem l hdr)) in
                bnd (require (n + 1 \<le> INT_MAX)) (\<lambda>_.
                bnd (malloc (c_size (n + 1))) (\<lambda>tmpBuf.
                  case tmpBuf of
                    None \<Rightarrow> log_ret 474 Sck_ErrMalloc ''malloc() err'' (Sck_ErrMalloc, None)
                  | Some b \<Rightarrow>
                      bnd (readn connfd (c_size n)) (\<lambda>(r, bs).
                      bnd (require (length bs \<le> c_size (n + 1))) (\<lambda>_.
                        if r = -1 then log_ret 483 r ''readn() err'' (r, None)
                        else if r < n then
                          log_ret 490 Sck_ErrPeerClosed ''func readn() err,  peer closed'' (Sck_ErrPeerClosed, None)
                        else
                          bnd (require (0 \<le> n)) (\<lambda>_. ret (0, Some (b, bs @ [0], n))))))))))))"

definition sckClient_closeconn :: "int \<Rightarrow> int call" where
  "sckClient_closeconn connfd = (if connfd \<ge> 0 then bnd (sys_close connfd) (\<lambda>_. ret 0) else ret 0)"

text \<open>\<open>None\<close>: no pointer; \<open>Some p\<close>: a pointer to \<open>p\<close>. The second result is what \<^verbatim>\<open>*buf\<close> holds afterwards.\<close>

definition sck_FreeMem :: "nat option option \<Rightarrow> (int \<times> nat option option) call" where
  "sck_FreeMem buf = (case buf of
      None \<Rightarrow> ret (0, None)
    | Some None \<Rightarrow> ret (0, Some None)
    | Some (Some b) \<Rightarrow> bnd (free b) (\<lambda>_. ret (0, Some None)))"

definition sckClient_destroy :: "int call" where
  "sckClient_destroy = ret 0"

subsection \<open>The server\<close>

definition sckServer_init :: "int \<Rightarrow> (int \<times> int option) call" where
  "sckServer_init port =
     bnd sys_socket (\<lambda>fd.
       if fd < 0 then bnd (gets errno) (\<lambda>e. log_ret 552 e ''func socket() err'' (e, None))
       else
         bnd (sys_setsockopt fd) (\<lambda>r.
           if r < 0 then bnd (gets errno) (\<lambda>e. log_ret 562 e ''func setsockopt() err'' (e, None))
           else
             bnd (gets le) (\<lambda>l.
             bnd (sys_bind fd (htonl l INADDR_ANY) (htons l (word_of_int port))) (\<lambda>r.
               if r < 0 then bnd (gets errno) (\<lambda>e. log_ret 571 e ''func bind() err'' (e, None))
               else
                 bnd (sys_listen fd) (\<lambda>r.
                   if r < 0 then bnd (gets errno) (\<lambda>e. log_ret 579 e ''func listen() err'' (e, None))
                   else ret (0, Some fd))))))"

definition accept_timeout :: "int \<Rightarrow> nat \<Rightarrow> int call" where
  "accept_timeout fd wait_seconds =
     bnd (if 0 < wait_seconds then
            bnd (FD_SET fd) (\<lambda>_.
            bnd select_retry (\<lambda>r.
              if r = -1 then ret False
              else if r = 0 then bnd (set_errno ETIMEDOUT) (\<lambda>_. ret False)
              else ret True))
          else ret True) (\<lambda>go.
       if \<not> go then ret (-1)
       else
         bnd (sys_accept fd) (\<lambda>r.
           if r = -1 then bnd (gets errno) (\<lambda>e. log_ret 630 e ''func accept() err'' e)
           else ret r))"

definition sckServer_accept :: "int \<Rightarrow> int \<Rightarrow> (int \<times> int option) call" where
  "sckServer_accept listenfd timeout =
     bnd (accept_timeout listenfd (c_uint timeout)) (\<lambda>r.
     bnd (gets errno) (\<lambda>e.
       if r < 0 then
         (if r = -1 \<and> e = ETIMEDOUT then ret (Sck_ErrTimeOut, None)
          else log_ret 654 e ''func accept_timeout() err'' (e, None))
       else ret (0, Some r)))"

definition sckServer_send :: "int \<Rightarrow> int \<Rightarrow> byte list option \<Rightarrow> int \<Rightarrow> int call" where
  "sckServer_send connfd timeout data datalen =
     bnd (write_timeout connfd (c_uint timeout)) (\<lambda>r.
       if r = 0 then
         bnd (require (datalen + 4 \<le> INT_MAX)) (\<lambda>_.
         bnd (malloc (c_size (datalen + 4))) (\<lambda>netdata.
           case netdata of
             None \<Rightarrow> log_ret 675 Sck_ErrMalloc ''func malloc() err'' Sck_ErrMalloc
           | Some b \<Rightarrow>
               bnd (require (0 \<le> datalen \<and>
                 (datalen = 0 \<or> data \<noteq> None \<and> nat datalen \<le> length (the data)))) (\<lambda>_.
               bnd (gets le) (\<lambda>l.
               bnd (writen connfd (mem_of l (htonl l (word_of_int datalen)) @
                   (if datalen = 0 then [] else take (nat datalen) (the data)))) (\<lambda>writed.
                 if writed < datalen + 4 then bnd (free b) (\<lambda>_. ret writed)
                 else ret r)))))
       else
         bnd (gets errno) (\<lambda>e.
           if r < 0 then
             (if r = -1 \<and> e = ETIMEDOUT then log_ret 701 Sck_ErrTimeOut ''func sckServer_send() err'' Sck_ErrTimeOut
              else ret r)
           else ret r))"

definition sckServer_rev :: "int \<Rightarrow> int \<Rightarrow> bool \<Rightarrow> bool \<Rightarrow> rev_result call" where
  "sckServer_rev connfd timeout out outlen =
     (if \<not> out \<or> \<not> outlen then
        log_ret 718 Sck_ErrParam ''func sckServer_rev() err, check (out==NULL || outlen==NULL)'' (Sck_ErrParam, None)
      else
        bnd (read_timeout connfd (c_uint timeout)) (\<lambda>r.
        bnd (gets errno) (\<lambda>e.
          if r \<noteq> 0 then
            (if r = -1 \<or> e = ETIMEDOUT then
               log_ret 728 Sck_ErrTimeOut ''func read_timeout() err'' (Sck_ErrTimeOut, None)
             else log_ret 733 r ''func read_timeout() err'' (r, None))
          else
            bnd (readn connfd 4) (\<lambda>(r, hdr).
              if r = -1 then log_ret 742 r ''func readn() err'' (r, None)
              else if r < 4 then
                log_ret 748 Sck_ErrPeerClosed ''func readn() err, peer closed'' (Sck_ErrPeerClosed, None)
              else
                bnd (gets le) (\<lambda>l.
                let n = sint (ntohl l (of_mem l hdr)) in
                bnd (require (n + 1 \<le> INT_MAX)) (\<lambda>_.
                bnd (malloc (c_size (n + 1))) (\<lambda>tmpBuf.
                  case tmpBuf of
                    None \<Rightarrow> log_ret 759 Sck_ErrMalloc ''func malloc() err'' (Sck_ErrMalloc, None)
                  | Some b \<Rightarrow>
                      bnd (readn connfd (c_size n)) (\<lambda>(r, bs).
                      bnd (require (length bs \<le> c_size (n + 1))) (\<lambda>_.
                        if r = -1 then log_ret 766 r ''func readn() err'' (r, None)
                        else if r < n then
                          log_ret 772 Sck_ErrPeerClosed ''func readn() err. peer closed'' (Sck_ErrPeerClosed, None)
                        else
                          bnd (require (0 \<le> n)) (\<lambda>_. ret (0, Some (b, bs @ [0], n))))))))))))"

definition sckServer_close :: "int \<Rightarrow> int call" where
  "sckServer_close connfd = bnd (sys_close connfd) (\<lambda>_. ret 0)"

definition sckServer_destroy :: "int call" where
  "sckServer_destroy = ret 0"

section \<open>Block transfers\<close>

interpretation readn_loop: read_loop readn_loop
  by unfold_locales (subst readn_loop.simps, auto intro: bnd_cong)

interpretation readn: exact_reader readn
  by (simp add: readn_def [abs_def] readn_loop.exact_reader_axioms)

interpretation writen_loop: write_loop writen_loop writen_loop
  by unfold_locales (subst writen_loop.simps, auto intro: bnd_cong)

interpretation writen: exact_writer writen
  by (simp add: writen_def [abs_def] writen_loop.exact_writer_axioms)

interpretation recv_peek: retry "sys_recv_peek fd n" "(-1, [])" "recv_peek fd n"
  "\<lambda>x t. fst x = -1 \<and> errno t = EINTR" ret for fd n
  by unfold_locales (subst recv_peek.simps, rule bnd_cong, auto)

interpretation select_retry: retry sys_select1 "-1" select_retry "\<lambda>r t. r < 0 \<and> errno t = EINTR" ret
  by unfold_locales (subst select_retry.simps, rule bnd_cong, auto)

lemmas keeps_transfers [keeps_intros] = readn.rdn_env readn.rdn_heap writen.wrn_env writen.wrn_heap

text \<open>
  \<^verbatim>\<open>readn\<close> of \<^verbatim>\<open>socketutil.c\<close> and \<^verbatim>\<open>Readn\<close> of \<^verbatim>\<open>wrap.c\<close> are the same function: on every
  state of the kernel, whatever its answers are, they return the same value, store the same
  bytes and leave the same state.
\<close>

theorem readn_Readn: "readn fd n s = Readn fd n s"
proof -
  have "readn_loop fd n k acc s = Readn_loop fd n k acc s" for k acc
    by (induction fd n k acc s rule: Readn_loop.induct)
      (subst readn_loop.simps, subst Readn_loop.simps, auto intro!: bnd_cong)
  then show ?thesis by (simp add: readn_def Readn_def)
qed

text \<open>
  C35: \<^verbatim>\<open>readn\<close> is complete and exact. With enough data in the stream, and a kernel that does
  nothing worse than deliver it in pieces of any size and interrupt the call any number of
  times, it returns \<^verbatim>\<open>count\<close>, has stored exactly the first \<^verbatim>\<open>count\<close> bytes and leaves the
  others in the stream.
\<close>

theorem readn_total:
  assumes "fds s fd = Some c" "n \<le> length (rcvq c)"
    and "benign serves (sched s)" "n \<le> served serves (sched s)"
  shows "\<exists>t. readn fd n s = (Ret (int n, take n (rcvq c)), t) \<and>
    fds t = (fds s)(fd \<mapsto> c\<lparr>rcvq := drop n (rcvq c)\<rparr>)"
  using readn.total [OF assms] readn.full [OF _ assms(1)] by blast

theorem readn_total_witness:
  "\<exists>t. readn 3 3 (demo_os [Err EINTR, ok 1, Err EINTR, ok 9, ok 9] [7, 8, 9, 10]) = (Ret (3, [7, 8, 9]), t) \<and>
    fds t 3 = Some (new_sock [10] True)"
proof -
  let ?s = "demo_os [Err EINTR, ok 1, Err EINTR, ok 9, ok 9] [7, 8, 9, 10]"
  have "fds ?s 3 = Some (new_sock [7, 8, 9, 10] True)" "benign serves (sched ?s)"
    "3 \<le> length (rcvq (new_sock [7, 8, 9, 10] True))" "3 \<le> served serves (sched ?s)"
    by (simp_all add: demo_os_def new_sock_def)
  from readn_total [OF this(1,3,2,4)] show ?thesis by (auto simp: new_sock_def)
qed

text \<open>
  \<^verbatim>\<open>writen\<close> and \<^verbatim>\<open>Writen\<close> are the same as long as no \<^verbatim>\<open>write\<close> returns 0: on every kernel
  that moves at least one byte per successful call they return the same value and leave the
  same state. They part on a \<^verbatim>\<open>write\<close> of 0 bytes, where \<^verbatim>\<open>writen\<close> tries again and \<^verbatim>\<open>Writen\<close>
  gives up with -1.
\<close>

lemma sys_write_pos:
  assumes "sys_write fd bs s = (Ret w, t)" "bs \<noteq> []" "list_all (\<lambda>a. serves a \<longrightarrow> moves a) (sched s)"
  shows "w \<noteq> 0"
  using assms
  by (auto simp: sys_write_def syscall_def fail_with_def ret_def Let_def min_def split: sys_splits)

theorem writen_Writen:
  assumes "list_all (\<lambda>a. serves a \<longrightarrow> moves a) (sched s)"
  shows "writen fd bs s = Writen fd bs s \<and>
    fst (writen fd [1] (s\<lparr>sched := [ok 0], fds := [fd \<mapsto> new_sock [] False]\<rparr>)) = Block \<and>
    fst (Writen fd [1] (s\<lparr>sched := [ok 0], fds := [fd \<mapsto> new_sock [] False]\<rparr>)) = Ret (-1)"
proof -
  have "writen_loop fd n bs s = Writen_loop fd n bs s" for n
    using assms
  proof (induction fd n bs s rule: Writen_loop.induct)
    case (1 fd n bs s)
    have "list_all (\<lambda>a. serves a \<longrightarrow> moves a) (sched t)" if "sys_write fd bs s = (x, t)" for x t
      using wr.answered [OF that] "1.prems" by (cases "sched s") auto
    with 1 sys_write_pos [of fd bs s] show ?case
      by (subst writen_loop.simps, subst Writen_loop.simps) (auto intro!: bnd_cong)
  qed
  then show ?thesis
    by (simp add: writen_def Writen_def writen_loop.simps Writen_loop.simps sys_write_def syscall_def
        bnd_def ret_def Let_def new_sock_def)
qed

theorem writen_Writen_witness:
  "writen 3 [1, 2] (demo_os [ok 1, ok 1] []) = Writen 3 [1, 2] (demo_os [ok 1, ok 1] [])"
  using writen_Writen [of "demo_os [ok 1, ok 1] []"] by (simp add: demo_os_def)

text \<open>
  \<^verbatim>\<open>recv_peek\<close> only looks: it never changes a stream, whatever it returns, and it
  never fails with \<^verbatim>\<open>EINTR\<close>.
\<close>

theorem recv_peek_pure:
  "case recv_peek fd n s of
     (Ret x, t) \<Rightarrow> fds t = fds s \<and> (fst x, errno t) \<noteq> (-1, EINTR)
   | (_, t) \<Rightarrow> fds t = fds s"
proof -
  have call: "fds v = fds u" if "sys_recv_peek fd n u = (y, v)" for u y v
    using that by (auto simp: sys_recv_peek_def split: prod.splits)
  obtain x t where x: "recv_peek fd n s = (x, t)" by fastforce
  have "\<exists>u. fds u = fds s \<and> bnd (sys_recv_peek fd n) ret u = (x, t) \<and>
      (\<forall>a v. sys_recv_peek fd n u = (Ret a, v) \<longrightarrow> \<not> (fst a = -1 \<and> errno v = EINTR))"
    by (rule recv_peek.outcome [OF x]) (auto dest: call)
  then obtain u where u: "fds u = fds s" "bnd (sys_recv_peek fd n) ret u = (x, t)"
    "\<And>a v. sys_recv_peek fd n u = (Ret a, v) \<Longrightarrow> \<not> (fst a = -1 \<and> errno v = EINTR)" by blast
  obtain y v where y: "sys_recv_peek fd n u = (y, v)" by fastforce
  from call [OF y] u y have "(x, t) = (y, v)" by (cases y) (auto simp: ret_def)
  with x y u call [OF y] show ?thesis by (cases y) auto
qed

section \<open>Time limits\<close>

lemma keeps_select [keeps_intros]: "keeps env select_retry" "keeps heap select_retry"
  by (auto intro!: select_retry.keeps_loop keeps_intros)

lemma select_retry_runs:
  "runs select_retry (\<lambda>r t. (r = -1 \<and> errno t \<noteq> EINTR \<or> r = 0 \<or> r = 1) \<and>
     fds t = fds s \<and> heap t = heap s \<and> env t = env s) never s"
proof -
  obtain x t where x: "select_retry s = (x, t)" by fastforce
  have keeps: "fds v = fds u" "y \<noteq> Fault" "y \<noteq> Exit k" if "sys_select1 u = (y, v)" for u y v k
    using that by (auto simp: sys_select1_def syscall_def ret_def split: sys_splits)
  obtain u where u: "fds u = fds s" "bnd sys_select1 ret u = (x, t)"
    "\<forall>a v. sys_select1 u = (Ret a, v) \<longrightarrow> \<not> (a < 0 \<and> errno v = EINTR)"
    using select_retry.outcome [OF x, of "\<lambda>u. fds u = fds s"] keeps(1) by fastforce
  have "heap t = heap s" "env t = env s"
    using x keepsD [OF keeps_select(1)] keepsD [OF keeps_select(2)] by simp_all
  with x u keeps [of u] show ?thesis
    by (auto simp: runs_def bnd_def ret_def sys_select1_def syscall_def split: sys_splits res.splits)
qed

text \<open>
  A waiting call goes through \<^verbatim>\<open>FD_SET\<close>, so its descriptor must be one that a set can hold.
\<close>

definition fd_in_range :: "int \<Rightarrow> nat \<Rightarrow> bool" where
  "fd_in_range fd wait \<longleftrightarrow> wait = 0 \<or> 0 \<le> fd \<and> fd < FD_SETSIZE"

definition limit_post :: "os \<Rightarrow> int \<Rightarrow> os \<Rightarrow> bool" where
  "limit_post s r t \<longleftrightarrow> (r = 0 \<or> r = -1 \<and> errno t \<noteq> EINTR) \<and>
     fds t = fds s \<and> heap t = heap s \<and> env t = env s"

lemma write_timeout_runs: "fd_in_range fd w \<Longrightarrow> runs (write_timeout fd w) (limit_post s) never s"
  unfolding write_timeout_def FD_SET_def set_errno_def
  by (intro runs_intros runs_bnd_require runs_bnd [OF select_retry_runs])
    (auto simp: fd_in_range_def limit_post_def errno_defs)

lemma read_timeout_runs: "fd_in_range fd w \<Longrightarrow> runs (read_timeout fd w) (limit_post s) never s"
  unfolding read_timeout_def FD_SET_def set_errno_def
  by (intro runs_intros runs_bnd_require runs_bnd [OF select_retry_runs])
    (auto simp: fd_in_range_def limit_post_def errno_defs)

text \<open>
  The time limit of \<^verbatim>\<open>read_timeout\<close>. However often \<^verbatim>\<open>select\<close> is interrupted, the function
  returns -1 with \<^verbatim>\<open>errno\<close> set to \<^verbatim>\<open>ETIMEDOUT\<close> when \<^verbatim>\<open>select\<close> reports that the time is over, 0
  when it reports the descriptor ready, and -1 with the error of \<^verbatim>\<open>select\<close> when that is any
  other; with a limit of 0 it returns 0 without asking. No stream is touched.
\<close>

theorem read_timeout_outcomes:
  assumes "0 \<le> fd" "fd < FD_SETSIZE" "0 < w" "e \<noteq> EINTR"
  shows "read_timeout fd w (s\<lparr>sched := replicate k (Err EINTR) @ ok 0 # r\<rparr>) =
      (Ret (-1), s\<lparr>sched := r, errno := ETIMEDOUT\<rparr>) \<and>
    read_timeout fd w (s\<lparr>sched := replicate k (Err EINTR) @ ok (Suc j) # r\<rparr>) =
      (Ret 0, s\<lparr>sched := r, errno := if k = 0 then errno s else EINTR\<rparr>) \<and>
    read_timeout fd w (s\<lparr>sched := replicate k (Err EINTR) @ Err e # r\<rparr>) =
      (Ret (-1), s\<lparr>sched := r, errno := e\<rparr>) \<and>
    read_timeout fd 0 s = (Ret 0, s)"
proof -
  let ?e = "if k = 0 then errno s else EINTR"
  have skip: "select_retry (s\<lparr>sched := replicate k (Err EINTR) @ xs\<rparr>) =
      select_retry (s\<lparr>sched := xs, errno := ?e\<rparr>)" for xs
    by (cases k) (simp_all add: select_retry.skip_many del: replicate_Suc)
  have sel: "select_retry (s\<lparr>sched := replicate k (Err EINTR) @ ok n # r\<rparr>) =
      (Ret (if n = 0 then 0 else 1), s\<lparr>sched := r, errno := ?e\<rparr>)"
    "select_retry (s\<lparr>sched := replicate k (Err EINTR) @ Err e # r\<rparr>) = (Ret (-1), s\<lparr>sched := r, errno := e\<rparr>)"
    for n
    using assms(4) unfolding skip
    by (subst select_retry.simps, simp add: sys_select1_def syscall_def ret_def bnd_def)+
  show ?thesis
    using assms
    by (simp add: read_timeout_def FD_SET_def require_def bnd_def sel ret_def set_errno_def modify_def)
qed

theorem read_timeout_outcomes_witness:
  "fst (read_timeout 3 5 (demo_os [Err EINTR, Err EINTR, ok 0] [])) = Ret (-1) \<and>
   errno (snd (read_timeout 3 5 (demo_os [Err EINTR, Err EINTR, ok 0] []))) = ETIMEDOUT"
proof -
  have "(demo_os [] [])\<lparr>sched := replicate 2 (Err EINTR) @ [ok 0]\<rparr> = demo_os [Err EINTR, Err EINTR, ok 0] []"
    by (simp add: demo_os_def numeral_eq_Suc)
  with read_timeout_outcomes [where fd = 3 and w = 5 and e = 0 and s = "demo_os [] []" and k = 2 and r = "[]"]
  show ?thesis
    by (simp add: FD_SETSIZE_def EINTR_def)
qed

lemma keeps_timeouts [keeps_intros]:
  "keeps env (read_timeout fd w)" "keeps heap (read_timeout fd w)"
  "keeps env (write_timeout fd w)" "keeps heap (write_timeout fd w)"
  by (auto simp: read_timeout_def write_timeout_def FD_SET_def set_errno_def
      intro!: keeps_intros keeps_modify)

section \<open>Logging\<close>

lemma ulog_logged:
  assumes "log_safe s" "0 \<le> line" "line \<le> 1000" "length msg \<le> 1000" "INT_MIN \<le> st" "st \<le> INT_MAX"
  shows "ulog line st msg s = (Ret (), logged ''socketutil.c'' line 4 st msg s)"
  using assms
  by (subst Socket_Log_logged) (auto simp: SocketLevel_def log_args_ok_def INT_MIN_def INT_MAX_def)

lemma log_safe_env: "env t = env s \<Longrightarrow> log_safe t = log_safe s"
  by (simp add: env_def log_safe_def)

lemma log_safe_upd [simp]:
  "log_safe (s\<lparr>sched := x\<rparr>) = log_safe s" "log_safe (s\<lparr>errno := e\<rparr>) = log_safe s"
  "log_safe (set_fd fd c s) = log_safe s" "log_safe (logged f l v st m s) = log_safe s"
  by (rule log_safe_env, simp)+

lemma runs_log_ret:
  assumes "log_safe s" "0 \<le> line" "line \<le> 1000" "length msg \<le> 1000" "INT_MIN \<le> st" "st \<le> INT_MAX"
    "R a (logged ''socketutil.c'' line 4 st msg s)"
  shows "runs (log_ret line st msg a) R F s"
  using assms by (simp add: runs_def bnd_def ulog_logged ret_def)

section \<open>Blocking mode\<close>

lemma activate_nonblock_runs:
  assumes "fds s fd = Some c" "log_safe s"
  shows "runs (activate_nonblock fd) (\<lambda>r t. heap t = heap s \<and> env t = env s \<and>
      fds t = (fds s)(fd \<mapsto> c\<lparr>flags := if r = 0 then flags c OR O_NONBLOCK else flags c\<rparr>) \<and>
      (r = 0 \<or> r = -1)) never s"
  using assms
  by (auto simp: runs_def activate_nonblock_def bnd_def sys_fcntl_getfl_def sys_fcntl_setfl_def sys_on_fd_def
      syscall_def ret_def ulog_logged INT_MIN_def INT_MAX_def fun_upd_idem split: sys_splits)

lemma deactivate_nonblock_runs:
  assumes "fds s fd = Some c" "log_safe s"
  shows "runs (deactivate_nonblock fd) (\<lambda>r t. heap t = heap s \<and> env t = env s \<and>
      fds t = (fds s)(fd \<mapsto> c\<lparr>flags := if r = 0 then flags c AND NOT O_NONBLOCK else flags c\<rparr>) \<and>
      (r = 0 \<or> r = -1)) never s"
  using assms
  by (auto simp: runs_def deactivate_nonblock_def bnd_def sys_fcntl_getfl_def sys_fcntl_setfl_def sys_on_fd_def
      syscall_def ret_def ulog_logged INT_MIN_def INT_MAX_def fun_upd_idem split: sys_splits)

end
