(* ===== verification/Connections.thy ===== *)
theory Connections
  imports Socketutil
begin

text \<open>
  Opening connections with \<^verbatim>\<open>socketutil.c\<close>: the client's \<^verbatim>\<open>connect\<close> with a time limit, the
  server's start and its \<^verbatim>\<open>accept\<close> with a time limit. Which descriptors are open afterwards,
  and what is reported.
\<close>

unbundle bit_operations_syntax

section \<open>\<^verbatim>\<open>connect_timeout\<close>\<close>

text \<open>
  What stays true from the \<^verbatim>\<open>connect\<close> call on: the socket \<open>fd\<close> is open and has the address,
  nothing is sent, no other descriptor and no memory has changed since state \<open>s\<close>.
\<close>

definition dialled :: "int \<Rightarrow> 32 word \<Rightarrow> 16 word \<Rightarrow> sock \<Rightarrow> os \<Rightarrow> os \<Rightarrow> bool" where
  "dialled fd a p c s t \<longleftrightarrow> heap t = heap s \<and> env t = env s \<and> fds t = (fds s)(fd := fds t fd) \<and>
     (case fds t fd of None \<Rightarrow> False | Some c' \<Rightarrow> addr c' = Some (a, p) \<and> sndq c' = sndq c)"

lemma dialled_log_safe: "dialled fd a p c s t \<Longrightarrow> log_safe s \<Longrightarrow> log_safe t"
  by (simp add: dialled_def log_safe_env [of t s])

lemma dialled_errno [simp]: "dialled fd a p c s (t\<lparr>errno := e\<rparr>) = dialled fd a p c s t"
  by (simp add: dialled_def)

lemma sys_connect_runs:
  assumes "heap u = heap s" "env u = env s" "fds u = (fds s)(fd \<mapsto> b)" "sndq b = sndq c"
  shows "runs (sys_connect fd a p) (\<lambda>r t. (r = 0 \<or> r = -1) \<and> dialled fd a p c s t) never u"
  using assms
  by (auto simp: runs_def sys_connect_def sys_on_fd_def syscall_def ret_def dialled_def split: sys_splits)

lemma sys_so_error_runs:
  assumes "dialled fd a p c s u"
  shows "runs (sys_so_error fd) (\<lambda>r t. dialled fd a p c s t) never u"
  using assms
  by (auto simp: runs_def sys_so_error_def syscall_def ret_def fail_with_def dialled_def split: sys_splits)

lemma dialled_select:
  assumes "dialled fd a p c s u"
  shows "runs select_retry (\<lambda>r t. (r = -1 \<or> r = 0 \<or> r = 1) \<and> dialled fd a p c s t) never u"
  by (rule runs_mono [OF select_retry_runs]) (use assms in \<open>auto simp: dialled_def\<close>)

abbreviation set_overflow :: "int \<Rightarrow> (os \<Rightarrow> bool) \<Rightarrow> os \<Rightarrow> bool" where
  "set_overflow fd P \<equiv> \<lambda>t. (fd < 0 \<or> FD_SETSIZE \<le> fd) \<and> P t"

text \<open>
  A connection attempt with a time limit, over the two routines that switch the blocking mode.
  All that it needs of them is an interface: they return 0 or -1 and change the flags of
  their socket on success, nothing else.
\<close>

definition dial_finish :: "(int \<Rightarrow> int call) \<Rightarrow> int \<Rightarrow> nat \<Rightarrow> int \<Rightarrow> int call" where
  "dial_finish deblock fd w r = (if 0 < w then bnd (deblock fd) (\<lambda>_. ret r) else ret r)"

definition dial :: "(int \<Rightarrow> int call) \<Rightarrow> (int \<Rightarrow> int call) \<Rightarrow> int \<Rightarrow> 32 word \<Rightarrow> 16 word \<Rightarrow> nat \<Rightarrow> int call" where
  "dial nonblock deblock fd a p w =
     bnd (if 0 < w then nonblock fd else ret 0) (\<lambda>_.
     bnd (sys_connect fd a p) (\<lambda>r.
     bnd (gets errno) (\<lambda>e.
       if r < 0 \<and> e = EINPROGRESS then
         bnd (FD_SET fd) (\<lambda>_.
         bnd select_retry (\<lambda>r.
           if r = 0 then bnd (set_errno ETIMEDOUT) (\<lambda>_. dial_finish deblock fd w (-1))
           else if r < 0 then ret (-1)
           else if r = 1 then
             bnd (sys_so_error fd) (\<lambda>(sockoptret, err).
               if sockoptret = -1 then ret (-1)
               else if err = 0 then dial_finish deblock fd w 0
               else bnd (set_errno err) (\<lambda>_. dial_finish deblock fd w (-1)))
           else dial_finish deblock fd w r))
       else dial_finish deblock fd w r)))"

locale blocking_mode =
  fixes nonblock deblock :: "int \<Rightarrow> int call"
  assumes nonblock_runs: "fds s fd = Some c \<Longrightarrow> log_safe s \<Longrightarrow> runs (nonblock fd) (\<lambda>r t. heap t = heap s \<and>
      env t = env s \<and> fds t = (fds s)(fd \<mapsto> c\<lparr>flags := if r = 0 then flags c OR O_NONBLOCK else flags c\<rparr>) \<and>
      (r = 0 \<or> r = -1)) never s"
    and deblock_runs: "fds s fd = Some c \<Longrightarrow> log_safe s \<Longrightarrow> runs (deblock fd) (\<lambda>r t. heap t = heap s \<and>
      env t = env s \<and> fds t = (fds s)(fd \<mapsto> c\<lparr>flags := if r = 0 then flags c AND NOT O_NONBLOCK else flags c\<rparr>) \<and>
      (r = 0 \<or> r = -1)) never s"
begin

lemma dialled_deblock:
  assumes "dialled fd a p c s u" "log_safe s"
  shows "runs (deblock fd) (\<lambda>r t. dialled fd a p c s t) never u"
proof -
  from assms(1) obtain c' where c': "fds u fd = Some c'" by (auto simp: dialled_def split: option.splits)
  show ?thesis
    by (rule runs_mono [OF deblock_runs [OF c' dialled_log_safe [OF assms]]])
      (use assms(1) c' in \<open>auto simp: dialled_def fun_upd_idem_iff\<close>)
qed

lemma dial_finish_runs:
  assumes "dialled fd a p c s u" "log_safe s"
  shows "runs (dial_finish deblock fd w r) (\<lambda>q t. q = r \<and> dialled fd a p c s t) F u"
  unfolding dial_finish_def
  by (intro runs_intros runs_bnd [OF dialled_deblock [OF assms]]) (use assms in auto)

lemma dial_runs:
  assumes "fds s fd = Some c" "log_safe s"
  shows "runs (dial nonblock deblock fd a p w) (\<lambda>r t. (r = 0 \<or> r = -1) \<and> dialled fd a p c s t)
    (set_overflow fd (dialled fd a p c s)) s"
proof -
  let ?J = "dialled fd a p c s"
  have act: "runs (if 0 < w then nonblock fd else ret 0) (\<lambda>_ t. heap t = heap s \<and> env t = env s \<and>
      (\<exists>b. fds t = (fds s)(fd \<mapsto> b) \<and> sndq b = sndq c)) never s"
    by (intro runs_intros runs_mono [OF nonblock_runs [OF assms]])
      (use assms(1) in \<open>auto intro: exI [of _ c] simp: fun_upd_idem\<close>)
  have fin: "runs (dial_finish deblock fd w r) (\<lambda>q t. (q = 0 \<or> q = -1) \<and> ?J t) F t"
    if "?J t" "r = 0 \<or> r = -1" for r t F
    by (rule runs_mono [OF dial_finish_runs [OF that(1) assms(2)]]) (use that in auto)
  have err: "runs (bnd (sys_so_error fd) (\<lambda>(q, e).
        if q = -1 then ret (-1) else if e = 0 then dial_finish deblock fd w 0
        else bnd (set_errno e) (\<lambda>_. dial_finish deblock fd w (-1)))) (\<lambda>q t. (q = 0 \<or> q = -1) \<and> ?J t) F t"
    if "?J t" for t F
    unfolding set_errno_def
    by (rule runs_bnd [OF sys_so_error_runs [OF that]]) (auto intro!: runs_intros fin)
  show ?thesis
    unfolding dial_def FD_SET_def
    by (rule runs_bnd [OF act], elim conjE exE, rule runs_bnd [OF sys_connect_runs], assumption+)
      (auto simp: set_errno_def intro!: runs_intros runs_bnd_require runs_bnd [OF dialled_select] fin err)
qed

end

interpretation sck_mode: blocking_mode activate_nonblock deactivate_nonblock
  by unfold_locales (fact activate_nonblock_runs deactivate_nonblock_runs)+

lemma connect_timeout_dial: "connect_timeout = dial activate_nonblock deactivate_nonblock"
  by (simp add: fun_eq_iff connect_timeout_def dial_def connect_finish_def dial_finish_def cong: if_cong)

lemmas connect_timeout_runs = sck_mode.dial_runs [folded connect_timeout_dial]

section \<open>\<^verbatim>\<open>sckClient_connect\<close>\<close>

text \<open>A new descriptor: closed in \<open>s\<close>, open in \<open>t\<close> with the given address, everything else as it was.\<close>

definition connected :: "string \<Rightarrow> int \<Rightarrow> int \<Rightarrow> os \<Rightarrow> os \<Rightarrow> bool" where
  "connected ip port fd s t \<longleftrightarrow> 0 \<le> fd \<and> fds s fd = None \<and> heap t = heap s \<and> env t = env s \<and>
     fds t = (fds s)(fd := fds t fd) \<and>
     (case fds t fd of None \<Rightarrow> False
      | Some c \<Rightarrow> addr c = Some (inet_addr s ip, htons (le s) (word_of_int port)) \<and> sndq c = [])"

lemma sys_socket_runs:
  "runs sys_socket (\<lambda>fd t. heap t = heap s \<and> env t = env s \<and>
     (fd = -1 \<and> fds t = fds s \<and> 0 < errno t \<or>
      0 \<le> fd \<and> fds s fd = None \<and> fds t = (fds s)(fd \<mapsto> new_sock [] False))) never s"
  by (auto simp: runs_def sys_socket_def syscall_def open_fd_def fail_with_def EMFILE_def split: sys_splits)

definition connect_args_ok :: "string option \<Rightarrow> int \<Rightarrow> int \<Rightarrow> bool \<Rightarrow> bool" where
  "connect_args_ok ip port connecttime connfd \<longleftrightarrow>
     ip \<noteq> None \<and> connfd \<and> 0 < port \<and> port \<le> 65537 \<and> 0 \<le> connecttime"

definition connect_post :: "string \<Rightarrow> int \<Rightarrow> os \<Rightarrow> int \<times> int option \<Rightarrow> os \<Rightarrow> bool" where
  "connect_post ip port s x t = (case x of
      (r, Some fd) \<Rightarrow> (r = 0 \<or> r = -1) \<and> connected ip port fd s t
    | (r, None) \<Rightarrow> r = Sck_ErrTimeOut \<and> (\<exists>fd. connected ip port fd s t) \<or>
        r = errno t \<and> 0 < r \<and> fds t = fds s \<and> heap t = heap s \<and> env t = env s)"

lemma dialled_connected:
  assumes "dialled fd (inet_addr s ip) (htons (le s) (word_of_int port)) (new_sock [] False) u t"
    and "0 \<le> fd" "fds s fd = None" "fds u = (fds s)(fd \<mapsto> new_sock [] False)" "heap u = heap s" "env u = env s"
  shows "connected ip port fd s t"
  using assms by (auto simp: dialled_def connected_def new_sock_def split: option.splits)

lemma sckClient_connect_runs:
  assumes "connect_args_ok ip port ct b" "log_safe s"
  shows "runs (sckClient_connect ip port ct b) (connect_post (the ip) port s)
    (\<lambda>t. \<exists>fd \<ge> FD_SETSIZE. connected (the ip) port fd s t) s"
proof -
  obtain y where y: "ip = Some y" using assms(1) by (auto simp: connect_args_ok_def)
  let ?R = "connect_post y port s" and ?F = "\<lambda>t. \<exists>fd \<ge> FD_SETSIZE. connected y port fd s t"
  have dial: "runs (bnd (connect_timeout fd (inet_addr u y) (htons (le u) (word_of_int port)) (c_uint ct)) (\<lambda>r.
      bnd (gets errno) (\<lambda>e. if r < 0 then
           if r = -1 \<and> e = ETIMEDOUT then ret (Sck_ErrTimeOut, None)
           else log_ret 350 r ''func connect_timeout() err'' (r, Some fd)
         else ret (r, Some fd)))) ?R ?F u"
    if u: "heap u = heap s" "env u = env s" "0 \<le> fd" "fds s fd = None"
      "fds u = (fds s)(fd \<mapsto> new_sock [] False)" for fd u
  proof -
    have safe: "log_safe u" using assms(2) u(2) log_safe_env by blast
    have con: "connected y port fd s t"
      if "dialled fd (inet_addr u y) (htons (le u) (word_of_int port)) (new_sock [] False) u t" for t
      using that u env_eqD [OF u(2)] by (intro dialled_connected [where u = u]) simp_all
    have log: "runs (log_ret 350 (-1) ''func connect_timeout() err'' (-1, Some fd)) ?R ?F t"
      if "connected y port fd s t" for t
    proof -
      have "log_safe t" using that assms(2) log_safe_env [of t s] by (simp add: connected_def)
      with that show ?thesis
        by (simp add: runs_def bnd_def ulog_logged INT_MIN_def INT_MAX_def ret_def connect_post_def connected_def)
    qed
    show ?thesis
      by (rule runs_bnd [OF connect_timeout_runs [OF _ safe]])
        (use u log in \<open>auto intro!: runs_intros simp: connect_post_def dest!: con\<close>)
  qed
  show ?thesis
    unfolding sckClient_connect_def
    using assms(1) y
    by (auto simp: connect_args_ok_def connect_post_def [of _ _ _ "(_, None)"]
        intro!: runs_intros runs_bnd [OF sys_socket_runs] dial)
qed



text \<open>
  The port check of \<^verbatim>\<open>sckClient_connect\<close> is too wide. The port 65537 passes it, and because
  \<^verbatim>\<open>htons\<close> keeps 16 bits the connection goes to port 1; every kernel that lets the connection
  succeed shows it.
\<close>

theorem port_check_too_wide:
  "case sckClient_connect (Some ip) 65537 0 True
      (s\<lparr>sched := [ok k, ok j], fds := [3 \<mapsto> new_sock [] False]\<rparr>) of
     (Ret (r, x), t) \<Rightarrow> k = 3 \<or>
       r = 0 \<and> x = Some (int k) \<and> map_option addr (fds t (int k)) = Some (Some (inet_addr s ip, htons (le s) 1))
   | _ \<Rightarrow> False"
proof -
  have "(65537 :: 16 word) = 1" by simp
  then have port: "htons l 65537 = htons l 1" for l by (rule arg_cong)
  show ?thesis
    by (auto simp: port sckClient_connect_def sys_socket_def syscall_def open_fd_def set_fd_def bnd_def
        gets_def connect_timeout_def c_uint_def sys_on_fd_def new_sock_def ret_def sys_connect_def
        connect_finish_def errno_defs fail_with_def)
qed

section \<open>\<^verbatim>\<open>connect_timeout\<close> and the blocking mode\<close>

lemma nonblocking_flags [simp]:
  "bit (v OR O_NONBLOCK) 11" "\<not> bit (v AND NOT O_NONBLOCK) 11"
  by (simp_all add: O_NONBLOCK_def bit_simps)

text \<open>
  A connection attempt that is in progress and then runs out of time leaves the socket in
  blocking mode, as it was; one whose \<^verbatim>\<open>select\<close> fails returns -1 through the early return and
  leaves the socket in non-blocking mode.
\<close>

theorem connect_timeout_mode:
  assumes "0 \<le> fd" "fd < FD_SETSIZE" "0 < w" "fds s fd = Some c" "flags c \<noteq> -1" "flags c OR O_NONBLOCK \<noteq> -1"
    "e \<noteq> EINTR"
  shows "(\<exists>t d. connect_timeout fd a p w (s\<lparr>sched := [ok 0, ok 0, Err EINPROGRESS, ok 0, ok 0, ok 0]\<rparr>) = (Ret (-1), t) \<and>
        errno t = ETIMEDOUT \<and> fds t fd = Some d \<and> \<not> nonblocking d) \<and>
    (\<exists>t d. connect_timeout fd a p w (s\<lparr>sched := [ok 0, ok 0, Err EINPROGRESS, Err e]\<rparr>) = (Ret (-1), t) \<and>
        errno t = e \<and> fds t fd = Some d \<and> nonblocking d)"
  using assms
  by (simp add: connect_timeout_def activate_nonblock_def deactivate_nonblock_def connect_finish_def
      sys_fcntl_getfl_def sys_fcntl_setfl_def sys_on_fd_def sys_connect_def syscall_def bnd_def ret_def gets_def
      FD_SET_def require_def set_errno_def modify_def select_retry.simps sys_select1_def nonblocking_def)

theorem connect_timeout_mode_witness:
  "\<exists>t d. connect_timeout 3 1 2 5 (demo_os [ok 0, ok 0, Err EINPROGRESS, Err EBADF] []) = (Ret (-1), t) \<and>
     errno t = EBADF \<and> fds t 3 = Some d \<and> nonblocking d"
proof -
  have "(demo_os [] [])\<lparr>sched := [ok 0, ok 0, Err EINPROGRESS, Err EBADF]\<rparr> =
      demo_os [ok 0, ok 0, Err EINPROGRESS, Err EBADF] []"
    by (simp add: demo_os_def)
  with connect_timeout_mode [of 3 5 "demo_os [] []" "new_sock [] True" EBADF 1 2] show ?thesis
    by (simp add: demo_os_def FD_SETSIZE_def errno_defs new_sock_def O_RDWR_def O_NONBLOCK_def)
qed

section \<open>Accepting connections\<close>

text \<open>
  A failed \<^verbatim>\<open>accept\<close> is reported as a success. When \<^verbatim>\<open>accept\<close> fails with an error number,
  \<^verbatim>\<open>accept_timeout\<close> returns that number, and \<^verbatim>\<open>sckServer_accept\<close> takes it for a descriptor: it
  returns 0 and stores the error number in \<^verbatim>\<open>*connfd\<close>, although nothing was opened.
\<close>

theorem sckServer_accept_error_as_descriptor:
  assumes "log_safe s" "0 < e" "e \<le> INT_MAX"
  shows "\<exists>t. sckServer_accept lfd 0 (s\<lparr>sched := [Err e]\<rparr>) = (Ret (0, Some e), t) \<and> fds t = fds s"
proof -
  have "accept_timeout lfd 0 (s\<lparr>sched := [Err e]\<rparr>) =
      (Ret e, logged ''socketutil.c'' 630 4 e ''func accept() err'' (s\<lparr>sched := [], errno := e\<rparr>))"
    using assms by (simp add: accept_timeout_def sys_accept_def syscall_def bnd_def ret_def gets_def
        ulog_logged INT_MIN_def)
  with assms(2) show ?thesis
    by (simp add: sckServer_accept_def bnd_def ret_def gets_def c_uint_def)
qed

theorem sckServer_accept_error_as_descriptor_witness:
  "\<exists>t. sckServer_accept 3 0 (demo_os [Err EMFILE] []) = (Ret (0, Some EMFILE), t) \<and>
     fds t = fds (demo_os [Err EMFILE] [])"
proof -
  have "log_safe (demo_os [] [])" by (simp add: demo_os_def log_safe_def)
  from sckServer_accept_error_as_descriptor [OF this, of EMFILE 3] show ?thesis
    by (simp add: demo_os_def EMFILE_def INT_MAX_def)
qed

end
