(* ===== verification/Messages.thy ===== *)
theory Messages
  imports Socketutil
begin

text \<open>
  The message layer of \<^verbatim>\<open>socketutil.c\<close>: what \<^verbatim>\<open>sckClient_send\<close>, \<^verbatim>\<open>sckServer_send\<close>,
  \<^verbatim>\<open>sckClient_rev\<close> and \<^verbatim>\<open>sckServer_rev\<close> put on and take off a stream, what they report and what
  they do with memory. A sender and a receiver are interfaces; a channel is one of each, and
  what is shown of channels holds for the four ways of pairing the routines.
\<close>

section \<open>Frames\<close>

definition frame :: "byte list \<Rightarrow> byte list" where
  "frame data = be_bytes (of_nat (length data)) @ data"

lemma length_frame [simp]: "length (frame data) = 4 + length data"
  by (simp add: frame_def)

lemma sint_word_of_length: "int n \<le> INT_MAX \<Longrightarrow> sint (of_nat n :: 32 word) = int n"
  by (simp add: INT_MAX_def signed_of_nat signed_take_bit_int_eq_self)

text \<open>The length a receiver reads from the head of a stream.\<close>

definition head_len :: "byte list \<Rightarrow> int" where
  "head_len q = sint (of_be (take 4 q))"

lemma head_len_frame [simp]: "int (length data) \<le> INT_MAX \<Longrightarrow> head_len (frame data @ q) = int (length data)"
  by (simp add: head_len_def frame_def sint_word_of_length)

lemma head_len_le: "head_len q \<le> INT_MAX" "INT_MIN \<le> head_len q"
  using sint_less [of "of_be (take 4 q)"] sint_ge [of "of_be (take 4 q)"]
  by (simp_all add: head_len_def INT_MAX_def INT_MIN_def)

text \<open>A stream that holds as many bytes as its head announces starts with a frame.\<close>

lemma frame_of_stream:
  assumes "4 + nat (head_len q) \<le> length q" "0 \<le> head_len q"
  shows "q = frame (take (nat (head_len q)) (drop 4 q)) @ drop (4 + nat (head_len q)) q"
proof -
  let ?n = "nat (head_len q)"
  have "(word_of_nat ?n :: 32 word) = word_of_int (head_len q)" using assms(2) by (metis nat_0_le of_int_of_nat_eq)
  also have "\<dots> = of_be (take 4 q)" by (simp add: head_len_def)
  finally have "be_bytes (word_of_nat ?n) = take 4 q" using assms(1) by (simp add: be_bytes_of_be)
  with assms(1) have "frame (take ?n (drop 4 q)) = take 4 q @ take ?n (drop 4 q)"
    by (simp add: frame_def min_absorb2)
  then show ?thesis by (metis append_assoc append_take_drop_id drop_drop add.commute)
qed

section \<open>The interfaces\<close>

locale message_sender =
  fixes send :: "int \<Rightarrow> int \<Rightarrow> byte list option \<Rightarrow> int \<Rightarrow> int call"
  assumes sent: "send fd tm (Some bs) n s = (Ret 0, t) \<Longrightarrow> fds s fd = Some c \<Longrightarrow> 0 < n \<Longrightarrow>
      n \<le> int (length bs) \<Longrightarrow> n + 4 \<le> INT_MAX \<Longrightarrow> log_safe s \<Longrightarrow> fd_in_range fd (c_uint tm) \<Longrightarrow>
      fds t = (fds s)(fd \<mapsto> c\<lparr>sndq := sndq c @ frame (take (nat n) bs)\<rparr>) \<and> log_safe t"

locale message_receiver =
  fixes recv :: "int \<Rightarrow> int \<Rightarrow> bool \<Rightarrow> bool \<Rightarrow> rev_result call"
  assumes received: "fds s fd = Some c \<Longrightarrow> rcvq c = frame data @ rest \<Longrightarrow> int (length data) < INT_MAX \<Longrightarrow>
      list_all serves (sched s) \<Longrightarrow> 5 + length data \<le> length (sched s) \<Longrightarrow>
      \<exists>t b. recv fd 0 True True s = (Ret (0, Some (b, data @ [0], int (length data))), t) \<and>
        fds t = (fds s)(fd \<mapsto> c\<lparr>rcvq := rest\<rparr>) \<and> list_all serves (sched t) \<and>
        length (sched s) \<le> length (sched t) + (5 + length data) \<and> live t = b # live s"

text \<open>Sending several messages, stopping at the first failure, and receiving a given number.\<close>

fun send_all :: "(int \<Rightarrow> int \<Rightarrow> byte list option \<Rightarrow> int \<Rightarrow> int call) \<Rightarrow> int \<Rightarrow> int \<Rightarrow> byte list list \<Rightarrow> int call" where
  "send_all send fd tm [] = ret 0"
| "send_all send fd tm (m # ms) = bnd (send fd tm (Some m) (int (length m))) (\<lambda>r.
     if r = 0 then send_all send fd tm ms else ret r)"

fun recv_all :: "(int \<Rightarrow> int \<Rightarrow> bool \<Rightarrow> bool \<Rightarrow> rev_result call) \<Rightarrow> int \<Rightarrow> nat \<Rightarrow> byte list list option call" where
  "recv_all recv fd 0 = ret (Some [])"
| "recv_all recv fd (Suc k) = bnd (recv fd 0 True True) (\<lambda>(r, out).
     case out of
       Some (b, bs, n) \<Rightarrow> bnd (recv_all recv fd k) (\<lambda>x. ret (map_option ((#) (take (nat n) bs)) x))
     | None \<Rightarrow> ret None)"

definition sendable :: "byte list list \<Rightarrow> bool" where
  "sendable ms = list_all (\<lambda>m. m \<noteq> [] \<and> int (length m) + 4 \<le> INT_MAX) ms"

context message_sender
begin

lemma sent_all:
  assumes "send_all send fd tm ms s = (Ret 0, t)" "fds s fd = Some c" "sendable ms" "log_safe s"
    "fd_in_range fd (c_uint tm)"
  shows "\<exists>d. fds t fd = Some d \<and> sndq d = sndq c @ concat (map frame ms)"
  using assms
proof (induction ms arbitrary: s c)
  case Nil
  then show ?case by (auto simp: ret_def)
next
  case (Cons m ms)
  then obtain u where u: "send fd tm (Some m) (int (length m)) s = (Ret 0, u)"
    "send_all send fd tm ms u = (Ret 0, t)"
    by (auto elim!: bnd_RetE split: if_splits simp: ret_def)
  let ?c = "c\<lparr>sndq := sndq c @ frame m\<rparr>"
  from Cons.prems have "m \<noteq> []" "int (length m) + 4 \<le> INT_MAX" by (auto simp: sendable_def)
  with sent [OF u(1) Cons.prems(2)] Cons.prems(4,5)
  have f: "fds u fd = Some ?c" "log_safe u" by auto
  have "\<exists>d. fds t fd = Some d \<and> sndq d = sndq ?c @ concat (map frame ms)"
    by (rule Cons.IH [OF u(2) f(1) _ f(2)]) (use Cons.prems in \<open>auto simp: sendable_def\<close>)
  then show ?case by simp
qed

end

context message_receiver
begin

lemma received_all:
  assumes "fds s fd = Some c" "rcvq c = concat (map frame ms) @ rest" "sendable ms"
    "list_all serves (sched s)" "sum_list (map (\<lambda>m. 5 + length m) ms) \<le> length (sched s)"
  shows "\<exists>t. recv_all recv fd (length ms) s = (Ret (Some ms), t) \<and>
    fds t = (fds s)(fd \<mapsto> c\<lparr>rcvq := rest\<rparr>)"
  using assms
proof (induction ms arbitrary: s c)
  case Nil
  then show ?case by (auto simp: ret_def fun_upd_idem)
next
  case (Cons m ms)
  let ?q = "concat (map frame ms) @ rest"
  from Cons.prems have "int (length m) < INT_MAX" "5 + length m \<le> length (sched s)" "rcvq c = frame m @ ?q"
    by (auto simp: sendable_def)
  from received [OF Cons.prems(1) this(3,1) Cons.prems(4) this(2)] obtain t b where
    t: "recv fd 0 True True s = (Ret (0, Some (b, m @ [0], int (length m))), t)"
      "fds t = (fds s)(fd \<mapsto> c\<lparr>rcvq := ?q\<rparr>)" "list_all serves (sched t)"
      "length (sched s) \<le> length (sched t) + (5 + length m)" by auto
  have "\<exists>u. recv_all recv fd (length ms) t = (Ret (Some ms), u) \<and>
      fds u = (fds t)(fd \<mapsto> c\<lparr>rcvq := ?q\<rparr>\<lparr>rcvq := rest\<rparr>)"
    by (rule Cons.IH) (use t Cons.prems in \<open>auto simp: sendable_def\<close>)
  with t show ?case by (auto simp: ret_def)
qed

end

locale channel = message_sender send + message_receiver recv
  for send :: "int \<Rightarrow> int \<Rightarrow> byte list option \<Rightarrow> int \<Rightarrow> int call"
  and recv :: "int \<Rightarrow> int \<Rightarrow> bool \<Rightarrow> bool \<Rightarrow> rev_result call"
begin

text \<open>
  Messages arrive complete, in order, none lost, none twice: \<open>u\<close> is the peer's machine, whose
  descriptor \<open>fd'\<close> has received what the first machine sent on a new connection.
\<close>

lemma in_order:
  assumes "send_all send fd tm ms s = (Ret 0, t)" "fds s fd = Some c" "sndq c = []" "sendable ms"
    "log_safe s" "fd_in_range fd (c_uint tm)"
    and "fds u fd' = Some d" "rcvq d = sndq (the (fds t fd)) @ rest"
    "list_all serves (sched u)" "sum_list (map (\<lambda>m. 5 + length m) ms) \<le> length (sched u)"
  shows "\<exists>v. recv_all recv fd' (length ms) u = (Ret (Some ms), v) \<and>
    fds v = (fds u)(fd' \<mapsto> d\<lparr>rcvq := rest\<rparr>)"
  using sent_all [OF assms(1,2,4,5,6)] received_all [OF assms(7) _ assms(4,9,10), of rest] assms(3,8)
  by auto

end

section \<open>Sending\<close>

text \<open>
  What a send leaves: \<open>m\<close> bytes of the frame \<open>fr\<close> are on the wire, all of them if it returned
  0 and none if it timed out or found no memory; \<open>leak\<close> says whether a successful send keeps
  its buffer.
\<close>

definition send_post :: "bool \<Rightarrow> int \<Rightarrow> byte list \<Rightarrow> sock \<Rightarrow> os \<Rightarrow> int \<Rightarrow> os \<Rightarrow> bool" where
  "send_post leak fd fr c s r t \<longleftrightarrow> env t = env s \<and>
     (if leak \<and> r = 0 then \<exists>b. live t = b # live s else live t = live s) \<and>
     (\<exists>m \<le> length fr. fds t = (fds s)(fd \<mapsto> c\<lparr>sndq := sndq c @ take m fr\<rparr>) \<and>
       (r = 0 \<and> m = length fr \<or> r = -1 \<or> (r = Sck_ErrTimeOut \<or> r = Sck_ErrMalloc) \<and> m = 0))"

lemma send_post_none:
  assumes "fds s fd = Some c" "fds t = fds s" "live t = live s" "env t = env s"
    "r = -1 \<or> r = Sck_ErrTimeOut \<or> r = Sck_ErrMalloc"
  shows "send_post leak fd fr c s r t"
  using assms by (auto simp: send_post_def Sck_defs fun_upd_idem intro!: exI [of _ 0])

lemma send_post_sent:
  assumes "send_post leak fd fr c s 0 t" "log_safe s"
  shows "fds t = (fds s)(fd \<mapsto> c\<lparr>sndq := sndq c @ fr\<rparr>) \<and> log_safe t"
  using assms log_safe_env [of t s] by (auto simp: send_post_def Sck_defs)

lemma wire_frame:
  assumes "0 \<le> n" "nat n \<le> length bs"
  shows "be_bytes (word_of_int n) @ take (nat n) bs = frame (take (nat n) bs)"
  using assms by (simp add: frame_def min_def of_nat_nat)

definition send_args_ok :: "int \<Rightarrow> int \<Rightarrow> byte list \<Rightarrow> int \<Rightarrow> os \<Rightarrow> bool" where
  "send_args_ok fd tm bs n s \<longleftrightarrow> 0 < n \<and> n \<le> int (length bs) \<and> n + 4 \<le> INT_MAX \<and>
     fd_in_range fd (c_uint tm) \<and> log_safe s"

lemma sckClient_send_runs:
  assumes "fds s fd = Some c" "send_args_ok fd tm bs n s"
  shows "runs (sckClient_send fd tm (Some bs) n)
    (send_post False fd (frame (take (nat n) bs)) c s) never s"
proof -
  have n: "0 < n" "nat n \<le> length bs" "n + 4 \<le> INT_MAX" and fd: "fd_in_range fd (c_uint tm)"
    using assms(2) by (auto simp: send_args_ok_def)
  have body: "runs (bnd (writen fd (frame (take (nat n) bs))) (\<lambda>writed.
      if writed < n + 4 then bnd (free b) (\<lambda>_. ret writed) else bnd (free b) (\<lambda>_. ret 0)))
      (send_post False fd (frame (take (nat n) bs)) c s) never u"
    if "env u = env s" "fds u = fds s" "live u = b # live s" for u b
    using that n assms(1)
    by (intro runs_bnd [OF writen.contract [where c = c]] runs_intros runs_bnd [OF free_runs])
      (auto simp: send_post_def heap_def min_def)
  show ?thesis
    using n assms
    by (auto simp: sckClient_send_def wire_frame limit_post_def heap_def
        intro!: runs_bnd [OF write_timeout_runs [OF fd]] runs_bnd_require runs_bnd [OF malloc_runs]
          runs_intros body send_post_none split: option.splits)
qed

lemma sckServer_send_runs:
  assumes "fds s fd = Some c" "send_args_ok fd tm bs n s"
  shows "runs (sckServer_send fd tm (Some bs) n)
    (send_post True fd (frame (take (nat n) bs)) c s) never s"
proof -
  have n: "0 < n" "nat n \<le> length bs" "n + 4 \<le> INT_MAX" and fd: "fd_in_range fd (c_uint tm)"
    using assms(2) by (auto simp: send_args_ok_def)
  have safe: "log_safe t" if "env t = env s" for t
    using assms(2) log_safe_env [OF that] by (simp add: send_args_ok_def)
  have body: "runs (bnd (writen fd (frame (take (nat n) bs))) (\<lambda>writed.
      if writed < n + 4 then bnd (free b) (\<lambda>_. ret writed) else ret 0))
      (send_post True fd (frame (take (nat n) bs)) c s) never u"
    if "env u = env s" "fds u = fds s" "live u = b # live s" for u b
    using that n assms(1)
    by (intro runs_bnd [OF writen.contract [where c = c]] runs_intros runs_bnd [OF free_runs])
      (auto simp: send_post_def heap_def min_def)
  show ?thesis
    using n assms(1)
    by (auto simp: sckServer_send_def wire_frame limit_post_def heap_def Sck_defs
        INT_MIN_def INT_MAX_def intro!: runs_bnd [OF write_timeout_runs [OF fd]] runs_bnd_require
          runs_bnd [OF malloc_runs] runs_log_ret safe runs_intros body send_post_none [unfolded Sck_defs] split: option.splits)
qed

interpretation client: message_sender sckClient_send
proof
  show "fds t = (fds s)(fd \<mapsto> c\<lparr>sndq := sndq c @ frame (take (nat n) bs)\<rparr>) \<and> log_safe t"
    if "sckClient_send fd tm (Some bs) n s = (Ret 0, t)" "fds s fd = Some c" "0 < n" "n \<le> int (length bs)"
      "n + 4 \<le> INT_MAX" "log_safe s" "fd_in_range fd (c_uint tm)" for fd tm bs n s t c
    using runs_Ret [OF sckClient_send_runs [of s fd c tm bs n] that(1)] that
    by (intro send_post_sent) (auto simp: send_args_ok_def)
qed

interpretation server: message_sender sckServer_send
proof
  show "fds t = (fds s)(fd \<mapsto> c\<lparr>sndq := sndq c @ frame (take (nat n) bs)\<rparr>) \<and> log_safe t"
    if "sckServer_send fd tm (Some bs) n s = (Ret 0, t)" "fds s fd = Some c" "0 < n" "n \<le> int (length bs)"
      "n + 4 \<le> INT_MAX" "log_safe s" "fd_in_range fd (c_uint tm)" for fd tm bs n s t c
    using runs_Ret [OF sckServer_send_runs [of s fd c tm bs n] that(1)] that
    by (intro send_post_sent) (auto simp: send_args_ok_def)
qed

section \<open>Receiving\<close>

text \<open>
  The receivers are one routine up to their log entries: a failed read of the head (0), an early
  end in it (1), no memory (2), a failed read of the data (3), an early end in it (4), no data
  in time (5) and a failed \<^verbatim>\<open>select\<close> (6). The routine takes the log call as an argument; all
  that it needs of it is that it returns and leaves descriptors and memory alone.
\<close>

locale entry_logger =
  fixes lg :: "nat \<Rightarrow> int \<Rightarrow> unit call"
  assumes quiet: "log_safe s \<Longrightarrow> i < 7 \<Longrightarrow> INT_MIN \<le> st \<Longrightarrow> st \<le> INT_MAX \<Longrightarrow>
      \<exists>t. lg i st s = (Ret (), t) \<and> sched t = sched s \<and> fds t = fds s \<and> heap t = heap s \<and> env t = env s"
begin

lemma runs_entry:
  assumes "env t = env s" "log_safe s" "i < 7" "INT_MIN \<le> st" "st \<le> INT_MAX"
    "\<And>u. fds u = fds t \<Longrightarrow> live u = live t \<Longrightarrow> env u = env t \<Longrightarrow> R a u"
  shows "runs (bnd (lg i st) (\<lambda>_. ret a)) R F t"
  using quiet [of t i st] log_safe_env [OF assms(1)] assms by (fastforce simp: runs_def ret_def heap_def)

end

definition receive_data :: "(nat \<Rightarrow> int \<Rightarrow> unit call) \<Rightarrow> int \<Rightarrow> int \<Rightarrow> nat \<Rightarrow> rev_result call" where
  "receive_data lg fd n b = bnd (readn fd (c_size n)) (\<lambda>(r, bs).
     bnd (require (length bs \<le> c_size (n + 1))) (\<lambda>_.
       if r = -1 then bnd (lg 3 r) (\<lambda>_. ret (r, None))
       else if r < n then bnd (lg 4 Sck_ErrPeerClosed) (\<lambda>_. ret (Sck_ErrPeerClosed, None))
       else bnd (require (0 \<le> n)) (\<lambda>_. ret (0, Some (b, bs @ [0], n)))))"

definition receive_sized :: "(nat \<Rightarrow> int \<Rightarrow> unit call) \<Rightarrow> int \<Rightarrow> int \<Rightarrow> rev_result call" where
  "receive_sized lg fd n = bnd (require (n + 1 \<le> INT_MAX)) (\<lambda>_.
     bnd (malloc (c_size (n + 1))) (\<lambda>tmpBuf.
       case tmpBuf of
         None \<Rightarrow> bnd (lg 2 Sck_ErrMalloc) (\<lambda>_. ret (Sck_ErrMalloc, None))
       | Some b \<Rightarrow> receive_data lg fd n b))"

definition receive :: "(nat \<Rightarrow> int \<Rightarrow> unit call) \<Rightarrow> int \<Rightarrow> rev_result call" where
  "receive lg fd = bnd (readn fd 4) (\<lambda>(r, hdr).
     if r = -1 then bnd (lg 0 r) (\<lambda>_. ret (r, None))
     else if r < 4 then bnd (lg 1 Sck_ErrPeerClosed) (\<lambda>_. ret (Sck_ErrPeerClosed, None))
     else bnd (gets le) (\<lambda>l. receive_sized lg fd (sint (ntohl l (of_mem l hdr)))))"

definition receive_timed :: "(nat \<Rightarrow> int \<Rightarrow> unit call) \<Rightarrow> int \<Rightarrow> nat \<Rightarrow> rev_result call" where
  "receive_timed lg fd w = bnd (read_timeout fd w) (\<lambda>r. bnd (gets errno) (\<lambda>e.
     if r \<noteq> 0 then
       (if r = -1 \<or> e = ETIMEDOUT then bnd (lg 5 Sck_ErrTimeOut) (\<lambda>_. ret (Sck_ErrTimeOut, None))
        else bnd (lg 6 r) (\<lambda>_. ret (r, None)))
     else receive lg fd))"

text \<open>The entries of the two receivers of \<^verbatim>\<open>socketutil.c\<close>.\<close>

definition entries :: "(int \<times> string) list \<Rightarrow> nat \<Rightarrow> int \<Rightarrow> unit call" where
  "entries e i st = ulog (fst (e ! i)) st (snd (e ! i))"

definition client_log :: "(int \<times> string) list" where
  "client_log = [(457, ''func readn() err''), (464, ''func readn() err, peer closed''),
     (474, ''malloc() err''), (483, ''readn() err''), (490, ''func readn() err,  peer closed''),
     (442, ''func read_timeout() timeout''), (447, ''func read_timeout() err'')]"

definition server_log :: "(int \<times> string) list" where
  "server_log = [(742, ''func readn() err''), (748, ''func readn() err, peer closed''),
     (759, ''func malloc() err''), (766, ''func readn() err''), (772, ''func readn() err. peer closed''),
     (728, ''func read_timeout() err''), (733, ''func read_timeout() err'')]"

lemma sckClient_rev_receive:
  "sckClient_rev fd tm True True = receive_timed (entries client_log) fd (c_uint tm)"
  by (simp add: sckClient_rev_def receive_timed_def receive_def receive_sized_def receive_data_def Let_def
      client_log_def entries_def cong: if_cong option.case_cong)

lemma sckServer_rev_receive:
  "sckServer_rev fd tm True True = receive_timed (entries server_log) fd (c_uint tm)"
  by (simp add: sckServer_rev_def receive_timed_def receive_def receive_sized_def receive_data_def Let_def
      server_log_def entries_def cong: if_cong option.case_cong)

lemma entry_loggerI:
  assumes "length e = 7" "list_all (\<lambda>(l, m). 0 \<le> l \<and> l \<le> 1000 \<and> length m \<le> 1000) e"
  shows "entry_logger (entries e)"
proof
  fix s i st assume "log_safe s" "i < (7 :: nat)" "INT_MIN \<le> st" "st \<le> INT_MAX"
  with assms show "\<exists>t. entries e i st s = (Ret (), t) \<and> sched t = sched s \<and> fds t = fds s \<and> heap t = heap s \<and>
      env t = env s"
    by (auto simp: entries_def list_all_length split_def intro!: exI ulog_logged)
qed

interpretation client_entry: entry_logger "entries client_log"
  by (rule entry_loggerI) (simp_all add: client_log_def)

interpretation server_entry: entry_logger "entries server_log"
  by (rule entry_loggerI) (simp_all add: server_log_def)

text \<open>
  What a receive leaves: it has taken \<open>k\<close> bytes off the stream. On success they are one
  frame. It reports that the peer closed only when the stream has ended inside a frame, and
  then it has taken everything; the buffer for the data is lost on every failure after its
  allocation.
\<close>

definition taken :: "sock \<Rightarrow> os \<Rightarrow> nat \<Rightarrow> rev_result \<Rightarrow> os \<Rightarrow> bool" where
  "taken c s k x t = (case x of
      (r, Some (b, bs, n)) \<Rightarrow> r = 0 \<and> live t = b # live s \<and> n = head_len (rcvq c) \<and> 0 \<le> n \<and>
        k = 4 + nat n \<and> k \<le> length (rcvq c) \<and> bs = take (nat n) (drop 4 (rcvq c)) @ [0]
    | (r, None) \<Rightarrow>
        r = Sck_ErrTimeOut \<and> k = 0 \<and> live t = live s \<or>
        r = Sck_ErrMalloc \<and> k = 4 \<and> live t = live s \<or>
        r = -1 \<and> (live t = live s \<or> 4 \<le> k \<and> (\<exists>b. live t = b # live s)) \<or>
        r = Sck_ErrPeerClosed \<and> fin c \<and> k = length (rcvq c) \<and>
          (k < 4 \<and> live t = live s \<or>
           4 \<le> k \<and> k < 4 + nat (head_len (rcvq c)) \<and> (\<exists>b. live t = b # live s)))"

definition rev_post :: "int \<Rightarrow> sock \<Rightarrow> os \<Rightarrow> rev_result \<Rightarrow> os \<Rightarrow> bool" where
  "rev_post fd c s x t \<longleftrightarrow> env t = env s \<and>
     (\<exists>k. fds t = (fds s)(fd \<mapsto> c\<lparr>rcvq := drop k (rcvq c)\<rparr>) \<and> taken c s k x t)"

definition bad_head :: "byte list \<Rightarrow> bool" where
  "bad_head q \<longleftrightarrow> 4 \<le> length q \<and> (head_len q < 0 \<or> head_len q = INT_MAX)"

lemma rev_postI:
  assumes "fds t = (fds s)(fd \<mapsto> c\<lparr>rcvq := drop k (rcvq c)\<rparr>)" "env t = env s" "taken c s k x t"
  shows "rev_post fd c s x t"
  unfolding rev_post_def using assms by blast

lemma prefix_facts:
  assumes "q = bs @ drop (length bs) q"
  shows "length bs \<le> length q" "take (length bs) q = bs"
  using assms by (metis append_take_drop_id length_append le_add1, metis append_eq_conv_conj)

context entry_logger
begin

text \<open>The last part, after the allocation of the buffer: \<open>n\<close> bytes are to be read.\<close>

lemma receive_data_runs:
  assumes u: "fds u = (fds s)(fd \<mapsto> c\<lparr>rcvq := drop 4 (rcvq c)\<rparr>)" "env u = env s" "live u = b # live s"
    and n: "4 \<le> length (rcvq c)" "n = head_len (rcvq c)" "n \<noteq> INT_MAX" and log: "log_safe s"
  shows "runs (receive_data lg fd n b) (rev_post fd c s) (\<lambda>t. bad_head (rcvq c)) u"
proof -
  let ?q = "rcvq c"
  have fdu: "fds u fd = Some (c\<lparr>rcvq := drop 4 ?q\<rparr>)" using u(1) by simp
  note ent = runs_entry [where s = s, OF _ log]
  show ?thesis
    unfolding receive_data_def
  proof (rule runs_bnd [OF readn.contract [OF fdu]], clarify, goal_cases)
    case (1 r bs t)
    have "drop 4 ?q = bs @ drop (length bs) (drop 4 ?q)" using 1(4) by simp
    from prefix_facts [OF this] n(1)
    have pre: "4 + length bs \<le> length ?q" "take (length bs) (drop 4 ?q) = bs" by auto
    have t: "fds t = (fds s)(fd \<mapsto> c\<lparr>rcvq := drop (4 + length bs) ?q\<rparr>)" "env t = env s" "live t = b # live s"
      using 1(1,2,5) u by (simp_all add: heap_def add.commute)
    show ?case
    proof (cases "0 \<le> n")
      case True
      then have "c_size n = nat n" "c_size (n + 1) = nat n + 1"
        using n head_len_le [of ?q] c_size_nonneg [of "n + 1"] by auto
      with 1(6) True pre t n show ?thesis
        by (intro runs_bnd_require runs_intros ent rev_postI [where k = "4 + length bs"])
          (auto simp: taken_def Sck_defs INT_MIN_def INT_MAX_def)
    next
      case False
      with n(1,2) have "bad_head ?q" by (simp add: bad_head_def)
      with 1(6) False t show ?thesis
        by (intro runs_bnd_require runs_intros ent rev_postI [where k = "4 + length bs"])
          (auto simp: taken_def INT_MIN_def INT_MAX_def)
    qed
  qed simp
qed

lemma receive_sized_runs:
  assumes u: "fds u = (fds s)(fd \<mapsto> c\<lparr>rcvq := drop 4 (rcvq c)\<rparr>)" "env u = env s" "live u = live s"
    and n: "4 \<le> length (rcvq c)" "n = head_len (rcvq c)" and log: "log_safe s"
  shows "runs (receive_sized lg fd n) (rev_post fd c s) (\<lambda>t. bad_head (rcvq c)) u"
proof -
  note ent = runs_entry [where s = s, OF _ log]
  have "n \<le> INT_MAX" using n(2) head_len_le by simp
  then have bad: "bad_head (rcvq c)" if "\<not> n + 1 \<le> INT_MAX" using that n by (simp add: bad_head_def)
  have post: "rev_post fd c s x t" if "fds t = fds u" "env t = env s" "taken c s 4 x t" for x t
    by (rule rev_postI [where k = 4]) (use that u in auto)
  show ?thesis
    unfolding receive_sized_def
  proof (intro runs_bnd_require bad runs_bnd [OF malloc_runs], goal_cases)
    case (1 x t)
    then show ?case
      using u by (cases x) (auto simp: taken_def Sck_defs INT_MIN_def INT_MAX_def
          intro!: ent post receive_data_runs n log)
  qed simp_all
qed

lemma receive_runs:
  assumes "fds s fd = Some c" "fds u = fds s" "env u = env s" "live u = live s" "log_safe s"
  shows "runs (receive lg fd) (rev_post fd c s) (\<lambda>t. bad_head (rcvq c)) u"
proof -
  let ?q = "rcvq c"
  note ent = runs_entry [where s = s, OF _ assms(5)]
  have fdu: "fds u fd = Some c" using assms(1,2) by simp
  show ?thesis
    unfolding receive_def
  proof (rule runs_bnd [OF readn.contract [OF fdu]], clarify, goal_cases)
    case (1 r bs t)
    note pre = prefix_facts [OF 1(4)]
    have t: "fds t = (fds s)(fd \<mapsto> c\<lparr>rcvq := drop (length bs) ?q\<rparr>)" "env t = env s" "live t = live s"
      using 1(1,2,5) assms by (simp_all add: heap_def)
    show ?case
    proof (cases "length bs = 4")
      case True
      with pre have "sint (ntohl (le t) (of_mem (le t) bs)) = head_len ?q" "4 \<le> length ?q"
        by (simp_all add: ntohl_of_mem head_len_def)
      with 1(6) True t assms show ?thesis by (auto intro!: runs_intros receive_sized_runs)
    next
      case False
      with 1(6) t show ?thesis
        by (intro runs_intros ent rev_postI [where k = "length bs"])
          (auto simp: taken_def Sck_defs INT_MIN_def INT_MAX_def)
    qed
  qed simp
qed

lemma receive_timed_runs:
  assumes "fds s fd = Some c" "fd_in_range fd w" "log_safe s"
  shows "runs (receive_timed lg fd w) (rev_post fd c s) (\<lambda>t. bad_head (rcvq c)) s"
  unfolding receive_timed_def
proof (rule runs_bnd [OF read_timeout_runs [OF assms(2)]], goal_cases)
  case (1 r t)
  then have t: "env t = env s" "fds t = fds s" "live t = live s" by (simp_all add: limit_post_def heap_def)
  note ent = runs_entry [where s = s, OF t(1) assms(3)]
  from 1 t assms show ?case
    by (intro runs_intros ent receive_runs rev_postI [where k = 0])
      (auto simp: limit_post_def taken_def Sck_defs INT_MIN_def INT_MAX_def fun_upd_idem heap_def)
qed simp

end

lemmas sckClient_rev_runs = client_entry.receive_timed_runs [where w = "c_uint tm" for tm, folded sckClient_rev_receive]
lemmas sckServer_rev_runs = server_entry.receive_timed_runs [where w = "c_uint tm" for tm, folded sckServer_rev_receive]

lemma nat_int_add_1: "nat (int n + 1) = n + 1"
  by simp

lemma receive_total:
  assumes "fds s fd = Some c" "rcvq c = frame data @ rest" "int (length data) < INT_MAX"
    "list_all serves (sched s)" "5 + length data \<le> length (sched s)"
  shows "\<exists>t b. receive lg fd s = (Ret (0, Some (b, data @ [0], int (length data))), t) \<and>
    fds t = (fds s)(fd \<mapsto> c\<lparr>rcvq := rest\<rparr>) \<and> list_all serves (sched t) \<and>
    length (sched s) \<le> length (sched t) + (5 + length data) \<and> live t = b # live s"
proof -
  let ?n = "length data" and ?h = "be_bytes (of_nat (length data) :: 32 word)"
  have q: "rcvq c = ?h @ data @ rest" using assms(2) by (simp add: frame_def)
  obtain t where t: "readn fd 4 s = (Ret (4, ?h), t)" "list_all serves (sched t)"
      "length (sched s) \<le> length (sched t) + 4" "fds t = (fds s)(fd \<mapsto> c\<lparr>rcvq := data @ rest\<rparr>)"
    using readn.calm_total [OF assms(1), of 4] assms(4,5) q by auto
  have len: "sint (ntohl (le t) (of_mem (le t) ?h)) = int ?n"
    using assms(3) by (simp add: ntohl_of_mem sint_word_of_length)
  from t(2,3) assms(5) obtain k bs f r where sch: "sched t = Ok k bs f # r" "list_all serves r"
    by (cases "sched t") (auto elim: serves.elims)
  let ?b = "allocs t" and ?u = "t\<lparr>sched := r, live := allocs t # live t, allocs := Suc (allocs t)\<rparr>"
  have "\<not> PTRDIFF_MAX < c_size (int ?n + 1)"
    using assms(3) c_size_nonneg [of "int ?n + 1"] by (simp add: INT_MAX_def PTRDIFF_MAX_def)
  then have m: "malloc (c_size (int ?n + 1)) t = (Ret (Some ?b), ?u)"
    using sch by (simp add: malloc_def syscall_def)
  obtain v where v: "readn fd ?n ?u = (Ret (int ?n, data), v)" "list_all serves (sched v)"
      "length r \<le> length (sched v) + ?n" "fds v = (fds s)(fd \<mapsto> c\<lparr>rcvq := rest\<rparr>)"
    using readn.calm_total [of ?u fd "c\<lparr>rcvq := data @ rest\<rparr>" ?n] t(3,4) sch assms(5) by auto
  have lv: "live t = live s" "live v = live ?u"
    using keepsD [OF readn.rdn_heap t(1)] keepsD [OF readn.rdn_heap v(1)] by (simp_all add: heap_def)
  have "receive lg fd s = (Ret (0, Some (?b, data @ [0], int ?n)), v)"
    using t(1) len m v(1) assms(3) c_size_nonneg [of "int ?n"] c_size_nonneg [of "int ?n + 1"]
    by (simp add: receive_def receive_sized_def receive_data_def gets_def require_def ret_def nat_int_add_1)
  with v t sch lv show ?thesis by auto
qed

lemma read_timeout_0: "read_timeout fd 0 s = (Ret 0, s)"
  by (simp add: read_timeout_def c_uint_def ret_def)

lemma receive_timed_0: "receive_timed lg fd 0 = receive lg fd"
  by (simp add: fun_eq_iff receive_timed_def read_timeout_0 gets_def)

interpretation client: message_receiver sckClient_rev
  by unfold_locales (simp add: sckClient_rev_receive receive_timed_0 receive_total)

interpretation server: message_receiver sckServer_rev
  by unfold_locales (simp add: sckServer_rev_receive receive_timed_0 receive_total)

interpretation to_server: channel sckClient_send sckServer_rev
  by unfold_locales

interpretation to_client: channel sckServer_send sckClient_rev
  by unfold_locales

section \<open>Properties of the message layer\<close>

lemmas send_demo_defs = sckClient_send_def sckServer_send_def write_timeout_def bnd_def ret_def require_def
  malloc_def syscall_def free_def gets_def writen_def writen_loop.simps sys_write_def set_fd_def demo_os_def
  new_sock_def INT_MAX_def PTRDIFF_MAX_def Let_def be_bytes_def

lemma rev_post_Some:
  assumes "rev_post fd c s (r, Some (b, bs, n)) t" "fds s fd = Some c"
  shows "r = 0 \<and> live t = b # live s \<and> (\<exists>data rest. rcvq c = frame data @ rest \<and> bs = data @ [0] \<and>
    n = int (length data) \<and> fds t = (fds s)(fd \<mapsto> c\<lparr>rcvq := rest\<rparr>))"
proof -
  let ?q = "rcvq c" and ?n = "nat (head_len (rcvq c))"
  from assms(1) have x: "4 + ?n \<le> length ?q" "0 \<le> head_len ?q" "r = 0" "live t = b # live s" "n = head_len ?q"
    "bs = take ?n (drop 4 ?q) @ [0]" "fds t = (fds s)(fd \<mapsto> c\<lparr>rcvq := drop (4 + ?n) ?q\<rparr>)"
    by (auto simp: rev_post_def taken_def)
  from frame_of_stream [OF x(1,2)] x show ?thesis
    by (intro conjI exI [of _ "take ?n (drop 4 ?q)"] exI [of _ "drop (4 + ?n) ?q"]) (auto simp: min_absorb2)
qed

lemma rev_post_None:
  assumes "rev_post fd c s (r, None) t" "fds s fd = Some c"
  shows "r = Sck_ErrTimeOut \<and> fds t = fds s \<and> live t = live s \<or>
    r = Sck_ErrMalloc \<and> live t = live s \<or>
    r = -1 \<and> (live t = live s \<or> (\<exists>b. live t = b # live s)) \<or>
    r = Sck_ErrPeerClosed \<and> fin c \<and> fds t = (fds s)(fd \<mapsto> c\<lparr>rcvq := []\<rparr>) \<and>
      (length (rcvq c) < 4 \<and> live t = live s \<or>
       length (rcvq c) < 4 + nat (head_len (rcvq c)) \<and> (\<exists>b. live t = b # live s))"
  using assms by (auto simp: rev_post_def taken_def fun_upd_idem)

text \<open>
  C1: requests arrive. A client sends any number of messages with \<^verbatim>\<open>sckClient_send\<close> on a new
  connection and every call returns 0. Then the server, whatever pieces the stream is
  delivered in, gets from as many calls of \<^verbatim>\<open>sckServer_rev\<close> exactly these messages in this
  order, and what follows in the stream stays there.
\<close>

theorem requests_in_order:
  assumes "send_all sckClient_send fd tm ms s = (Ret 0, t)" "fds s fd = Some c" "sndq c = []"
    "sendable ms" "log_safe s" "fd_in_range fd (c_uint tm)"
    and "fds u fd' = Some d" "rcvq d = sndq (the (fds t fd)) @ rest"
    "list_all serves (sched u)" "sum_list (map (\<lambda>m. 5 + length m) ms) \<le> length (sched u)"
  shows "\<exists>v. recv_all sckServer_rev fd' (length ms) u = (Ret (Some ms), v) \<and>
    fds v = (fds u)(fd' \<mapsto> d\<lparr>rcvq := rest\<rparr>)"
  by (rule to_server.in_order [OF assms])

theorem requests_in_order_witness:
  "fst (send_all sckClient_send 3 0 [[1, 2], [3]] (demo_os [ok 0, ok 6, ok 0, ok 5] [])) = Ret 0 \<and>
   fst (recv_all sckServer_rev 3 2 (demo_os (replicate 20 (ok 2)) [0, 0, 0, 2, 1, 2, 0, 0, 0, 1, 3, 9])) =
     Ret (Some [[1, 2], [3]])"
proof -
  let ?s = "demo_os [ok 0, ok 6, ok 0, ok 5] []"
    and ?u = "demo_os (replicate 20 (ok 2)) [0, 0, 0, 2, 1, 2, 0, 0, 0, 1, 3, 9]"
  obtain t where t: "send_all sckClient_send 3 0 [[1, 2], [3]] ?s = (Ret 0, t)"
    "sndq (the (fds t 3)) = [0, 0, 0, 2, 1, 2, 0, 0, 0, 1, 3]"
    by (simp add: send_demo_defs)
  have "\<exists>v. recv_all sckServer_rev 3 (length [[1, 2], [3 :: byte]]) ?u = (Ret (Some [[1, 2], [3]]), v) \<and>
      fds v = (fds ?u)(3 \<mapsto> (new_sock (rcvq (the (fds ?u 3))) True)\<lparr>rcvq := [9]\<rparr>)"
    by (rule requests_in_order [OF t(1), where rest = "[9]" and c = "new_sock [] True"])
      (simp_all add: t(2) demo_os_def new_sock_def sendable_def INT_MAX_def log_safe_def fd_in_range_def list_all_iff)
  then have "fst (recv_all sckServer_rev 3 2 ?u) = Ret (Some [[1, 2], [3]])"
    by (auto simp: numeral_2_eq_2 simp del: recv_all.simps)
  with t(1) show ?thesis by (simp del: recv_all.simps send_all.simps)
qed

text \<open>
  Replies arrive in the same way, from \<^verbatim>\<open>sckServer_send\<close> to \<^verbatim>\<open>sckClient_rev\<close>.
\<close>

theorem replies_in_order:
  assumes "send_all sckServer_send fd tm ms s = (Ret 0, t)" "fds s fd = Some c" "sndq c = []"
    "sendable ms" "log_safe s" "fd_in_range fd (c_uint tm)"
    and "fds u fd' = Some d" "rcvq d = sndq (the (fds t fd)) @ rest"
    "list_all serves (sched u)" "sum_list (map (\<lambda>m. 5 + length m) ms) \<le> length (sched u)"
  shows "\<exists>v. recv_all sckClient_rev fd' (length ms) u = (Ret (Some ms), v) \<and>
    fds v = (fds u)(fd' \<mapsto> d\<lparr>rcvq := rest\<rparr>)"
  by (rule to_client.in_order [OF assms])

theorem replies_in_order_witness:
  "fst (send_all sckServer_send 3 0 [[1, 2], [3]] (demo_os [ok 0, ok 6, ok 0, ok 5] [])) = Ret 0 \<and>
   fst (recv_all sckClient_rev 3 2 (demo_os (replicate 20 (ok 2)) [0, 0, 0, 2, 1, 2, 0, 0, 0, 1, 3, 9])) =
     Ret (Some [[1, 2], [3]])"
proof -
  let ?s = "demo_os [ok 0, ok 6, ok 0, ok 5] []"
    and ?u = "demo_os (replicate 20 (ok 2)) [0, 0, 0, 2, 1, 2, 0, 0, 0, 1, 3, 9]"
  obtain t where t: "send_all sckServer_send 3 0 [[1, 2], [3]] ?s = (Ret 0, t)"
    "sndq (the (fds t 3)) = [0, 0, 0, 2, 1, 2, 0, 0, 0, 1, 3]"
    by (simp add: send_demo_defs)
  have "\<exists>v. recv_all sckClient_rev 3 (length [[1, 2], [3 :: byte]]) ?u = (Ret (Some [[1, 2], [3]]), v) \<and>
      fds v = (fds ?u)(3 \<mapsto> (new_sock (rcvq (the (fds ?u 3))) True)\<lparr>rcvq := [9]\<rparr>)"
    by (rule replies_in_order [OF t(1), where rest = "[9]" and c = "new_sock [] True"])
      (simp_all add: t(2) demo_os_def new_sock_def sendable_def INT_MAX_def log_safe_def fd_in_range_def list_all_iff)
  then have "fst (recv_all sckClient_rev 3 2 ?u) = Ret (Some [[1, 2], [3]])"
    by (auto simp: numeral_2_eq_2 simp del: recv_all.simps)
  with t(1) show ?thesis by (simp del: recv_all.simps send_all.simps)
qed

text \<open>
  C3: \<^verbatim>\<open>sckClient_send\<close> with valid arguments, on every kernel. It returns 0 only when the
  whole frame (the length in four bytes, most significant first, and the data) is on the wire
  after what was sent before; a timeout or a failed allocation sends nothing; otherwise it
  returns -1 and a prefix of the frame has been sent. Its buffer is freed on every path, no
  other descriptor is touched, and it has no undefined behaviour.
\<close>

theorem sckClient_send_outcome:
  assumes "fds s fd = Some c" "0 < n" "n \<le> int (length bs)" "n + 4 \<le> INT_MAX"
    "fd_in_range fd (c_uint tm)" "log_safe s"
  shows "case sckClient_send fd tm (Some bs) n s of
      (Ret r, t) \<Rightarrow> live t = live s \<and> (\<exists>m \<le> nat n + 4.
        fds t = (fds s)(fd \<mapsto> c\<lparr>sndq := sndq c @ take m (frame (take (nat n) bs))\<rparr>) \<and>
        (r = 0 \<and> m = nat n + 4 \<or> r = -1 \<or> (r = Sck_ErrTimeOut \<or> r = Sck_ErrMalloc) \<and> m = 0))
    | (Block, t) \<Rightarrow> True
    | _ \<Rightarrow> False"
proof -
  have "length (frame (take (nat n) bs)) = nat n + 4"
    using assms(3) by (simp add: min_absorb2 nat_le_iff)
  with sckClient_send_runs [of s fd c tm bs n] assms show ?thesis
    by (simp add: send_args_ok_def runs_def send_post_def del: length_frame split: res.splits prod.splits)
      blast
qed

theorem sckClient_send_outcome_witness:
  "case sckClient_send 3 0 (Some [1, 2]) 2 (demo_os [ok 0, ok 4, Err EBADF] []) of
     (Ret r, t) \<Rightarrow> r = -1 \<and> live t = [] \<and> map_option sndq (fds t 3) = Some [0, 0, 0, 2]
   | _ \<Rightarrow> False"
proof -
  let ?s = "demo_os [ok 0, ok 4, Err EBADF] []"
  have "\<exists>t. sckClient_send 3 0 (Some [1, 2]) 2 ?s = (Ret (-1), t) \<and> map_option sndq (fds t 3) = Some [0, 0, 0, 2]"
    by (simp add: send_demo_defs errno_defs)
  moreover have "fds ?s 3 = Some (new_sock [] True)" "log_safe ?s" "live ?s = []" "fd_in_range 3 (c_uint 0)"
    by (simp_all add: demo_os_def log_safe_def fd_in_range_def)
  ultimately show ?thesis
    using sckClient_send_outcome [of ?s 3 "new_sock [] True" 2 "[1, 2]" 0] by (auto simp: INT_MAX_def)
qed

text \<open>
  \<^verbatim>\<open>sckServer_send\<close> leaks. Every successful call leaves one more heap block allocated, the
  buffer of its frame, where \<^verbatim>\<open>sckClient_send\<close> with the same arguments leaves none.
\<close>

theorem sckServer_send_leak:
  assumes "fds s fd = Some c" "0 < n" "n \<le> int (length bs)" "n + 4 \<le> INT_MAX"
    "fd_in_range fd (c_uint tm)" "log_safe s" "sckServer_send fd tm (Some bs) n s = (Ret 0, t)"
  shows "length (live t) = Suc (length (live s)) \<and>
    fds t = (fds s)(fd \<mapsto> c\<lparr>sndq := sndq c @ frame (take (nat n) bs)\<rparr>)"
  using runs_Ret [OF sckServer_send_runs [of s fd c tm bs n] assms(7)] assms
  by (auto simp: send_args_ok_def send_post_def Sck_defs)

theorem sckServer_send_leak_witness:
  "length (live (snd (sckServer_send 3 0 (Some [1, 2]) 2 (demo_os [ok 0, ok 6] [])))) = 1"
proof -
  let ?s = "demo_os [ok 0, ok 6] []"
  obtain t where t: "sckServer_send 3 0 (Some [1, 2]) 2 ?s = (Ret 0, t)"
    by (simp add: send_demo_defs)
  have "length (live t) = Suc (length (live ?s)) \<and>
      fds t = (fds ?s)(3 \<mapsto> (new_sock [] True)\<lparr>sndq := sndq (new_sock [] True) @ frame (take (nat 2) [1, 2])\<rparr>)"
    by (rule sckServer_send_leak [OF _ _ _ _ _ _ t])
      (simp_all add: demo_os_def log_safe_def fd_in_range_def INT_MAX_def)
  with t show ?thesis by (simp add: demo_os_def)
qed



lemma ones_head:
  "sint (ntohl l (of_mem l [255, 255, 255, 255])) = -1"
  "sint (ntohl l (of_mem l [127, 255, 255, 255])) = INT_MAX"
  by (simp_all add: ntohl_of_mem INT_MAX_def)


end
