(* ===== verification/Tcp_Socket.thy ===== *)
theory Tcp_Socket
  imports Connections Messages
begin

text \<open>
  The C++ socket class, \<^verbatim>\<open>src/C++socket/TcpSocket.cpp\<close>: the message layer again, as methods of
  an object that holds its socket. The logger \<^verbatim>\<open>ItcastLog\<close> is not part of the repository: it is
  an argument \<open>Log\<close> of the methods that call it, of which the lemmas need only what the locale
  \<open>quiet_logger\<close> says. What the methods print is not modelled.
\<close>

unbundle bit_operations_syntax

section \<open>The logger and the object\<close>

text \<open>A log call at the error level: file, line, status and message.\<close>

type_synonym logger = "string \<Rightarrow> int \<Rightarrow> int \<Rightarrow> string \<Rightarrow> unit call"

text \<open>\<open>None\<close> is the value of \<^verbatim>\<open>m_socket\<close> after the default constructor, which leaves it uninitialised.\<close>

record TcpSocket =
  m_socket :: "int option"

definition TcpSocket_new :: TcpSocket where
  "TcpSocket_new = \<lparr>m_socket = None\<rparr>"

definition TcpSocket_of :: "int \<Rightarrow> TcpSocket" where
  "TcpSocket_of connfd = \<lparr>m_socket = Some connfd\<rparr>"

definition ParamError :: int where "ParamError = 3001"
definition TimeoutError :: int where "TimeoutError = ParamError + 1"
definition PeerCloseError :: int where "PeerCloseError = ParamError + 2"
definition MallocError :: int where "MallocError = ParamError + 3"

lemmas error_defs = ParamError_def TimeoutError_def PeerCloseError_def MallocError_def

text \<open>Reading an uninitialised member is undefined behaviour.\<close>

definition the_socket :: "TcpSocket \<Rightarrow> int call" where
  "the_socket this = (case m_socket this of None \<Rightarrow> fault | Some fd \<Rightarrow> ret fd)"

lemma the_socket_Ret: "the_socket this s = (Ret fd, t) \<Longrightarrow> t = s"
  by (auto simp: the_socket_def prog_basics split: option.splits)

section \<open>Block transfers\<close>

text \<open>
  \<^verbatim>\<open>count\<close> is an \<^verbatim>\<open>int\<close> here, converted to \<^verbatim>\<open>size_t\<close> for the number of bytes left; at the end of the
  stream the methods return the number of bytes transferred.
\<close>

function this_readn_loop :: "TcpSocket \<Rightarrow> int \<Rightarrow> nat \<Rightarrow> byte list \<Rightarrow> (int \<times> byte list) call" where
  "this_readn_loop this count nleft acc s =
     (if 0 < nleft then
        bnd (the_socket this) (\<lambda>fd. bnd (sys_read fd nleft) (\<lambda>x t. case x of (nread, bs) \<Rightarrow>
          if nread < 0 then
            (if errno t = EINTR then this_readn_loop this count nleft acc t else ret (-1, acc) t)
          else if nread = 0 then ret (int (c_size count - nleft), acc) t
          else this_readn_loop this count (nleft - nat nread) (acc @ bs) t)) s
      else ret (count, acc) s)"
  by pat_completeness auto
termination
  by (relation "measure (\<lambda>(this, n, nleft, acc, s). length (sched s))")
    (auto dest!: the_socket_Ret dest: rd.shorter)

definition this_readn :: "TcpSocket \<Rightarrow> int \<Rightarrow> (int \<times> byte list) call" where
  "this_readn this count = this_readn_loop this count (c_size count) []"

function this_writen_loop :: "TcpSocket \<Rightarrow> int \<Rightarrow> byte list \<Rightarrow> int call" where
  "this_writen_loop this count bs s =
     (if bs \<noteq> [] then
        bnd (the_socket this) (\<lambda>fd. bnd (sys_write fd bs) (\<lambda>nwritten t.
          if nwritten < 0 then
            (if errno t = EINTR then this_writen_loop this count bs t else ret (-1) t)
          else if nwritten = 0 then this_writen_loop this count bs t
          else this_writen_loop this count (drop (nat nwritten) bs) t)) s
      else ret count s)"
  by pat_completeness auto
termination
  by (relation "measure (\<lambda>(this, n, bs, s). length (sched s))")
    (auto dest!: the_socket_Ret dest: wr.shorter)

definition this_writen :: "TcpSocket \<Rightarrow> byte list \<Rightarrow> int call" where
  "this_writen this bs = this_writen_loop this (int (length bs)) bs"

declare this_readn_loop.simps [simp del] this_writen_loop.simps [simp del]

section \<open>Blocking mode and time limits\<close>

definition blockIO :: "logger \<Rightarrow> int \<Rightarrow> int call" where
  "blockIO Log fd =
     bnd (sys_fcntl_getfl fd) (\<lambda>flags.
       if flags = -1 then
         bnd (Log ''TcpSocket.cpp'' 238 flags ''func activate_nonblock() err'') (\<lambda>_. ret flags)
       else bnd (sys_fcntl_setfl fd (flags OR O_NONBLOCK)) (\<lambda>r.
         if r = -1 then
           bnd (Log ''TcpSocket.cpp'' 246 r ''func activate_nonblock() err'') (\<lambda>_. ret r)
         else ret r))"

definition noBlockIO :: "logger \<Rightarrow> int \<Rightarrow> int call" where
  "noBlockIO Log fd =
     bnd (sys_fcntl_getfl fd) (\<lambda>flags.
       if flags = -1 then
         bnd (Log ''TcpSocket.cpp'' 263 flags ''func deactivate_nonblock() err'') (\<lambda>_. ret flags)
       else bnd (sys_fcntl_setfl fd (flags AND NOT O_NONBLOCK)) (\<lambda>r.
         if r = -1 then
           bnd (Log ''TcpSocket.cpp'' 271 r ''func deactivate_nonblock() err'') (\<lambda>_. ret r)
         else ret r))"

definition readTimeout :: "TcpSocket \<Rightarrow> nat \<Rightarrow> int call" where
  "readTimeout this wait_seconds =
     (if 0 < wait_seconds then
        bnd (the_socket this) (\<lambda>fd.
        bnd (FD_SET fd) (\<lambda>_.
        bnd select_retry (\<lambda>r.
          if r = 0 then bnd (set_errno ETIMEDOUT) (\<lambda>_. ret (-1))
          else if r = 1 then ret 0
          else ret r)))
      else ret 0)"

definition writeTimeout :: "TcpSocket \<Rightarrow> nat \<Rightarrow> int call" where
  "writeTimeout this wait_seconds =
     (if 0 < wait_seconds then
        bnd (the_socket this) (\<lambda>fd.
        bnd (FD_SET fd) (\<lambda>_.
        bnd select_retry (\<lambda>r.
          if r = 0 then bnd (set_errno ETIMEDOUT) (\<lambda>_. ret (-1))
          else if r = 1 then ret 0
          else ret r)))
      else ret 0)"

text \<open>The end of \<^verbatim>\<open>connectTimeout\<close>, and the whole.\<close>

definition connect_back :: "logger \<Rightarrow> TcpSocket \<Rightarrow> nat \<Rightarrow> int \<Rightarrow> int call" where
  "connect_back Log this wait_seconds r =
     (if 0 < wait_seconds then bnd (the_socket this) (\<lambda>fd. bnd (noBlockIO Log fd) (\<lambda>_. ret r))
      else ret r)"

definition connectTimeout :: "logger \<Rightarrow> TcpSocket \<Rightarrow> 32 word \<Rightarrow> 16 word \<Rightarrow> nat \<Rightarrow> int call" where
  "connectTimeout Log this a p wait_seconds =
     bnd (if 0 < wait_seconds then bnd (the_socket this) (blockIO Log) else ret 0) (\<lambda>_.
     bnd (the_socket this) (\<lambda>fd.
     bnd (sys_connect fd a p) (\<lambda>r.
     bnd (gets errno) (\<lambda>e.
       if r < 0 \<and> e = EINPROGRESS then
         bnd (FD_SET fd) (\<lambda>_.
         bnd select_retry (\<lambda>r.
           if r = 0 then bnd (set_errno ETIMEDOUT) (\<lambda>_. connect_back Log this wait_seconds (-1))
           else if r < 0 then ret (-1)
           else if r = 1 then
             bnd (sys_so_error fd) (\<lambda>(sockoptret, err).
               if sockoptret = -1 then ret (-1)
               else if err = 0 then connect_back Log this wait_seconds 0
               else bnd (set_errno err) (\<lambda>_. connect_back Log this wait_seconds (-1)))
           else connect_back Log this wait_seconds r))
       else connect_back Log this wait_seconds r))))"

section \<open>The public methods\<close>

text \<open>A method that changes the object returns it; \<^verbatim>\<open>port\<close> is an \<^verbatim>\<open>unsigned short\<close>.\<close>

definition connectToHost ::
  "logger \<Rightarrow> TcpSocket \<Rightarrow> string option \<Rightarrow> 16 word \<Rightarrow> int \<Rightarrow> (int \<times> TcpSocket) call" where
  "connectToHost Log this ip port timeout =
     (if ip = None \<or> uint port \<le> 0 \<or> uint port > 65535 \<or> timeout < 0 then
        bnd (Log ''TcpSocket.cpp'' 36 ParamError ''func sckClient_connect() err, check  (ip==NULL || connfd==NULL || port<=0 || port>65537 || connecttime < 0)'')
          (\<lambda>_. ret (ParamError, this))
      else
        bnd sys_socket (\<lambda>fd. let this = this\<lparr>m_socket := Some fd\<rparr> in
          if fd < 0 then bnd (gets errno) (\<lambda>e. ret (e, this))
          else
            bnd (gets (\<lambda>s. (inet_addr s (the ip), htons (le s) port))) (\<lambda>(a, p).
            bnd (connectTimeout Log this a p (c_uint timeout)) (\<lambda>r.
            bnd (gets errno) (\<lambda>e.
              if r < 0 then
                (if r = -1 \<and> e = ETIMEDOUT then ret (TimeoutError, this)
                 else bnd (Log ''TcpSocket.cpp'' 65 r ''func connect_timeout() err'') (\<lambda>_. ret (r, this)))
              else ret (r, this))))))"

definition sendMsg :: "logger \<Rightarrow> TcpSocket \<Rightarrow> byte list option \<Rightarrow> int \<Rightarrow> int \<Rightarrow> int call" where
  "sendMsg Log this sendData dataLen timeout =
     (if sendData = None \<or> dataLen \<le> 0 then
        bnd (Log ''TcpSocket.cpp'' 79 ParamError ''func sckClient_send() err, check (data == NULL || datalen <= 0)'')
          (\<lambda>_. ret ParamError)
      else
        bnd (writeTimeout this (c_uint timeout)) (\<lambda>r.
          if r = 0 then
            bnd (require (dataLen + 4 \<le> INT_MAX)) (\<lambda>_.
            bnd (malloc (c_size (dataLen + 4))) (\<lambda>netdata.
              case netdata of
                None \<Rightarrow> ret MallocError
              | Some b \<Rightarrow>
                  bnd (require (nat dataLen \<le> length (the sendData))) (\<lambda>_.
                  bnd (gets le) (\<lambda>l.
                  bnd (this_writen this
                      (mem_of l (htonl l (word_of_int dataLen)) @ take (nat dataLen) (the sendData))) (\<lambda>writed.
                    if writed < dataLen + 4 then bnd (free b) (\<lambda>_. ret writed)
                    else bnd (free b) (\<lambda>_. ret r))))))
          else
            bnd (gets errno) (\<lambda>e.
              if r < 0 then (if r = -1 \<and> e = ETIMEDOUT then ret TimeoutError else ret r)
              else ret r)))"

text \<open>
  \<^verbatim>\<open>recvLen\<close> is a reference to the caller's \<^verbatim>\<open>int\<close>, whose value the check compares with
  \<^verbatim>\<open>NULL\<close>, that is, with 0. The second result is what is stored in \<^verbatim>\<open>*recvData\<close> and \<^verbatim>\<open>recvLen\<close>.
\<close>

definition recvMsg :: "logger \<Rightarrow> TcpSocket \<Rightarrow> bool \<Rightarrow> int \<Rightarrow> int \<Rightarrow> rev_result call" where
  "recvMsg Log this recvData recvLen timeout =
     (if \<not> recvData \<or> recvLen = 0 then ret (ParamError, None)
      else
        bnd (readTimeout this (c_uint timeout)) (\<lambda>r.
        bnd (gets errno) (\<lambda>e.
          if r \<noteq> 0 then
            (if r = -1 \<or> e = ETIMEDOUT then
               bnd (Log ''TcpSocket.cpp'' 148 TimeoutError ''func read_timeout() timeout'')
                 (\<lambda>_. ret (TimeoutError, None))
             else bnd (Log ''TcpSocket.cpp'' 153 r ''func read_timeout() err'') (\<lambda>_. ret (r, None)))
          else
            bnd (this_readn this 4) (\<lambda>(r, hdr).
              if r = -1 then bnd (Log ''TcpSocket.cpp'' 163 r ''func readn() err'') (\<lambda>_. ret (r, None))
              else if r < 4 then
                bnd (Log ''TcpSocket.cpp'' 170 PeerCloseError ''func readn() err, peer closed'')
                  (\<lambda>_. ret (PeerCloseError, None))
              else
                bnd (gets le) (\<lambda>l.
                let n = sint (ntohl l (of_mem l hdr)) in
                bnd (require (n + 1 \<le> INT_MAX)) (\<lambda>_.
                bnd (malloc (c_size (n + 1))) (\<lambda>tmpBuf.
                  case tmpBuf of
                    None \<Rightarrow>
                      bnd (Log ''TcpSocket.cpp'' 180 MallocError ''malloc() err'') (\<lambda>_. ret (MallocError, None))
                  | Some b \<Rightarrow>
                      bnd (this_readn this n) (\<lambda>(r, bs).
                      bnd (require (length bs \<le> c_size (n + 1))) (\<lambda>_.
                        if r = -1 then bnd (Log ''TcpSocket.cpp'' 189 r ''readn() err'') (\<lambda>_. ret (r, None))
                        else if r < n then
                          bnd (Log ''TcpSocket.cpp'' 196 PeerCloseError ''func readn() err,  peer closed'')
                            (\<lambda>_. ret (PeerCloseError, None))
                        else
                          bnd (require (0 \<le> n)) (\<lambda>_. ret (0, Some (b, bs @ [0], n))))))))))))"

definition disConnect :: "TcpSocket \<Rightarrow> unit call" where
  "disConnect this =
     bnd (the_socket this) (\<lambda>fd. if fd \<ge> 0 then bnd (sys_close fd) (\<lambda>_. ret ()) else ret ())"

text \<open>\<^verbatim>\<open>*buf\<close> is read without a check of \<^verbatim>\<open>buf\<close> (\<open>None\<close> the null pointer); the result is what it holds then.\<close>

definition freeMemory :: "nat option option \<Rightarrow> nat option call" where
  "freeMemory buf = (case buf of
      None \<Rightarrow> fault
    | Some None \<Rightarrow> ret None
    | Some (Some b) \<Rightarrow> bnd (free b) (\<lambda>_. ret None))"

section \<open>The interface of the logger\<close>

text \<open>
  What the methods need of a logger: an entry that fits returns and leaves descriptors, memory
  and the answers of the kernel alone. The logger of the repository's C library provides it.
\<close>

locale quiet_logger =
  fixes Log :: logger
  assumes quiet: "log_safe s \<Longrightarrow> length file \<le> 100 \<Longrightarrow> 0 \<le> line \<Longrightarrow> line \<le> 1000 \<Longrightarrow> length msg \<le> 1000 \<Longrightarrow>
      INT_MIN \<le> st \<Longrightarrow> st \<le> INT_MAX \<Longrightarrow> \<exists>t. Log file line st msg s = (Ret (), t) \<and>
        sched t = sched s \<and> fds t = fds s \<and> heap t = heap s \<and> env t = env s"
begin

lemma runs_quiet:
  assumes "log_safe s" "length file \<le> 100" "0 \<le> line" "line \<le> 1000" "length msg \<le> 1000"
    "INT_MIN \<le> st" "st \<le> INT_MAX" "\<And>t. fds t = fds s \<Longrightarrow> heap t = heap s \<Longrightarrow> env t = env s \<Longrightarrow> R a t"
  shows "runs (bnd (Log file line st msg) (\<lambda>_. ret a)) R F s"
  using quiet [OF assms(1-7)] assms(8) by (fastforce simp: runs_def ret_def)

end

definition Socket_Log_error :: logger where
  "Socket_Log_error file line st msg = Socket_Log file line (SocketLevel ! 4) st msg"

interpretation repo_log: quiet_logger Socket_Log_error
  by unfold_locales (auto simp: Socket_Log_error_def SocketLevel_def Socket_Log_logged log_args_ok_def
      INT_MIN_def INT_MAX_def)

text \<open>The entries of \<^verbatim>\<open>recvMsg\<close>, in the order of the common receiving routine.\<close>

definition cpp_log :: "(int \<times> string) list" where
  "cpp_log = [(163, ''func readn() err''), (170, ''func readn() err, peer closed''),
     (180, ''malloc() err''), (189, ''readn() err''), (196, ''func readn() err,  peer closed''),
     (148, ''func read_timeout() timeout''), (153, ''func read_timeout() err'')]"

definition cpp_entries :: "logger \<Rightarrow> nat \<Rightarrow> int \<Rightarrow> unit call" where
  "cpp_entries Log i st = Log ''TcpSocket.cpp'' (fst (cpp_log ! i)) st (snd (cpp_log ! i))"

lemma cpp_log_fits: "i < 7 \<Longrightarrow> 0 \<le> fst (cpp_log ! i) \<and> fst (cpp_log ! i) \<le> 1000 \<and> length (snd (cpp_log ! i)) \<le> 1000"
proof -
  have "list_all (\<lambda>(l, m). 0 \<le> l \<and> l \<le> 1000 \<and> length m \<le> 1000) cpp_log" "length cpp_log = 7"
    by (simp_all add: cpp_log_def)
  then show "i < 7 \<Longrightarrow> ?thesis" by (auto simp: list_all_length split_def)
qed

sublocale quiet_logger < recv_entry: entry_logger "cpp_entries Log"
  by unfold_locales (use cpp_log_fits in \<open>auto simp: cpp_entries_def intro!: quiet\<close>)

lemma getfl_runs:
  "fds s fd = Some c \<Longrightarrow> runs (sys_fcntl_getfl fd) (\<lambda>v t. heap t = heap s \<and> env t = env s \<and> fds t = fds s \<and>
     (v = -1 \<or> v = flags c)) never s"
  by (auto simp: runs_def sys_fcntl_getfl_def syscall_def ret_def split: sys_splits)

lemma setfl_runs:
  "fds s fd = Some c \<Longrightarrow> runs (sys_fcntl_setfl fd v) (\<lambda>r t. heap t = heap s \<and> env t = env s \<and>
     (r = 0 \<and> fds t = (fds s)(fd \<mapsto> c\<lparr>flags := v\<rparr>) \<or> r = -1 \<and> fds t = fds s)) never s"
  by (auto simp: runs_def sys_fcntl_setfl_def sys_on_fd_def syscall_def ret_def split: sys_splits)

text \<open>Changing the flags through \<^verbatim>\<open>fcntl\<close>, with a log entry on either failure.\<close>

context quiet_logger
begin

lemma switch_runs:
  assumes fd: "fds s fd = Some c" and safe: "log_safe s" and msg: "length msg \<le> 1000"
    and lines: "0 \<le> i" "i \<le> 1000" "0 \<le> j" "j \<le> 1000"
  shows "runs (bnd (sys_fcntl_getfl fd) (\<lambda>v.
      if v = -1 then bnd (Log ''TcpSocket.cpp'' i v msg) (\<lambda>_. ret v)
      else bnd (sys_fcntl_setfl fd (g v)) (\<lambda>r.
        if r = -1 then bnd (Log ''TcpSocket.cpp'' j r msg) (\<lambda>_. ret r) else ret r)))
    (\<lambda>r t. heap t = heap s \<and> env t = env s \<and>
      fds t = (fds s)(fd \<mapsto> c\<lparr>flags := if r = 0 then g (flags c) else flags c\<rparr>) \<and> (r = 0 \<or> r = -1)) never s"
    (is "runs _ ?R never s")
proof -
  have same: "(fds s)(fd \<mapsto> c\<lparr>flags := flags c\<rparr>) = fds s" using fd by (simp add: fun_upd_idem)
  have log: "runs (bnd (Log ''TcpSocket.cpp'' l (-1) msg) (\<lambda>_. ret (-1))) ?R never t"
    if "heap t = heap s" "env t = env s" "fds t = fds s" "0 \<le> l" "l \<le> 1000" for t l
    by (rule runs_quiet) (use that safe msg log_safe_env [of t s] same in \<open>auto simp: INT_MIN_def INT_MAX_def\<close>)
  have set: "runs (bnd (sys_fcntl_setfl fd (g (flags c))) (\<lambda>r.
        if r = -1 then bnd (Log ''TcpSocket.cpp'' j r msg) (\<lambda>_. ret r) else ret r)) ?R never t"
    if t: "heap t = heap s" "env t = env s" "fds t = fds s" for t
  proof (rule runs_bnd [OF setfl_runs [of t fd c]], goal_cases)
    case (2 r u)
    then show ?case using t lines by (cases "r = -1") (auto intro!: log runs_ret)
  qed (use t fd in auto)
  show ?thesis
    by (rule runs_bnd [OF getfl_runs [OF fd]]) (use lines in \<open>auto intro!: log set\<close>)
qed

end

sublocale quiet_logger < mode: blocking_mode "blockIO Log" "noBlockIO Log"
proof (unfold_locales, goal_cases)
  case (1 s fd c)
  then show ?case unfolding blockIO_def by (rule switch_runs) simp_all
next
  case (2 s fd c)
  then show ?case unfolding noBlockIO_def by (rule switch_runs) simp_all
qed

section \<open>The methods and the C routines\<close>

lemma the_socket_Some: "m_socket this = Some fd \<Longrightarrow> the_socket this = ret fd"
  by (simp add: the_socket_def)

lemma this_writen_eq:
  assumes "m_socket this = Some fd"
  shows "this_writen this bs = writen fd bs"
proof -
  have "m_socket this = Some fd \<Longrightarrow> this_writen_loop this (int n) xs s = writen_loop fd n xs s" for n xs s
    by (induction fd n xs s rule: writen_loop.induct)
      (subst this_writen_loop.simps, subst writen_loop.simps, auto simp: the_socket_Some intro!: bnd_cong)
  with assms show ?thesis by (simp add: this_writen_def writen_def fun_eq_iff)
qed

lemma time_limits_eq:
  "m_socket this = Some fd \<Longrightarrow> readTimeout this w = read_timeout fd w"
  "m_socket this = Some fd \<Longrightarrow> writeTimeout this w = write_timeout fd w"
  by (simp_all add: readTimeout_def read_timeout_def writeTimeout_def write_timeout_def the_socket_Some)

text \<open>\<^verbatim>\<open>readn\<close> differs from the C routine only in what it returns when all of a negative \<^verbatim>\<open>count\<close> was read.\<close>

lemma sys_read_length: "sys_read fd n s = (Ret (r, bs), t) \<Longrightarrow> 0 < r \<Longrightarrow> length bs = nat r \<and> nat r \<le> n"
  by (auto simp: sys_read_def syscall_def ret_def fail_with_def Let_def split: sys_splits)

definition counted :: "int \<Rightarrow> nat \<Rightarrow> (int \<times> byte list) res \<times> os \<Rightarrow> (int \<times> byte list) res \<times> os" where
  "counted count n x = (case x of
     (Ret (r, bs), t) \<Rightarrow> (Ret (if length bs = n then count else r, bs), t) | _ \<Rightarrow> x)"

lemma counted_bnd:
  assumes "\<And>a t. m s = (Ret a, t) \<Longrightarrow> f a t = counted count n (g a t)"
  shows "bnd m f s = counted count n (bnd m g s)"
  using assms by (cases "m s"; cases "fst (m s)") (auto simp: counted_def)

lemma this_readn_loop_eq:
  "m_socket this = Some fd \<Longrightarrow> k = c_size count \<Longrightarrow>
   this_readn_loop this count nleft acc s = counted count (length acc + nleft) (readn_loop fd k nleft acc s)"
proof (induction fd k nleft acc s rule: readn_loop.induct)
  case (1 fd k nleft acc s)
  show ?case
  proof (cases "0 < nleft")
    case True
    have "bnd (sys_read fd nleft) (\<lambda>x t. case x of (nread, bs) \<Rightarrow>
          if nread < 0 then
            (if errno t = EINTR then this_readn_loop this count nleft acc t else ret (-1, acc) t)
          else if nread = 0 then ret (int (c_size count - nleft), acc) t
          else this_readn_loop this count (nleft - nat nread) (acc @ bs) t) s =
        counted count (length acc + nleft) (bnd (sys_read fd nleft) (\<lambda>x t. case x of (nread, bs) \<Rightarrow>
          if nread < 0 then
            (if errno t = EINTR then readn_loop fd k nleft acc t else ret (-1, acc) t)
          else if nread = 0 then ret (int (k - nleft), acc) t
          else readn_loop fd k (nleft - nat nread) (acc @ bs) t) s)"
    proof (rule counted_bnd, clarify, goal_cases)
      case (1 r bs t)
      show ?case
        using 1 True "1.prems" "1.IH" [OF True 1, OF refl] sys_read_length [OF 1]
        by (auto simp: counted_def ret_def)
    qed
    with True "1.prems"(1) show ?thesis
      by (subst this_readn_loop.simps, subst readn_loop.simps) (simp add: the_socket_Some)
  next
    case False
    then show ?thesis
      by (subst this_readn_loop.simps, subst readn_loop.simps) (simp add: counted_def ret_def)
  qed
qed

lemma this_readn_eq:
  assumes "m_socket this = Some fd"
  shows "this_readn this n s = counted n (c_size n) (readn fd (c_size n) s)"
  by (simp add: this_readn_def readn_def this_readn_loop_eq [OF assms refl])

lemma this_readn_nonneg:
  assumes "m_socket this = Some fd" "0 \<le> n" "n \<le> INT_MAX"
  shows "this_readn this n = readn fd (nat n)"
proof -
  have "m_socket this = Some fd \<Longrightarrow> k = nat n \<Longrightarrow>
      this_readn_loop this n nleft acc s = readn_loop fd k nleft acc s" for k nleft acc s
    by (induction fd k nleft acc s rule: readn_loop.induct)
      (subst this_readn_loop.simps, subst readn_loop.simps,
        use assms(2,3) in \<open>auto simp: the_socket_Some intro!: bnd_cong\<close>)
  with assms show ?thesis by (simp add: this_readn_def readn_def fun_eq_iff)
qed

lemma sendMsg_eq:
  assumes "m_socket this = Some fd" "0 < n"
  shows "sendMsg Log this (Some bs) n tm = sckClient_send fd tm (Some bs) n"
  using assms
  by (simp add: sendMsg_def sckClient_send_def time_limits_eq this_writen_eq error_defs Sck_defs cong: if_cong option.case_cong)

text \<open>What is read with a negative \<^verbatim>\<open>count\<close> is thrown away or overflows the buffer.\<close>

lemma this_readn_checked:
  assumes "m_socket this = Some fd" "INT_MIN \<le> n" "n + 1 \<le> INT_MAX" "c_size (n + 1) \<le> PTRDIFF_MAX"
    "\<And>r r' bs. c_size (n + 1) < length bs \<Longrightarrow> f (r, bs) = f (r', bs)"
  shows "bnd (this_readn this n) f = bnd (readn fd (c_size n)) f"
proof (cases "0 \<le> n")
  case True
  with assms show ?thesis by (simp add: this_readn_nonneg)
next
  case False
  moreover have "\<not> n + 1 < 0" using assms(2,4) c_size_neg [of "n + 1"] by (auto simp: PTRDIFF_MAX_def INT_MIN_def)
  ultimately have "n = -1" by simp
  then have lt: "c_size (n + 1) < c_size n" by (simp add: c_size_def)
  show ?thesis
  proof
    fix s
    obtain x t where x: "readn fd (c_size n) s = (x, t)" by fastforce
    show "bnd (this_readn this n) f s = bnd (readn fd (c_size n)) f s"
    proof (cases x)
      case (Ret y)
      obtain r bs where y: "y = (r, bs)" by (cases y)
      have "f (if length bs = c_size n then n else r, bs) = f (r, bs)"
        using assms(5) [of bs n r] lt by (cases "length bs = c_size n") simp_all
      with x Ret y show ?thesis by (simp add: bnd_def this_readn_eq [OF assms(1)] counted_def)
    qed (use x in \<open>simp_all add: bnd_def this_readn_eq [OF assms(1)] counted_def\<close>)
  qed
qed

text \<open>\<^verbatim>\<open>recvMsg\<close> is the common receiving routine with the log entries of the class.\<close>

lemma malloc_small: "malloc n s = (Ret (Some b), t) \<Longrightarrow> n \<le> PTRDIFF_MAX"
  by (auto simp: malloc_def syscall_def fail_with_def ret_def split: sys_splits)

lemma this_receive_data:
  assumes "m_socket this = Some fd" "INT_MIN \<le> n" "n + 1 \<le> INT_MAX" "c_size (n + 1) \<le> PTRDIFF_MAX"
  shows "bnd (this_readn this n) (\<lambda>(r, bs).
     bnd (require (length bs \<le> c_size (n + 1))) (\<lambda>_.
       if r = -1 then bnd (lg 3 r) (\<lambda>_. ret (r, None))
       else if r < n then bnd (lg 4 Sck_ErrPeerClosed) (\<lambda>_. ret (Sck_ErrPeerClosed, None))
       else bnd (require (0 \<le> n)) (\<lambda>_. ret (0, Some (b, bs @ [0], n))))) = receive_data lg fd n b"
  unfolding receive_data_def
  by (rule this_readn_checked [OF assms]) (simp add: fun_eq_iff require_def bnd_def fault_def)

lemma recvMsg_receive:
  assumes "m_socket this = Some fd" "n0 \<noteq> 0"
  shows "recvMsg Log this True n0 tm = receive_timed (cpp_entries Log) fd (c_uint tm)"
proof -
  let ?lg = "cpp_entries Log"
  have four: "this_readn this 4 = readn fd 4"
    using this_readn_nonneg [OF assms(1), of 4] by (simp add: INT_MAX_def)
  have sized: "(bnd (require (n + 1 \<le> INT_MAX)) (\<lambda>_. bnd (malloc (c_size (n + 1))) (\<lambda>tmpBuf. case tmpBuf of
        None \<Rightarrow> bnd (?lg 2 Sck_ErrMalloc) (\<lambda>_. ret (Sck_ErrMalloc, None))
      | Some b \<Rightarrow> bnd (this_readn this n) (\<lambda>(r, bs).
          bnd (require (length bs \<le> c_size (n + 1))) (\<lambda>_.
            if r = -1 then bnd (?lg 3 r) (\<lambda>_. ret (r, None))
            else if r < n then bnd (?lg 4 Sck_ErrPeerClosed) (\<lambda>_. ret (Sck_ErrPeerClosed, None))
            else bnd (require (0 \<le> n)) (\<lambda>_. ret (0, Some (b, bs @ [0], n)))))))) = receive_sized ?lg fd n"
    if "INT_MIN \<le> n" for n
  proof
    fix s
    show "(bnd (require (n + 1 \<le> INT_MAX)) (\<lambda>_. bnd (malloc (c_size (n + 1))) (\<lambda>tmpBuf. case tmpBuf of
        None \<Rightarrow> bnd (?lg 2 Sck_ErrMalloc) (\<lambda>_. ret (Sck_ErrMalloc, None))
      | Some b \<Rightarrow> bnd (this_readn this n) (\<lambda>(r, bs).
          bnd (require (length bs \<le> c_size (n + 1))) (\<lambda>_.
            if r = -1 then bnd (?lg 3 r) (\<lambda>_. ret (r, None))
            else if r < n then bnd (?lg 4 Sck_ErrPeerClosed) (\<lambda>_. ret (Sck_ErrPeerClosed, None))
            else bnd (require (0 \<le> n)) (\<lambda>_. ret (0, Some (b, bs @ [0], n)))))))) s = receive_sized ?lg fd n s"
      unfolding receive_sized_def
    proof (intro bnd_cong refl, goal_cases)
      case (1 a t x u)
      then have "n + 1 \<le> INT_MAX" by (auto simp: require_def prog_basics split: if_splits)
      with 1 that show ?case
        by (cases x) (simp_all add: this_receive_data [OF assms(1)] malloc_small)
    qed
  qed
  have head: "INT_MIN \<le> sint (w :: 32 word)" for w
    using sint_ge [of w] by (simp add: INT_MIN_def)
  show ?thesis
    using assms(2)
    by (simp add: recvMsg_def receive_timed_def receive_def time_limits_eq [OF assms(1)] four Let_def
        sized [OF head, symmetric] error_defs Sck_defs cpp_entries_def cpp_log_def cong: if_cong option.case_cong)
qed

context quiet_logger
begin

lemma entry_logger_cpp: "entry_logger (cpp_entries Log)"
  by (rule recv_entry.entry_logger_axioms)

end

lemmas cpp_entry_logger = quiet_logger.entry_logger_cpp

section \<open>What a caller sees\<close>

text \<open>The result of a call with the descriptors, the heap, the environment and the answers left, but not the log.\<close>

definition seen :: "'a res \<times> os \<Rightarrow> 'a res \<times> answer list \<times> (int \<Rightarrow> sock option) \<times> (nat list \<times> nat) \<times> bool" where
  "seen x = (fst x, sched (snd x), fds (snd x), heap (snd x), log_safe (snd x))"

lemma seen_bnd:
  assumes "\<And>a t. m s = (Ret a, t) \<Longrightarrow> seen (f a t) = seen (g a t)"
  shows "seen (bnd m f s) = seen (bnd m g s)"
  using assms by (cases "m s"; cases "fst (m s)") (auto simp: bnd_def)

lemma seen_entry:
  assumes "entry_logger lg" "entry_logger lg'" "log_safe s" "i < 7" "INT_MIN \<le> st" "st \<le> INT_MAX"
  shows "seen (bnd (lg i st) (\<lambda>_. ret a) s) = seen (bnd (lg' i st) (\<lambda>_. ret a) s)"
proof -
  obtain t u where t: "lg i st s = (Ret (), t)" "sched t = sched s" "fds t = fds s" "heap t = heap s" "env t = env s"
    and u: "lg' i st s = (Ret (), u)" "sched u = sched s" "fds u = fds s" "heap u = heap s" "env u = env s"
    using entry_logger.quiet [OF assms(1,3-6)] entry_logger.quiet [OF assms(2,3-6)] by blast
  from log_safe_env [OF t(5)] log_safe_env [OF u(5)] t u show ?thesis by (simp add: seen_def ret_def)
qed

lemma read_timeout_range: "read_timeout fd w s = (Ret r, t) \<Longrightarrow> r = 0 \<or> r = -1"
proof (cases "fd_in_range fd w")
  case True
  then show "read_timeout fd w s = (Ret r, t) \<Longrightarrow> ?thesis"
    using runs_Ret [OF read_timeout_runs] by (fastforce simp: limit_post_def)
next
  case False
  then show "read_timeout fd w s = (Ret r, t) \<Longrightarrow> ?thesis"
    by (simp add: read_timeout_def fd_in_range_def FD_SET_def require_def fault_def bnd_def split: if_splits)
qed

lemma seen_receive_timed:
  assumes lg: "entry_logger lg" "entry_logger lg'" and safe: "log_safe s"
  shows "seen (receive_timed lg fd w s) = seen (receive_timed lg' fd w s)"
proof -
  note ent = seen_entry [OF lg]
  have safe': "log_safe t" if "keeps env m" "m u = (x, t)" "log_safe u" for t u x and m :: "'x call"
    using that keepsD [OF that(1,2)] log_safe_env by blast
  have data: "seen (receive_data lg fd n b u) = seen (receive_data lg' fd n b u)" if "log_safe u" for n b u
    unfolding receive_data_def
    by (rule seen_bnd, clarify, rule seen_bnd)
      (auto intro!: ent seen_bnd dest!: safe' [OF readn.rdn_env _ that]
        simp: require_def prog_basics Sck_defs INT_MIN_def INT_MAX_def split: if_splits)
  have sized: "seen (receive_sized lg fd n u) = seen (receive_sized lg' fd n u)" if "log_safe u" for n u
    unfolding receive_sized_def
    by (rule seen_bnd, rule seen_bnd)
      (auto intro!: ent data dest!: safe' [OF keeps_env_sys(15) _ that]
        simp: require_def prog_basics Sck_defs INT_MIN_def INT_MAX_def split: if_splits option.split)
  have rec: "seen (receive lg fd u) = seen (receive lg' fd u)" if "log_safe u" for u
    unfolding receive_def
    by (rule seen_bnd)
      (auto intro!: ent seen_bnd sized dest!: safe' [OF readn.rdn_env _ that]
        simp: gets_def Sck_defs INT_MIN_def INT_MAX_def split: if_splits)
  show ?thesis
    unfolding receive_timed_def
  proof (rule seen_bnd, rule seen_bnd, goal_cases)
    case (1 r t e u)
    then have "log_safe t" "u = t" "r = 0 \<or> r = -1"
      using safe' [OF keeps_timeouts(1) _ safe] read_timeout_range by (auto simp: gets_def)
    then show ?case by (auto intro!: ent rec simp: Sck_defs INT_MIN_def INT_MAX_def)
  qed
qed

text \<open>
  C15: the C++ message layer is the C one. With valid arguments \<^verbatim>\<open>sendMsg\<close> of an object with a
  socket does exactly what \<^verbatim>\<open>sckClient_send\<close> does on that socket, on every kernel; \<^verbatim>\<open>recvMsg\<close>
  returns the same result and leaves the same streams and memory as \<^verbatim>\<open>sckClient_rev\<close>, also for
  broken heads, whatever logger is used. But when the caller's length variable is 0
  \<^verbatim>\<open>recvMsg\<close> refuses to receive: its check for a null pointer compares the referenced number.
\<close>

theorem cpp_messages:
  assumes "quiet_logger Log" "m_socket this = Some fd" "log_safe s" "0 < n" "n0 \<noteq> 0"
  shows "sendMsg Log this (Some bs) n tm = sckClient_send fd tm (Some bs) n \<and>
    seen (recvMsg Log this True n0 tm s) = seen (sckClient_rev fd tm True True s) \<and>
    recvMsg Log this True 0 tm s = (Ret (ParamError, None), s)"
proof (intro conjI)
  show "sendMsg Log this (Some bs) n tm = sckClient_send fd tm (Some bs) n"
    by (rule sendMsg_eq [OF assms(2,4)])
  show "seen (recvMsg Log this True n0 tm s) = seen (sckClient_rev fd tm True True s)"
    unfolding recvMsg_receive [OF assms(2,5)] sckClient_rev_receive
    by (rule seen_receive_timed [OF cpp_entry_logger [OF assms(1)] client_entry.entry_logger_axioms assms(3)])
  show "recvMsg Log this True 0 tm s = (Ret (ParamError, None), s)"
    by (simp add: recvMsg_def ret_def)
qed

theorem cpp_messages_witness:
  "fst (recvMsg Socket_Log_error (TcpSocket_of 3) True 1 0
      (demo_os [ok 4, ok 0, ok 2] [0, 0, 0, 2, 7, 8])) = Ret (0, Some (0, [7, 8, 0], 2)) \<and>
   fst (recvMsg Socket_Log_error (TcpSocket_of 3) True 0 0
      (demo_os [ok 4, ok 0, ok 2] [0, 0, 0, 2, 7, 8])) = Ret (ParamError, None)"
proof -
  let ?s = "demo_os [ok 4, ok 0, ok 2] [0, 0, 0, 2, 7, 8]"
  have "m_socket (TcpSocket_of 3) = Some 3" "log_safe ?s" by (simp_all add: TcpSocket_of_def demo_os_def log_safe_def)
  from cpp_messages [OF repo_log.quiet_logger_axioms this, of 1 1 "[]" 0]
  have "seen (recvMsg Socket_Log_error (TcpSocket_of 3) True 1 0 ?s) = seen (sckClient_rev 3 0 True True ?s)"
    "recvMsg Socket_Log_error (TcpSocket_of 3) True 0 0 ?s = (Ret (ParamError, None), ?s)" by simp_all
  moreover have "fst (sckClient_rev 3 0 True True ?s) = Ret (0, Some (0, [7, 8, 0], 2))"
    by (simp add: sckClient_rev_receive receive_timed_0 receive_def receive_sized_def receive_data_def gets_def
        readn_def readn_loop.simps sys_read_def syscall_def set_fd_def demo_os_def new_sock_def ret_def bnd_def
        require_def malloc_def PTRDIFF_MAX_def INT_MAX_def Let_def ntohl_of_mem c_size_def)
  ultimately show ?thesis by (simp add: seen_def)
qed

section \<open>C++ clients and C servers\<close>

context quiet_logger
begin

lemma cpp_sender: "message_sender (\<lambda>fd tm data n. sendMsg Log (TcpSocket_of fd) data n tm)"
proof (unfold_locales, goal_cases)
  case (1 fd tm bs n s t c)
  then show ?case
    by (intro client.sent) (simp_all add: sendMsg_eq TcpSocket_of_def)
qed

lemma cpp_receiver:
  "n0 \<noteq> 0 \<Longrightarrow> message_receiver (\<lambda>fd tm out _. recvMsg Log (TcpSocket_of fd) True n0 tm)"
  by unfold_locales (simp add: recvMsg_receive TcpSocket_of_def receive_timed_0 receive_total)

lemma cpp_c_channel: "channel (\<lambda>fd tm data n. sendMsg Log (TcpSocket_of fd) data n tm) sckServer_rev"
  by (intro channel.intro cpp_sender server.message_receiver_axioms)

lemma c_cpp_channel:
  "n0 \<noteq> 0 \<Longrightarrow> channel sckServer_send (\<lambda>fd tm out _. recvMsg Log (TcpSocket_of fd) True n0 tm)"
  by (intro channel.intro cpp_receiver server.message_sender_axioms)

end

text \<open>
  C16: a client built on the C++ class talks to a server built on the C library. The messages it
  sends with \<^verbatim>\<open>sendMsg\<close> on a new connection are received by \<^verbatim>\<open>sckServer_rev\<close> complete and in
  order, and the replies that the server sends with \<^verbatim>\<open>sckServer_send\<close> are received by
  \<^verbatim>\<open>recvMsg\<close> in the same way, in whatever pieces the streams are delivered.
\<close>

theorem cpp_client_c_server:
  assumes "quiet_logger Log" "n0 \<noteq> 0" "sendable ms" "fd_in_range fd (c_uint tm)" "log_safe s"
    "fds s fd = Some c" "sndq c = []"
    and "fds u fd' = Some d" "list_all serves (sched u)"
    "sum_list (map (\<lambda>m. 5 + length m) ms) \<le> length (sched u)"
  shows "(case send_all (\<lambda>fd tm data n. sendMsg Log (TcpSocket_of fd) data n tm) fd tm ms s of
       (Ret r, t) \<Rightarrow> r \<noteq> 0 \<or> rcvq d \<noteq> sndq (the (fds t fd)) @ rest \<or>
         (\<exists>v. recv_all sckServer_rev fd' (length ms) u = (Ret (Some ms), v) \<and> fds v = (fds u)(fd' \<mapsto> d\<lparr>rcvq := rest\<rparr>))
     | _ \<Rightarrow> True) \<and>
    (case send_all sckServer_send fd tm ms s of
       (Ret r, t) \<Rightarrow> r \<noteq> 0 \<or> rcvq d \<noteq> sndq (the (fds t fd)) @ rest \<or>
         (\<exists>v. recv_all (\<lambda>fd tm out _. recvMsg Log (TcpSocket_of fd) True n0 tm) fd' (length ms) u = (Ret (Some ms), v) \<and>
           fds v = (fds u)(fd' \<mapsto> d\<lparr>rcvq := rest\<rparr>))
     | _ \<Rightarrow> True)"
  using channel.in_order [OF quiet_logger.cpp_c_channel [OF assms(1)] _ assms(6,7,3,5,4,8) _ assms(9,10)]
    channel.in_order [OF quiet_logger.c_cpp_channel [OF assms(1,2)] _ assms(6,7,3,5,4,8) _ assms(9,10)]
  by (auto split: res.splits prod.splits)

theorem cpp_client_c_server_witness:
  "fst (recv_all sckServer_rev 3 2 (demo_os (replicate 20 (ok 2)) [0, 0, 0, 2, 1, 2, 0, 0, 0, 1, 3, 9])) =
     Ret (Some [[1, 2], [3]])"
proof -
  let ?s = "demo_os [ok 0, ok 6, ok 0, ok 5] []"
    and ?u = "demo_os (replicate 20 (ok 2)) [0, 0, 0, 2, 1, 2, 0, 0, 0, 1, 3, 9]"
    and ?send = "\<lambda>fd tm data n. sendMsg Socket_Log_error (TcpSocket_of fd) data n tm"
  have eq: "?send 3 0 (Some m) (int (length m)) = sckClient_send 3 0 (Some m) (int (length m))" if "m \<noteq> []" for m
    using that by (intro sendMsg_eq) (simp_all add: TcpSocket_of_def)
  obtain t where t: "send_all ?send 3 0 [[1, 2], [3]] ?s = (Ret 0, t)"
    "sndq (the (fds t 3)) = [0, 0, 0, 2, 1, 2, 0, 0, 0, 1, 3]"
    using eq [of "[1, 2]"] eq [of "[3]"] by (simp add: send_demo_defs)
  have u: "fds ?u 3 = Some (new_sock [0, 0, 0, 2, 1, 2, 0, 0, 0, 1, 3, 9] True)" by (simp add: demo_os_def)
  have "\<exists>v. recv_all sckServer_rev 3 (length [[1, 2], [3 :: byte]]) ?u = (Ret (Some [[1, 2], [3]]), v)"
    using cpp_client_c_server [OF repo_log.quiet_logger_axioms, of 1 "[[1, 2], [3]]" 3 0 ?s "new_sock [] True" ?u 3
        "new_sock [0, 0, 0, 2, 1, 2, 0, 0, 0, 1, 3, 9] True" "[9]"] t u
    by (auto simp: demo_os_def new_sock_def sendable_def INT_MAX_def log_safe_def fd_in_range_def list_all_iff
        simp del: send_all.simps recv_all.simps)
  then show ?thesis by (auto simp: numeral_2_eq_2 simp del: recv_all.simps)
qed

section \<open>Connecting\<close>

text \<open>
  \<^verbatim>\<open>connectTimeout\<close> is the connection attempt with the class's routines for the blocking mode.
\<close>

lemma connectTimeout_dial:
  assumes "m_socket this = Some fd"
  shows "connectTimeout Log this = dial (blockIO Log) (noBlockIO Log) fd"
  by (simp add: fun_eq_iff connectTimeout_def dial_def connect_back_def dial_finish_def the_socket_Some [OF assms]
      cong: if_cong)

definition to_host_post :: "string \<Rightarrow> 16 word \<Rightarrow> os \<Rightarrow> int \<times> TcpSocket \<Rightarrow> os \<Rightarrow> bool" where
  "to_host_post ip port s x t = (case x of (r, this') \<Rightarrow>
     (case m_socket this' of None \<Rightarrow> False
      | Some fd \<Rightarrow>
          fd < 0 \<and> 0 < r \<and> fds t = fds s \<and> heap t = heap s \<and> env t = env s \<or>
          (r = 0 \<or> r = -1 \<or> r = TimeoutError) \<and> connected ip (uint port) fd s t))"

lemma port_in_range: "port \<noteq> 0 \<Longrightarrow> \<not> uint (port :: 16 word) \<le> 0 \<and> \<not> 65535 < uint port"
  using uint_lt2p [of port] by (auto simp: word_less_eq_iff_unsigned uint_0_iff)

lemma uint_word_of [simp]: "(word_of_int (uint (p :: 16 word)) :: 16 word) = p"
  by simp

context quiet_logger
begin

lemma connectToHost_runs:
  assumes "port \<noteq> 0" "0 \<le> tm" "log_safe s"
  shows "runs (connectToHost Log this (Some y) port tm) (to_host_post y port s)
    (\<lambda>t. \<exists>fd \<ge> FD_SETSIZE. connected y (uint port) fd s t) s"
proof -
  let ?R = "to_host_post y port s" and ?F = "\<lambda>t. \<exists>fd \<ge> FD_SETSIZE. connected y (uint port) fd s t"
  have dial: "runs (bnd (connectTimeout Log (this\<lparr>m_socket := Some fd\<rparr>) (inet_addr u y) (htons (le u) port) (c_uint tm)) (\<lambda>r.
      bnd (gets errno) (\<lambda>e. if r < 0 then
           if r = -1 \<and> e = ETIMEDOUT then ret (TimeoutError, this\<lparr>m_socket := Some fd\<rparr>)
           else bnd (Log ''TcpSocket.cpp'' 65 r ''func connect_timeout() err'') (\<lambda>_. ret (r, this\<lparr>m_socket := Some fd\<rparr>))
         else ret (r, this\<lparr>m_socket := Some fd\<rparr>)))) ?R ?F u"
    if u: "heap u = heap s" "env u = env s" "0 \<le> fd" "fds s fd = None"
      "fds u = (fds s)(fd \<mapsto> new_sock [] False)" for fd u
  proof -
    have safe: "log_safe u" using assms(3) u(2) log_safe_env by blast
    have con: "connected y (uint port) fd s t"
      if "dialled fd (inet_addr u y) (htons (le u) port) (new_sock [] False) u t" for t
      using that u env_eqD [OF u(2)] by (intro dialled_connected [where u = u]) simp_all
    have log: "runs (bnd (Log ''TcpSocket.cpp'' 65 (-1) ''func connect_timeout() err'')
        (\<lambda>_. ret (-1, this\<lparr>m_socket := Some fd\<rparr>))) ?R ?F t"
      if c: "connected y (uint port) fd s t" for t
    proof -
      have safe': "log_safe t" using c assms(3) log_safe_env [of t s] by (simp add: connected_def)
      have "connected y (uint port) fd s v" if "fds v = fds t" "heap v = heap t" "env v = env t" for v
        using c that by (simp add: connected_def)
      with safe' show ?thesis
        by (intro runs_quiet) (auto simp: INT_MIN_def INT_MAX_def to_host_post_def)
    qed
    show ?thesis
      unfolding connectTimeout_dial [of "this\<lparr>m_socket := Some fd\<rparr>" fd, simplified]
      by (rule runs_bnd [OF mode.dial_runs [OF _ safe]])
        (use u log in \<open>auto intro!: runs_intros simp: to_host_post_def dest!: con\<close>)
  qed
  note port = port_in_range [OF assms(1)]
  show ?thesis
    unfolding connectToHost_def
    using assms(2) port
    by (auto simp: Let_def to_host_post_def [of _ _ _ "(_, _)"] intro!: runs_intros runs_bnd [OF sys_socket_runs] dial)
qed

end

lemma disConnect_runs:
  assumes "m_socket this = Some fd" "fds s fd \<noteq> None \<or> fd < 0"
  shows "runs (disConnect this) (\<lambda>_ t. heap t = heap s \<and> env t = env s \<and>
    fds t = (if fd < 0 then fds s else (fds s)(fd := None))) never s"
  using assms
  by (auto simp: runs_def disConnect_def the_socket_Some bnd_def ret_def sys_close_def syscall_def split: sys_splits)

lemma disConnect_restores:
  assumes "to_host_post ip port s (r, that) t"
  shows "runs (disConnect that) (\<lambda>_ u. fds u = fds s \<and> heap u = heap s) never t"
proof -
  from assms obtain fd where fd: "m_socket that = Some fd"
    and post: "fd < 0 \<and> fds t = fds s \<and> heap t = heap s \<or> connected ip (uint port) fd s t"
    by (auto simp: to_host_post_def split: option.splits)
  then have opn: "fds t fd \<noteq> None \<or> fd < 0" and h: "heap t = heap s"
    by (auto simp: connected_def split: option.splits)
  have undone: "(if fd < 0 then fds t else (fds t)(fd := None)) x = fds s x" for x
    using post by (auto simp: connected_def dest: fun_cong [of _ _ x])
  show ?thesis
  proof (rule runs_mono [OF disConnect_runs [OF fd opn]], elim conjE, intro conjI ext, goal_cases)
    case (1 a u x)
    with undone [of x] show ?case by simp
  qed (use h in simp_all)
qed



text \<open>
  \<^verbatim>\<open>disConnect\<close> does not reset \<^verbatim>\<open>m_socket\<close>. Once an object has been disconnected and another
  one has been given the same descriptor for its connection, disconnecting the first one
  again closes the connection of the second, and every step reports success.
\<close>

theorem disConnect_twice:
  assumes "m_socket a = Some fd" "0 \<le> fd" "fds s fd \<noteq> None" "port \<noteq> 0"
    "sched s = [ok i, ok (nat fd), ok j, ok k]"
  shows "\<exists>t b'. bnd (disConnect a) (\<lambda>_. bnd (connectToHost Log b (Some ip) port 0) (\<lambda>(r, b').
      bnd (disConnect a) (\<lambda>_. ret (r, b')))) s = (Ret (0, b'), t) \<and> m_socket b' = Some fd \<and> fds t fd = None"
  using assms port_in_range [OF assms(4)]
  by (auto simp: disConnect_def the_socket_def connectToHost_def connectTimeout_def connect_back_def
        sys_close_def syscall_def sys_socket_def open_fd_def set_fd_def sys_connect_def sys_on_fd_def new_sock_def
        bnd_def ret_def gets_def Let_def)

theorem disConnect_twice_witness:
  "\<exists>t b'. bnd (disConnect (TcpSocket_of 3)) (\<lambda>_. bnd (connectToHost Socket_Log_error TcpSocket_new (Some ''::'') 80 0)
      (\<lambda>(r, b'). bnd (disConnect (TcpSocket_of 3)) (\<lambda>_. ret (r, b')))) (demo_os [ok 0, ok 3, ok 0, ok 0] []) =
     (Ret (0, b'), t) \<and> m_socket b' = Some 3 \<and> fds t 3 = None"
  by (rule disConnect_twice) (simp_all add: TcpSocket_of_def demo_os_def)

section \<open>Definite initialisation\<close>

text \<open>
  A sequence of calls on one object, and a check of it: the object is not used before a
  \<^verbatim>\<open>connectToHost\<close> that accepts its arguments. A call that refuses its arguments uses nothing.
\<close>

datatype tcp_call =
    Connect_to "string option" "16 word" int
  | Send_msg "byte list option" int int
  | Recv_msg bool int int
  | Dis_connect

fun call_on :: "logger \<Rightarrow> tcp_call \<Rightarrow> TcpSocket \<Rightarrow> (int \<times> TcpSocket) call" where
  "call_on Log (Connect_to ip port tm) this = connectToHost Log this ip port tm"
| "call_on Log (Send_msg data n tm) this = bnd (sendMsg Log this data n tm) (\<lambda>r. ret (r, this))"
| "call_on Log (Recv_msg out n tm) this = bnd (recvMsg Log this out n tm) (\<lambda>(r, _). ret (r, this))"
| "call_on Log Dis_connect this = bnd (disConnect this) (\<lambda>_. ret (0, this))"

fun calls_on :: "logger \<Rightarrow> tcp_call list \<Rightarrow> TcpSocket \<Rightarrow> int list call" where
  "calls_on Log [] this = ret []"
| "calls_on Log (c # cs) this =
     bnd (call_on Log c this) (\<lambda>(r, that). bnd (calls_on Log cs that) (\<lambda>rs. ret (r # rs)))"

fun refused :: "tcp_call \<Rightarrow> bool" where
  "refused (Connect_to ip port tm) \<longleftrightarrow> ip = None \<or> port = 0 \<or> tm < 0"
| "refused (Send_msg data n tm) \<longleftrightarrow> data = None \<or> n \<le> 0"
| "refused (Recv_msg out n tm) \<longleftrightarrow> \<not> out \<or> n = 0"
| "refused Dis_connect \<longleftrightarrow> False"

fun initialised :: "tcp_call list \<Rightarrow> bool" where
  "initialised [] \<longleftrightarrow> True"
| "initialised (c # cs) \<longleftrightarrow>
     (if refused c then initialised cs else (case c of Connect_to ip port tm \<Rightarrow> True | _ \<Rightarrow> False))"

lemma call_refused:
  "refused c \<Longrightarrow>
   call_on Log c this = bnd (bnd (call_on Log c TcpSocket_new) (\<lambda>(r, _). ret r)) (\<lambda>r. ret (r, this))"
  by (cases c) (auto simp: connectToHost_def sendMsg_def recvMsg_def bnd_assoc)

lemma m_socket_upd: "(this :: TcpSocket)\<lparr>m_socket := x\<rparr> = \<lparr>m_socket = x\<rparr>"
  by (cases this) simp

lemma connect_fresh:
  "\<not> refused (Connect_to ip port tm) \<Longrightarrow> connectToHost Log this ip port tm = connectToHost Log that ip port tm"
  using port_in_range [of port] by (cases ip) (simp_all add: connectToHost_def m_socket_upd)

text \<open>
  C39: the check is sound. A sequence of calls that passes it never depends on the indeterminate
  value that the default constructor leaves in \<^verbatim>\<open>m_socket\<close>: whatever was there, also no value at
  all, the results and the effects are the same. What it rejects can be undefined: a
  \<^verbatim>\<open>disConnect\<close> of an object that was never connected always is.
\<close>

theorem initialised_sound:
  assumes "initialised cs"
  shows "calls_on Log cs this = calls_on Log cs that \<and>
    calls_on Log (Dis_connect # cs) TcpSocket_new s = (Fault, s)"
proof
  show "calls_on Log cs this = calls_on Log cs that"
    using assms
  proof (induction cs)
    case (Cons c cs)
    show ?case
    proof (cases "refused c")
      case True
      obtain m where "\<And>this. call_on Log c this = bnd m (\<lambda>r. ret (r, this))"
        using call_refused [OF True] by blast
      with Cons True show ?thesis by (simp add: bnd_assoc)
    next
      case False
      with Cons.prems obtain ip port tm where "c = Connect_to ip port tm" by (auto split: tcp_call.splits)
      with False show ?thesis using connect_fresh [of ip port tm Log this that] by simp
    qed
  qed simp
qed (simp add: disConnect_def the_socket_def TcpSocket_new_def bnd_def fault_def)

theorem initialised_sound_witness:
  "calls_on Socket_Log_error [Connect_to None 80 0, Connect_to (Some ''::'') 80 0, Dis_connect] TcpSocket_new =
   calls_on Socket_Log_error [Connect_to None 80 0, Connect_to (Some ''::'') 80 0, Dis_connect] (TcpSocket_of 7)"
  using initialised_sound [of "[Connect_to None 80 0, Connect_to (Some ''::'') 80 0, Dis_connect]"
      Socket_Log_error TcpSocket_new "TcpSocket_of 7"] by simp

end
