(* ===== verification/Tcp_Server.thy ===== *)
theory Tcp_Server
  imports Tcp_Socket
begin

text \<open>
  The C++ server class, \<^verbatim>\<open>src/C++socket/TcpServer.cpp\<close>: an object that holds the listening
  descriptor and hands out \<^verbatim>\<open>TcpSocket\<close> objects for the connections it accepts. The logger is an
  argument, as in the socket class. The peer's address, which \<^verbatim>\<open>accept\<close> stores and nothing
  reads, is left out.
\<close>

section \<open>Definitions\<close>

record TcpServer =
  m_lfd :: "int option"

definition TcpServer_new :: TcpServer where
  "TcpServer_new = \<lparr>m_lfd = None\<rparr>"

definition the_lfd :: "TcpServer \<Rightarrow> int call" where
  "the_lfd this = (case m_lfd this of None \<Rightarrow> fault | Some fd \<Rightarrow> ret fd)"

definition setListen :: "logger \<Rightarrow> TcpServer \<Rightarrow> 16 word \<Rightarrow> (int \<times> TcpServer) call" where
  "setListen Log this port =
     bnd (gets (\<lambda>s. (htonl (le s) INADDR_ANY, htons (le s) port))) (\<lambda>(a, p).
     bnd sys_socket (\<lambda>fd. let this = this\<lparr>m_lfd := Some fd\<rparr> in
       if fd < 0 then
         bnd (gets errno) (\<lambda>e. bnd (Log ''TcpServer.cpp'' 30 e ''func socket() err'') (\<lambda>_. ret (e, this)))
       else
         bnd (sys_setsockopt fd) (\<lambda>r.
           if r < 0 then
             bnd (gets errno) (\<lambda>e. bnd (Log ''TcpServer.cpp'' 40 e ''func setsockopt() err'') (\<lambda>_. ret (e, this)))
           else
             bnd (sys_bind fd a p) (\<lambda>r.
               if r < 0 then
                 bnd (gets errno) (\<lambda>e. bnd (Log ''TcpServer.cpp'' 49 e ''func bind() err'') (\<lambda>_. ret (e, this)))
               else
                 bnd (sys_listen fd) (\<lambda>r.
                   if r < 0 then
                     bnd (gets errno) (\<lambda>e. bnd (Log ''TcpServer.cpp'' 57 e ''func listen() err'') (\<lambda>_. ret (e, this)))
                   else ret (r, this))))))"

definition acceptTimeout :: "logger \<Rightarrow> TcpServer \<Rightarrow> int \<Rightarrow> int call" where
  "acceptTimeout Log this wait_seconds =
     bnd (if 0 < wait_seconds then
            bnd (the_lfd this) (\<lambda>fd.
            bnd (FD_SET fd) (\<lambda>_.
            bnd select_retry (\<lambda>r.
              if r = -1 then ret False
              else if r = 0 then bnd (set_errno ETIMEDOUT) (\<lambda>_. ret False)
              else ret True)))
          else ret True) (\<lambda>go.
       if \<not> go then ret (-1)
       else
         bnd (the_lfd this) (\<lambda>fd.
         bnd (sys_accept fd) (\<lambda>r.
           if r = -1 then
             bnd (gets errno) (\<lambda>e. bnd (Log ''TcpServer.cpp'' 121 e ''func accept() err'') (\<lambda>_. ret e))
           else ret r)))"

text \<open>
  The result of \<^verbatim>\<open>acceptConn\<close>: a null pointer, a new object in a heap block of its own, or the
  exception of \<^verbatim>\<open>new\<close> when there is no memory.
\<close>

datatype accept_result = Null_socket | New_socket nat TcpSocket | Bad_alloc

definition acceptConn :: "logger \<Rightarrow> TcpServer \<Rightarrow> int \<Rightarrow> accept_result call" where
  "acceptConn Log this timeout =
     bnd (acceptTimeout Log this timeout) (\<lambda>connfd.
     bnd (gets errno) (\<lambda>e.
       if connfd < 0 then
         (if connfd = -1 \<and> e = ETIMEDOUT then
            bnd (Log ''TcpServer.cpp'' 72 connfd ''func acceptConn() TimeOutError'') (\<lambda>_. ret Null_socket)
          else bnd (Log ''TcpServer.cpp'' 76 connfd ''func acceptConn() OtherError'') (\<lambda>_. ret Null_socket))
       else
         bnd (malloc 8) (\<lambda>p.
           case p of None \<Rightarrow> ret Bad_alloc | Some b \<Rightarrow> ret (New_socket b (TcpSocket_of connfd)))))"

definition closefd :: "TcpServer \<Rightarrow> unit call" where
  "closefd this = bnd (the_lfd this) (\<lambda>fd. bnd (sys_close fd) (\<lambda>_. ret ()))"

section \<open>Listening\<close>

text \<open>Every failing answer of the kernel carries an error number, as \<^verbatim>\<open>errno\<close> does after a failed call.\<close>

definition real_errors :: "answer list \<Rightarrow> bool" where
  "real_errors xs = list_all (\<lambda>a. case a of Err e \<Rightarrow> 0 < e \<and> e \<le> INT_MAX | Ok k bs f \<Rightarrow> True) xs"

text \<open>
  What is true while the server is being set up: the new socket is the only change since \<open>s\<close>.
\<close>

definition set_up :: "int \<Rightarrow> os \<Rightarrow> os \<Rightarrow> (sock \<Rightarrow> bool) \<Rightarrow> bool" where
  "set_up fd s t P \<longleftrightarrow> 0 \<le> fd \<and> fds s fd = None \<and> heap t = heap s \<and> env t = env s \<and> real_errors (sched t) \<and>
     (\<exists>c. fds t = (fds s)(fd \<mapsto> c) \<and> P c)"

lemma sys_on_fd_runs:
  assumes "set_up fd s u P" "\<And>bs f c. P c \<Longrightarrow> Q (g bs f c)"
  shows "runs (sys_on_fd fd g) (\<lambda>r t. r = 0 \<and> set_up fd s t Q \<or>
    r = -1 \<and> set_up fd s t P \<and> 0 < errno t \<and> errno t \<le> INT_MAX) never u"
  using assms
  by (auto simp: runs_def sys_on_fd_def syscall_def ret_def set_up_def real_errors_def list_all_iff split: sys_splits)

lemma sys_socket_set_up:
  "real_errors (sched s) \<Longrightarrow> runs sys_socket (\<lambda>fd t.
     fd = -1 \<and> fds t = fds s \<and> heap t = heap s \<and> env t = env s \<and> 0 < errno t \<and> errno t \<le> INT_MAX \<or>
     set_up fd s t (\<lambda>_. True)) never s"
  by (auto simp: runs_def sys_socket_def syscall_def open_fd_def fail_with_def EMFILE_def INT_MAX_def set_up_def
      real_errors_def list_all_iff split: sys_splits)

definition listen_post :: "16 word \<Rightarrow> os \<Rightarrow> int \<times> TcpServer \<Rightarrow> os \<Rightarrow> bool" where
  "listen_post port s x t = (case x of (r, that) \<Rightarrow>
     (case m_lfd that of None \<Rightarrow> False
      | Some fd \<Rightarrow>
          fd < 0 \<and> 0 < r \<and> fds t = fds s \<or>
          0 \<le> fd \<and> fds s fd = None \<and> heap t = heap s \<and> (\<exists>c. fds t = (fds s)(fd \<mapsto> c) \<and>
            (0 < r \<or> r = 0 \<and> listening c \<and> addr c = Some (htonl (le s) INADDR_ANY, htons (le s) port)))))"

context quiet_logger
begin

text \<open>A failed call is logged, and the object keeps the descriptor.\<close>

lemma setListen_fail:
  assumes "log_safe s" "set_up fd s t P" "0 < errno t" "errno t \<le> INT_MAX" "0 \<le> i" "i \<le> 1000" "length msg \<le> 1000"
  shows "runs (bnd (gets errno) (\<lambda>e. bnd (Log ''TcpServer.cpp'' i e msg) (\<lambda>_. ret (e, this\<lparr>m_lfd := Some fd\<rparr>))))
    (listen_post port s) never t"
proof -
  have "log_safe t" using assms(1,2) log_safe_env [of t s] by (simp add: set_up_def)
  then show ?thesis
    by (intro runs_bnd_gets runs_quiet) (use assms in \<open>auto simp: listen_post_def set_up_def INT_MIN_def\<close>)
qed

text \<open>One call on the new descriptor, which either fails or leads on.\<close>

lemma setListen_stage:
  assumes "log_safe s" "set_up fd s t P" "\<And>bs f c. P c \<Longrightarrow> Q (g bs f c)" "0 \<le> i" "i \<le> 1000" "length msg \<le> 1000"
    "\<And>u. set_up fd s u Q \<Longrightarrow> runs (k 0) (listen_post port s) never u"
  shows "runs (bnd (sys_on_fd fd g) (\<lambda>r. if r < 0 then
      bnd (gets errno) (\<lambda>e. bnd (Log ''TcpServer.cpp'' i e msg) (\<lambda>_. ret (e, this\<lparr>m_lfd := Some fd\<rparr>)))
    else k r)) (listen_post port s) never t"
proof (rule runs_bnd [OF sys_on_fd_runs [OF assms(2), of Q g]], goal_cases)
  case (2 r u)
  then show ?case using assms(4-7) by (auto intro: setListen_fail [OF assms(1)])
qed (use assms(3) in auto)

lemma setListen_rest:
  fixes port :: "16 word"
  assumes "log_safe s" "set_up fd s t (\<lambda>_. True)"
  defines "a \<equiv> htonl (le s) INADDR_ANY" and "p \<equiv> htons (le s) port"
  shows "runs (bnd (sys_setsockopt fd) (\<lambda>r. if r < 0 then
      bnd (gets errno) (\<lambda>e. bnd (Log ''TcpServer.cpp'' 40 e ''func setsockopt() err'') (\<lambda>_. ret (e, this\<lparr>m_lfd := Some fd\<rparr>)))
    else bnd (sys_bind fd a p) (\<lambda>r. if r < 0 then
      bnd (gets errno) (\<lambda>e. bnd (Log ''TcpServer.cpp'' 49 e ''func bind() err'') (\<lambda>_. ret (e, this\<lparr>m_lfd := Some fd\<rparr>)))
    else bnd (sys_listen fd) (\<lambda>r. if r < 0 then
      bnd (gets errno) (\<lambda>e. bnd (Log ''TcpServer.cpp'' 57 e ''func listen() err'') (\<lambda>_. ret (e, this\<lparr>m_lfd := Some fd\<rparr>)))
    else ret (r, this\<lparr>m_lfd := Some fd\<rparr>))))) (listen_post port s) never t"
proof -
  note stage = setListen_stage [OF assms(1), where port = port]
  have finished: "runs (ret (0, this\<lparr>m_lfd := Some fd\<rparr>)) (listen_post port s) never u"
    if "set_up fd s u (\<lambda>c. addr c = Some (a, p) \<and> listening c)" for u
    using that by (intro runs_ret) (auto simp: listen_post_def set_up_def a_def p_def)
  show ?thesis
    unfolding sys_setsockopt_def sys_bind_def sys_listen_def
    by (rule stage [OF assms(2), of "\<lambda>_. True"], simp_all, rule stage [where Q = "\<lambda>c. addr c = Some (a, p)"], assumption, simp_all,
        rule stage [where Q = "\<lambda>c. addr c = Some (a, p) \<and> listening c"], assumption, simp_all add: finished)
qed

lemma setListen_runs:
  assumes "log_safe s" "real_errors (sched s)"
  shows "runs (setListen Log this port) (listen_post port s) never s"
proof -
  have none: "runs (bnd (gets errno) (\<lambda>e. bnd (Log ''TcpServer.cpp'' 30 e ''func socket() err'') (\<lambda>_. ret (e, this\<lparr>m_lfd := Some (-1)\<rparr>))))
      (listen_post port s) never t"
    if "fds t = fds s" "env t = env s" "0 < errno t" "errno t \<le> INT_MAX" for t
    by (intro runs_bnd_gets runs_quiet)
      (use that assms(1) log_safe_env [OF that(2)] in \<open>auto simp: listen_post_def INT_MIN_def\<close>)
  show ?thesis
    unfolding setListen_def
  proof (intro runs_bnd_gets, simp only: prod.case, rule runs_bnd [OF sys_socket_set_up [OF assms(2)]], goal_cases)
    case (1 fd t)
    show ?case
    proof (cases "fd < 0")
      case True
      with 1 show ?thesis by (auto simp: Let_def set_up_def intro!: none)
    next
      case False
      with 1 show ?thesis by (simp add: Let_def setListen_rest [OF assms(1)])
    qed
  qed auto
qed

end

text \<open>
  \<^verbatim>\<open>setListen\<close> on every kernel whose failures carry an error number, and for every logger. The
  object holds the new socket on every path, so \<^verbatim>\<open>closefd\<close> closes what was opened. 0 means
  that the socket listens on every address and the given port, in network order; otherwise
  the positive error number of the failed call is returned. No other descriptor changes, and
  nothing is undefined.
\<close>

theorem setListen_outcome:
  assumes "quiet_logger Log" "log_safe s" "real_errors (sched s)"
  shows "case setListen Log this port s of
      (Ret (r, that), t) \<Rightarrow> (case m_lfd that of None \<Rightarrow> False
        | Some fd \<Rightarrow> fd < 0 \<and> 0 < r \<and> fds t = fds s \<or>
            0 \<le> fd \<and> fds s fd = None \<and> heap t = heap s \<and> (\<exists>c. fds t = (fds s)(fd \<mapsto> c) \<and>
              (0 < r \<or> r = 0 \<and> listening c \<and> addr c = Some (htonl (le s) INADDR_ANY, htons (le s) port))) \<and>
            (case closefd that t of (Ret _, u) \<Rightarrow> fds u = fds s | (Block, u) \<Rightarrow> True | _ \<Rightarrow> False))
    | (Block, t) \<Rightarrow> True
    | _ \<Rightarrow> False"
proof -
  note c = quiet_logger.setListen_runs [OF assms, of this port]
  have cl: "case closefd that t of (Ret _, u) \<Rightarrow> fds u = fds s | (Block, u) \<Rightarrow> True | _ \<Rightarrow> False"
    if "m_lfd that = Some fd" "fds s fd = None" "fds t = (fds s)(fd \<mapsto> c)" for that t fd c
    using that by (auto simp: closefd_def the_lfd_def bnd_def ret_def sys_close_def syscall_def fun_upd_idem
        split: sys_splits)
  obtain x t where x: "setListen Log this port s = (x, t)" by fastforce
  show ?thesis
  proof (cases x)
    case (Ret y)
    obtain r that where y: "y = (r, that)" by fastforce
    with runs_Ret [OF c] x Ret have post: "listen_post port s (r, that) t" by simp
    then obtain fd where fd: "m_lfd that = Some fd" by (auto simp: listen_post_def split: option.splits)
    define Q where "Q \<longleftrightarrow> (case closefd that t of (Ret _, u) \<Rightarrow> fds u = fds s | (Block, u) \<Rightarrow> True | _ \<Rightarrow> False)"
    have "fds s fd = None \<Longrightarrow> fds t = (fds s)(fd \<mapsto> c) \<Longrightarrow> Q" for c
      unfolding Q_def by (rule cl [OF fd])
    then show ?thesis
      unfolding x Ret y prod.case res.case fd option.case Q_def [symmetric]
      using post [unfolded listen_post_def prod.case fd option.case] by blast
  qed (use c x in \<open>auto simp: runs_def\<close>)
qed

theorem setListen_outcome_witness:
  "case setListen Socket_Log_error TcpServer_new 80 (demo_os [ok 4, ok 0, ok 0, Err 98] []) of
     (Ret (r, that), t) \<Rightarrow> r = 98 \<and> fds t 4 \<noteq> None | _ \<Rightarrow> False"
proof -
  let ?s = "demo_os [ok 4, ok 0, ok 0, Err 98] []"
  have safe: "log_safe ?s" "real_errors (sched ?s)"
    by (simp_all add: demo_os_def log_safe_def real_errors_def INT_MAX_def)
  have "\<exists>t. setListen Socket_Log_error TcpServer_new 80 ?s = (Ret (98, \<lparr>m_lfd = Some 4\<rparr>), t)"
    by (simp add: setListen_def TcpServer_new_def demo_os_def sys_socket_def syscall_def open_fd_def set_fd_def bnd_def Let_def
        gets_def sys_setsockopt_def sys_bind_def sys_listen_def sys_on_fd_def new_sock_def ret_def Socket_Log_error_def
        Socket_Log_logged log_safe_def log_args_ok_def SocketLevel_def INT_MAX_def INT_MIN_def)
  with setListen_outcome [OF repo_log.quiet_logger_axioms safe, where this = TcpServer_new and port = 80] show ?thesis by auto
qed

section \<open>Accepting\<close>

text \<open>
  A failed \<^verbatim>\<open>accept\<close> makes an object on the error number. \<^verbatim>\<open>acceptTimeout\<close> returns the
  positive number as if it were a descriptor, and \<^verbatim>\<open>acceptConn\<close> returns an object that holds
  it. When the caller disconnects that object, the descriptor of this number is closed,
  whoever it belongs to.
\<close>

theorem acceptConn_error_object:
  assumes "quiet_logger Log" "log_safe s" "m_lfd this = Some lfd" "tm \<le> 0" "0 \<le> e" "e \<le> INT_MAX"
    "sched s = [Err e, ok i, ok j]"
  shows "\<exists>t b. acceptConn Log this tm s = (Ret (New_socket b (TcpSocket_of e)), t) \<and> fds t = fds s \<and>
    (\<exists>r u. disConnect (TcpSocket_of e) t = (Ret r, u) \<and> fds u = (fds s)(e := None))"
proof -
  let ?u = "s\<lparr>sched := [ok i, ok j], errno := e\<rparr>"
  obtain v where v: "Log ''TcpServer.cpp'' 121 e ''func accept() err'' ?u = (Ret (), v)"
    "sched v = [ok i, ok j]" "fds v = fds s"
    using quiet_logger.quiet [OF assms(1), of ?u "''TcpServer.cpp''" 121 "''func accept() err''" e] assms(2,5,6)
    by (auto simp: INT_MIN_def)
  have "acceptTimeout Log this tm s = (Ret e, v)"
    using assms(3,4,7) v(1)
    by (simp add: acceptTimeout_def the_lfd_def sys_accept_def syscall_def bnd_def ret_def gets_def)
  with v assms(5) show ?thesis
    by (auto simp: acceptConn_def bnd_def gets_def ret_def malloc_def syscall_def PTRDIFF_MAX_def disConnect_def
        the_socket_def TcpSocket_of_def sys_close_def fail_with_def fun_upd_idem)
qed

theorem acceptConn_error_object_witness:
  "\<exists>t b. acceptConn Socket_Log_error \<lparr>m_lfd = Some 5\<rparr> 0 (demo_os [Err 3, ok 0, ok 0] []) =
     (Ret (New_socket b (TcpSocket_of 3)), t) \<and> fds t 3 \<noteq> None \<and>
     (\<exists>r u. disConnect (TcpSocket_of 3) t = (Ret r, u) \<and> fds u 3 = None)"
proof -
  have "log_safe (demo_os [Err 3, ok 0, ok 0] [])" by (simp add: demo_os_def log_safe_def)
  from acceptConn_error_object [OF repo_log.quiet_logger_axioms this, of "\<lparr>m_lfd = Some 5\<rparr>" 5 0 3 0 0]
  show ?thesis by (auto simp: demo_os_def INT_MAX_def)
qed

end
