(* ===== verification/Poolsocket.thy ===== *)
theory Poolsocket
  imports Connections Messages
begin

text \<open>
  The pool of client connections, \<^verbatim>\<open>src/Csocket/poolsocket.c\<close>. The handle is a record that
  every operation takes and returns; \<open>None\<close> is the null handle. Every operation runs under
  the handle's mutex, so that the calls of several threads are a sequence of operations.
\<close>

section \<open>Definitions\<close>

definition Sck_Err_Pool_CreateConn :: int where "Sck_Err_Pool_CreateConn = Sck_BaseErr + 20"
definition Sck_Err_Pool_terminated :: int where "Sck_Err_Pool_terminated = Sck_BaseErr + 21"
definition Sck_Err_Pool_GetConn_ValidIsZero :: int where "Sck_Err_Pool_GetConn_ValidIsZero = Sck_BaseErr + 22"
definition Sck_Err_Pool_HaveExist :: int where "Sck_Err_Pool_HaveExist = Sck_BaseErr + 22"
definition Sck_Err_Pool_ValidBounds :: int where "Sck_Err_Pool_ValidBounds = Sck_BaseErr + 22"

lemmas pool_codes = Sck_Err_Pool_CreateConn_def Sck_Err_Pool_terminated_def
  Sck_Err_Pool_GetConn_ValidIsZero_def Sck_Err_Pool_HaveExist_def Sck_Err_Pool_ValidBounds_def

record SCKClitPoolParam =
  pserverip :: string
  pserverport :: int
  pbounds :: int
  pconnecttime :: int
  psendtime :: int
  prevtime :: int

text \<open>A pointer field: null, to a heap block, or not initialised.\<close>

datatype ptr = Null | Blk nat | Wild

text \<open>
  The handle. \<open>hdlBlk\<close> is the block it lives in, \<open>fdPtr\<close> and \<open>statusPtr\<close> are the pointers of its
  two arrays, \<open>fdArray\<close> and \<open>statusArray\<close> what they point to, \<open>locked\<close> the state of the mutex.
\<close>

record SockePoolHandle =
  hdlBlk :: nat
  fdPtr :: ptr
  fdArray :: "int list"
  statusPtr :: ptr
  statusArray :: "int list"
  valid :: int
  nvalid :: int
  bounds :: int
  serverip :: string
  serverport :: int
  connecttime :: int
  sendtime :: int
  revtime :: int
  sTimeout :: int
  locked :: bool
  terminated :: int

abbreviation plog :: "int \<Rightarrow> int \<Rightarrow> string \<Rightarrow> unit call" where
  "plog line status msg \<equiv> Socket_Log ''poolsocket.c'' line (SocketLevel ! 4) status msg"

definition utf8 :: "nat list \<Rightarrow> string" where
  "utf8 = map char_of"

text \<open>The Chinese parts of three messages: too few connections; closing, reconnecting failed.\<close>

definition msg_too_few :: string where
  "msg_too_few = utf8 [230, 156, 137, 230, 149, 136, 232, 191, 158, 230, 142, 165, 230, 149, 176, 32,
     229, 176, 143, 228, 186, 142, 32, 230, 128, 187, 230, 149, 176]"

definition msg_close_failed :: string where
  "msg_close_failed = utf8 [230, 150, 173, 229, 188, 128, 229, 157, 143, 230, 142, 137, 231, 154, 132, 232, 191, 158,
     230, 142, 165, 229, 164, 177, 232, 180, 165]"

definition msg_repair_failed :: string where
  "msg_repair_failed = utf8 [230, 150, 173, 233, 147, 190, 228, 191, 174, 229, 164, 141, 32, 233, 135, 141, 230, 150, 176,
     232, 191, 158, 230, 142, 165, 229, 164, 177, 232, 180, 165]"

text \<open>Array accesses with their bounds, the mutex, and \<^verbatim>\<open>free\<close> of a pointer that is not null.\<close>

definition at :: "int list \<Rightarrow> int \<Rightarrow> int call" where
  "at xs i = (if 0 \<le> i \<and> i < int (length xs) then ret (xs ! nat i) else fault)"

definition upd_at :: "int list \<Rightarrow> int \<Rightarrow> int \<Rightarrow> int list call" where
  "upd_at xs i v = (if 0 \<le> i \<and> i < int (length xs) then ret (xs[nat i := v]) else fault)"

definition mutex_lock :: "SockePoolHandle \<Rightarrow> SockePoolHandle call" where
  "mutex_lock p = (if locked p then block else ret (p\<lparr>locked := True\<rparr>))"

definition mutex_unlock :: "SockePoolHandle \<Rightarrow> SockePoolHandle call" where
  "mutex_unlock p = ret (p\<lparr>locked := False\<rparr>)"

definition free_ptr :: "ptr \<Rightarrow> unit call" where
  "free_ptr q = (case q of Null \<Rightarrow> ret () | Blk b \<Rightarrow> free b | Wild \<Rightarrow> fault)"

text \<open>
  \<^verbatim>\<open>sckClient_connect\<close> with \<^verbatim>\<open>&hdl->fdArray[i]\<close> as its output pointer.
\<close>

definition connect_slot :: "SockePoolHandle \<Rightarrow> int \<Rightarrow> (int \<times> SockePoolHandle) call" where
  "connect_slot p i =
     bnd (sckClient_connect (Some (serverip p)) (serverport p) (connecttime p) True) (\<lambda>(r, out).
       case out of
         None \<Rightarrow> ret (r, p)
       | Some fd \<Rightarrow> bnd (upd_at (fdArray p) i fd) (\<lambda>xs. ret (r, p\<lparr>fdArray := xs\<rparr>)))"

subsection \<open>\<^verbatim>\<open>sckCltPool_init\<close>\<close>

text \<open>The connecting loop with \<open>k\<close> slots to go; the first argument of the result is \<^verbatim>\<open>ret\<close>.\<close>

primrec init_connect :: "nat \<Rightarrow> int \<Rightarrow> SockePoolHandle \<Rightarrow> (int \<times> SockePoolHandle) call" where
  "init_connect 0 r p = ret (r, p)"
| "init_connect (Suc k) r p = (let i = bounds p - int (Suc k) in
     bnd (connect_slot p i) (\<lambda>(r, p).
       if r \<noteq> 0 then bnd (plog 107 r ''func sckClient_connect() err'') (\<lambda>_. ret (r, p))
       else
         bnd (upd_at (statusArray p) i 1) (\<lambda>ys.
         init_connect k r (p\<lparr>statusArray := ys, valid := valid p + 1, nvalid := nvalid p - 1\<rparr>))))"

primrec init_close :: "nat \<Rightarrow> SockePoolHandle \<Rightarrow> unit call" where
  "init_close 0 p = ret ()"
| "init_close (Suc k) p = (let i = bounds p - int (Suc k) in
     bnd (at (statusArray p) i) (\<lambda>st.
       if st = 1 then
         bnd (at (fdArray p) i) (\<lambda>fd. bnd (sckClient_closeconn fd) (\<lambda>_. init_close k p))
       else init_close k p))"

text \<open>The part after the label \<^verbatim>\<open>END\<close>.\<close>

definition init_end :: "bool \<Rightarrow> int \<Rightarrow> SockePoolHandle \<Rightarrow> (int \<times> SockePoolHandle option) call" where
  "init_end handle r p =
     bnd (mutex_unlock p) (\<lambda>p.
       if r \<noteq> 0 then
         bnd (free_ptr (fdPtr p)) (\<lambda>_.
         bnd (free_ptr (statusPtr p)) (\<lambda>_.
         bnd (free (hdlBlk p)) (\<lambda>_.
         bnd (plog 139 r ''func pthread_mutex_unlock() err'') (\<lambda>_. ret (r, None)))))
       else bnd (require handle) (\<lambda>_. ret (r, Some p)))"

text \<open>
  The fresh handle: the \<^verbatim>\<open>memset\<close> clears \<^verbatim>\<open>sizeof(hdl)\<close> bytes, the size of a pointer, so only
  \<^verbatim>\<open>fdArray\<close> is null; \<^verbatim>\<open>statusArray\<close> and \<^verbatim>\<open>terminated\<close> hold what the memory held (\<open>junk\<close>, words 1 and 2).
\<close>

definition fresh_handle :: "os \<Rightarrow> nat \<Rightarrow> SCKClitPoolParam \<Rightarrow> SockePoolHandle" where
  "fresh_handle s b param =
     \<lparr>hdlBlk = b, fdPtr = Null, fdArray = [],
      statusPtr = (if junk s b 1 = 0 then Null else Wild), statusArray = [],
      valid = 0, nvalid = pbounds param, bounds = pbounds param,
      serverip = pserverip param, serverport = pserverport param, connecttime = pconnecttime param,
      sendtime = psendtime param, revtime = prevtime param, sTimeout = 1, locked = False,
      terminated = junk s b 2\<rparr>"

definition array_size :: "int \<Rightarrow> nat" where
  "array_size n = c_size n * 4 mod 2 ^ 64"

text \<open>With both arrays allocated: connect, and undo everything when a connection is missing.\<close>

definition init_run :: "bool \<Rightarrow> SockePoolHandle \<Rightarrow> (int \<times> SockePoolHandle option) call" where
  "init_run handle p =
     bnd sckClient_init (\<lambda>r.
       if r \<noteq> 0 then init_end handle r p
       else
         bnd (init_connect (nat (bounds p)) r p) (\<lambda>(r, p).
           if valid p < bounds p then
             bnd (plog 121 Sck_Err_Pool_CreateConn msg_too_few) (\<lambda>_.
             bnd (plog 122 Sck_Err_Pool_CreateConn (''func sckClient_init() create connect num err:'' @
               show_int Sck_Err_Pool_CreateConn @ '',  hdl->valid: '' @ show_int (valid p) @
               '' , hdl->bounds:'' @ show_int (bounds p))) (\<lambda>_.
             bnd (init_close (nat (bounds p)) p) (\<lambda>_.
             init_end handle Sck_Err_Pool_CreateConn p)))
           else init_end handle r p))"

text \<open>The allocations of the two arrays.\<close>

definition init_status :: "bool \<Rightarrow> SockePoolHandle \<Rightarrow> (int \<times> SockePoolHandle option) call" where
  "init_status handle p =
     bnd (malloc (array_size (bounds p))) (\<lambda>m.
       case m of
         None \<Rightarrow> bnd (plog 91 Sck_ErrMalloc ''func sckCltPool_init(), check malloc err'') (\<lambda>_.
           init_end handle Sck_ErrMalloc (p\<lparr>statusPtr := Null\<rparr>))
       | Some b \<Rightarrow>
           bnd (gets (\<lambda>s. p\<lparr>statusPtr := Blk b, statusArray := fresh_ints s b (nat (bounds p))\<rparr>)) (init_run handle))"

definition init_fds :: "bool \<Rightarrow> SockePoolHandle \<Rightarrow> (int \<times> SockePoolHandle option) call" where
  "init_fds handle p =
     bnd (malloc (array_size (bounds p))) (\<lambda>m.
       case m of
         None \<Rightarrow> bnd (plog 84 Sck_ErrMalloc ''func sckCltPool_init(), check malloc err'') (\<lambda>_.
           init_end handle Sck_ErrMalloc p)
       | Some b \<Rightarrow>
           bnd (gets (\<lambda>s. p\<lparr>fdPtr := Blk b, fdArray := fresh_ints s b (nat (bounds p))\<rparr>)) (init_status handle))"

definition sckCltPool_init ::
  "bool \<Rightarrow> SCKClitPoolParam option \<Rightarrow> (int \<times> SockePoolHandle option) call" where
  "sckCltPool_init handle param =
     bnd (malloc 224) (\<lambda>m.
       case m of
         None \<Rightarrow> bnd (plog 57 Sck_ErrMalloc ''func sckCltPool_init(), check malloc err'') (\<lambda>_. ret (Sck_ErrMalloc, None))
       | Some b \<Rightarrow>
           bnd (require (param \<noteq> None \<and> length (pserverip (the param)) < 64)) (\<lambda>_.
           bnd (gets (\<lambda>s. fresh_handle s b (the param))) (\<lambda>p.
           bnd (mutex_lock p) (init_fds handle))))"

subsection \<open>\<^verbatim>\<open>sckCltPool_getConnet\<close>\<close>

text \<open>The part after the label \<^verbatim>\<open>END\<close>: the topmost connection is taken when \<^verbatim>\<open>ret\<close> is 0.\<close>

definition get_end :: "int \<Rightarrow> SockePoolHandle \<Rightarrow> ((int \<times> int option) \<times> SockePoolHandle) call" where
  "get_end r p =
     (if r = 0 then
        bnd (at (fdArray p) (valid p - 1)) (\<lambda>fd.
        bnd (mutex_unlock (p\<lparr>valid := valid p - 1\<rparr>)) (\<lambda>p. ret ((r, Some fd), p)))
      else bnd (mutex_unlock p) (\<lambda>p. ret ((r, None), p)))"

text \<open>A topmost connection that is marked bad is connected again.\<close>

definition get_repair :: "SockePoolHandle \<Rightarrow> ((int \<times> int option) \<times> SockePoolHandle) call" where
  "get_repair p = (let i = valid p - 1 in
     bnd (at (fdArray p) i) (\<lambda>fd.
     bnd (if fd = 0 then
            bnd (sckClient_closeconn fd) (\<lambda>r.
              if r \<noteq> 0 then
                bnd (plog 203 r ('' func sckClient_closeconn() err '' @ msg_close_failed)) (\<lambda>_.
                bnd (upd_at (fdArray p) i 0) (\<lambda>xs. ret (p\<lparr>fdArray := xs\<rparr>)))
              else ret p)
          else ret p) (\<lambda>p.
     bnd (connect_slot p i) (\<lambda>(r, p).
       if r \<noteq> 0 then
         bnd (plog 213 r ('' func sckClient_connect() err '' @ msg_repair_failed)) (\<lambda>_.
         bnd (upd_at (fdArray p) i 0) (\<lambda>xs. get_end r (p\<lparr>fdArray := xs\<rparr>)))
       else get_end r p))))"

text \<open>\<^verbatim>\<open>usleep\<close> runs with the mutex held, so \<^verbatim>\<open>valid\<close> and \<^verbatim>\<open>terminated\<close> are the same after it.\<close>

definition sckCltPool_getConnet ::
  "SockePoolHandle option \<Rightarrow> bool \<Rightarrow> ((int \<times> int option) \<times> SockePoolHandle option) call" where
  "sckCltPool_getConnet handle connfd =
     (if handle = None \<or> \<not> connfd then
        bnd (plog 157 Sck_ErrParam ''func sckCltPool_getConnet() (handle == NULL || connfd==NULL) err'') (\<lambda>_.
          ret ((Sck_ErrParam, None), handle))
      else
        bnd (mutex_lock (the handle)) (\<lambda>p.
        bnd (if terminated p = 1 then
               bnd (plog 169 Sck_Err_Pool_terminated ''func sckCltPool_getConnet() (terminated == 1)'') (\<lambda>_.
               get_end Sck_Err_Pool_terminated p)
             else if valid p = 0 then
               bnd (plog 181 Sck_Err_Pool_GetConn_ValidIsZero
                 ''func sckCltPool_getConnet() Sck_Err_Pool_GetConn_ValidIsZero err'') (\<lambda>_.
               get_end Sck_Err_Pool_GetConn_ValidIsZero p)
             else
               bnd (at (statusArray p) (valid p - 1)) (\<lambda>st.
                 if st = 0 then get_repair p else get_end 0 p)) (\<lambda>(x, p). ret (x, Some p))))"

subsection \<open>\<^verbatim>\<open>sckCltPool_send\<close> and \<^verbatim>\<open>sckCltPool_rev\<close>\<close>

definition sckCltPool_send :: "SockePoolHandle option \<Rightarrow> int \<Rightarrow> byte list option \<Rightarrow> int \<Rightarrow> int call" where
  "sckCltPool_send handle connfd data datalen =
     (if handle = None \<or> connfd < 0 \<or> data = None \<or> datalen \<le> 0 then
        bnd (plog 239 Sck_ErrParam '' func sckCltPool_send() err (handle==NULL || connfd<0 || data==NULL || datalen<=0) '') (\<lambda>_.
          ret Sck_ErrParam)
      else
        bnd (sckClient_send connfd (sendtime (the handle)) data datalen) (\<lambda>r.
          if r \<noteq> 0 then bnd (plog 248 r '' func sckClient_send() err'') (\<lambda>_. ret r) else ret r))"

definition sckCltPool_rev :: "SockePoolHandle option \<Rightarrow> int \<Rightarrow> bool \<Rightarrow> bool \<Rightarrow> rev_result call" where
  "sckCltPool_rev handle connfd out outlen =
     (if handle = None \<or> connfd < 0 \<or> \<not> out \<or> \<not> outlen then
        bnd (plog 264 Sck_ErrParam '' func sckCltPool_rev() err, check (handle==NULL || connfd<0 || out==NULL || outlen==NULL )'') (\<lambda>_.
          ret (Sck_ErrParam, None))
      else
        bnd (sckClient_rev connfd (revtime (the handle)) out outlen) (\<lambda>(r, x).
          if r \<noteq> 0 then bnd (plog 273 r '' func sckClient_rev() err'') (\<lambda>_. ret (r, x)) else ret (r, x)))"

subsection \<open>\<^verbatim>\<open>sckCltPool_putConnet\<close>\<close>

text \<open>A connection is stored on top of the valid ones.\<close>

definition put_store :: "int \<Rightarrow> SockePoolHandle \<Rightarrow> SockePoolHandle call" where
  "put_store fd p =
     bnd (upd_at (fdArray p) (valid p) fd) (\<lambda>xs.
     bnd (upd_at (statusArray p) (valid p) 1) (\<lambda>ys.
     ret (p\<lparr>fdArray := xs, statusArray := ys, valid := valid p + 1\<rparr>)))"

text \<open>The search loop over the valid connections, from index \<open>i\<close> with \<open>k\<close> to go.\<close>

primrec put_find :: "nat \<Rightarrow> int \<Rightarrow> int \<Rightarrow> SockePoolHandle \<Rightarrow> bool call" where
  "put_find 0 i connfd p = ret False"
| "put_find (Suc k) i connfd p =
     bnd (at (fdArray p) i) (\<lambda>fd. if fd = connfd then ret True else put_find k (i + 1) connfd p)"

definition put_locked :: "int \<Rightarrow> int \<Rightarrow> SockePoolHandle \<Rightarrow> (int \<times> SockePoolHandle) call" where
  "put_locked connfd validFlag p =
     (if terminated p = 1 then
        bnd (plog 301 Sck_Err_Pool_terminated
          '' func sckCltPool_putConnet() err, check (func sckCltPool_putConnet() (terminated == 1))'') (\<lambda>_.
        bnd (upd_at (fdArray p) (valid p) connfd) (\<lambda>xs.
        ret (Sck_Err_Pool_terminated, p\<lparr>fdArray := xs, valid := valid p + 1\<rparr>)))
      else
        bnd (put_find (nat (valid p)) 0 connfd p) (\<lambda>found.
          if found then
            bnd (plog 313 Sck_Err_Pool_HaveExist '' func sckCltPool_putConnet() err, check Sck_Err_Pool_HaveExist '') (\<lambda>_.
              ret (Sck_Err_Pool_HaveExist, p))
          else if valid p \<ge> bounds p then
            bnd (plog 322 Sck_Err_Pool_ValidBounds '' func sckCltPool_putConnet() err, check (hdl->valid >= hdl->bounds) '') (\<lambda>_.
              ret (Sck_Err_Pool_ValidBounds, p))
          else if validFlag = 1 then bnd (put_store connfd p) (\<lambda>p. ret (0, p))
          else
            bnd (sckClient_closeconn connfd) (\<lambda>r.
            bnd (if r \<noteq> 0 then plog 340 r '' func sckClient_closeconn() err, check (hdl->valid >= hdl->bounds) ''
                 else ret ()) (\<lambda>_.
            bnd (sckClient_connect (Some (serverip p)) (serverport p) (connecttime p) True) (\<lambda>(r, out).
              if r \<noteq> 0 then
                bnd (plog 348 r ('' func sckClient_connect() err, '' @ msg_repair_failed)) (\<lambda>_. ret (r, p))
              else bnd (put_store (case out of None \<Rightarrow> 0 | Some fd \<Rightarrow> fd) p) (\<lambda>p. ret (r, p)))))))"

text \<open>The error return for a null handle goes through the \<^verbatim>\<open>unlock\<close> of \<^verbatim>\<open>hdl->foo_mutex\<close> with \<^verbatim>\<open>hdl\<close> null.\<close>

definition sckCltPool_putConnet ::
  "SockePoolHandle option \<Rightarrow> int \<Rightarrow> int \<Rightarrow> (int \<times> SockePoolHandle option) call" where
  "sckCltPool_putConnet handle connfd validFlag =
     (if handle = None \<or> connfd < 0 then
        bnd (plog 290 Sck_ErrParam '' func sckCltPool_putConnet() err, check (handle == NULL || connfd==NULL)'') (\<lambda>_. fault)
      else
        bnd (mutex_lock (the handle)) (\<lambda>p.
        bnd (put_locked connfd validFlag p) (\<lambda>(r, p).
        bnd (mutex_unlock p) (\<lambda>p. ret (r, Some p)))))"

subsection \<open>\<^verbatim>\<open>sckCltPool_destroy\<close>\<close>

primrec destroy_close :: "nat \<Rightarrow> SockePoolHandle \<Rightarrow> unit call" where
  "destroy_close 0 p = ret ()"
| "destroy_close (Suc k) p =
     bnd (at (fdArray p) (bounds p - int (Suc k))) (\<lambda>fd.
     bnd (if fd \<noteq> 0 then bnd (sckClient_closeconn fd) (\<lambda>_. ret ()) else ret ()) (\<lambda>_. destroy_close k p))"

definition sckCltPool_destroy :: "SockePoolHandle option \<Rightarrow> int call" where
  "sckCltPool_destroy handle = (case handle of
      None \<Rightarrow> bnd (plog 377 Sck_ErrParam '' func sckCltPool_destroy() err, check (handle == NULL)'') (\<lambda>_. ret Sck_ErrParam)
    | Some p \<Rightarrow>
        bnd (mutex_lock p) (\<lambda>p.
        bnd (destroy_close (nat (bounds p)) (p\<lparr>terminated := 1\<rparr>)) (\<lambda>_.
        bnd (free_ptr (fdPtr p)) (\<lambda>_.
        bnd (free_ptr (statusPtr p)) (\<lambda>_.
        bnd sckClient_destroy (\<lambda>_.
        bnd (free (hdlBlk p)) (\<lambda>_. ret 0)))))))"

end
