(* ===== verification/Pool_Correct.thy ===== *)
theory Pool_Correct
  imports Poolsocket
begin

text \<open>
  What the connection pool promises: it is a bounded stack of distinct open connections. A
  connection is handed to one client at a time, and comes back on top; the mutex is free
  after every operation.
\<close>

section \<open>The invariant and the abstraction\<close>

definition conns :: "SockePoolHandle \<Rightarrow> int list" where
  "conns p = take (nat (valid p)) (fdArray p)"

definition pool_inv :: "SockePoolHandle \<Rightarrow> bool" where
  "pool_inv p \<longleftrightarrow> 0 \<le> valid p \<and> valid p \<le> bounds p \<and> length (fdArray p) = nat (bounds p) \<and>
     length (statusArray p) = nat (bounds p) \<and> list_all ((=) 1) (take (nat (valid p)) (statusArray p)) \<and>
     distinct (conns p) \<and> \<not> locked p \<and> terminated p \<noteq> 1"

lemma length_conns [simp]: "pool_inv p \<Longrightarrow> length (conns p) = nat (valid p)"
  by (auto simp: pool_inv_def conns_def)

lemma unlock_id [simp]: "\<not> locked p \<Longrightarrow> p\<lparr>locked := False\<rparr> = p"
  by (cases p) simp

lemma plog_logged:
  assumes "log_safe s" "0 \<le> line" "line \<le> 1000" "length msg \<le> 1000" "INT_MIN \<le> st" "st \<le> INT_MAX"
  shows "plog line st msg s = (Ret (), logged ''poolsocket.c'' line 4 st msg s)"
  using assms
  by (subst Socket_Log_logged) (auto simp: SocketLevel_def log_args_ok_def INT_MIN_def INT_MAX_def)

lemma take_Suc_upd: "n < length xs \<Longrightarrow> take (Suc n) (xs[n := x]) = take n xs @ [x]"
  by (simp add: take_Suc_conv_app_nth)

section \<open>Taking and giving back\<close>

lemma getConnet_empty:
  assumes "pool_inv p" "log_safe s" "valid p = 0"
  shows "sckCltPool_getConnet (Some p) True s = (Ret ((Sck_Err_Pool_GetConn_ValidIsZero, None), Some p),
    logged ''poolsocket.c'' 181 4 Sck_Err_Pool_GetConn_ValidIsZero
      ''func sckCltPool_getConnet() Sck_Err_Pool_GetConn_ValidIsZero err'' s)"
  using assms
  by (simp add: sckCltPool_getConnet_def pool_inv_def mutex_lock_def mutex_unlock_def get_end_def ret_def bnd_def
      plog_logged pool_codes Sck_defs INT_MIN_def INT_MAX_def)

lemma getConnet_top:
  assumes "pool_inv p" "valid p \<noteq> 0"
  shows "sckCltPool_getConnet (Some p) True s = (Ret ((0, Some (last (conns p))), Some (p\<lparr>valid := valid p - 1\<rparr>)), s)"
proof -
  have v: "nat (valid p - 1) < nat (valid p)" "nat (valid p) \<le> length (fdArray p)"
    "nat (valid p - 1) < length (statusArray p)" using assms by (auto simp: pool_inv_def)
  then have "statusArray p ! nat (valid p - 1) = 1"
    using assms(1) by (auto simp: pool_inv_def list_all_length)
  moreover have "last (conns p) = fdArray p ! nat (valid p - 1)"
    using v assms by (subst last_conv_nth) (auto simp: conns_def nat_diff_distrib min_absorb2)
  moreover have "p\<lparr>locked := True, valid := x, locked := False\<rparr> = p\<lparr>valid := x\<rparr>" for x
    using assms(1) by (cases p) (simp add: pool_inv_def)
  ultimately show ?thesis
    using assms v
    by (simp add: sckCltPool_getConnet_def pool_inv_def mutex_lock_def mutex_unlock_def get_end_def ret_def bnd_def at_def)
qed

lemma pool_inv_pop: "pool_inv p \<Longrightarrow> valid p \<noteq> 0 \<Longrightarrow> pool_inv (p\<lparr>valid := valid p - 1\<rparr>)"
  and conns_pop: "pool_inv p \<Longrightarrow> valid p \<noteq> 0 \<Longrightarrow> conns (p\<lparr>valid := valid p - 1\<rparr>) = butlast (conns p)"
proof -
  assume a: "pool_inv p" "valid p \<noteq> 0"
  then have n: "nat (valid p) = Suc (nat (valid p - 1))" "nat (valid p) \<le> length (fdArray p)"
    by (auto simp: pool_inv_def)
  then show c: "conns (p\<lparr>valid := valid p - 1\<rparr>) = butlast (conns p)"
    by (simp add: conns_def butlast_take)
  from a n c show "pool_inv (p\<lparr>valid := valid p - 1\<rparr>)"
    by (auto simp: pool_inv_def distinct_butlast list_all_length)
qed

lemma put_find_iff:
  "0 \<le> i \<Longrightarrow> nat i + k \<le> length (fdArray p) \<Longrightarrow>
   put_find k i fd p s = (Ret (fd \<in> set (take k (drop (nat i) (fdArray p)))), s)"
proof (induction k arbitrary: i)
  case (Suc k)
  have "take (Suc k) (drop (nat i) (fdArray p)) = fdArray p ! nat i # take k (drop (nat (i + 1)) (fdArray p))"
    using Suc.prems by (simp add: Cons_nth_drop_Suc [symmetric] nat_add_distrib)
  with Suc show ?case
    by (auto simp: bnd_def at_def ret_def nat_add_distrib)
qed (simp add: ret_def)

definition pushed :: "int \<Rightarrow> SockePoolHandle \<Rightarrow> SockePoolHandle" where
  "pushed fd p = p\<lparr>fdArray := (fdArray p)[nat (valid p) := fd],
     statusArray := (statusArray p)[nat (valid p) := 1], valid := valid p + 1\<rparr>"

lemma put_store_pushed:
  "pool_inv p \<Longrightarrow> valid p < bounds p \<Longrightarrow> put_store fd (p\<lparr>locked := l\<rparr>) s = (Ret ((pushed fd p)\<lparr>locked := l\<rparr>), s)"
  by (cases p) (simp add: put_store_def pool_inv_def upd_at_def ret_def bnd_def pushed_def)

lemma conns_pushed: "pool_inv p \<Longrightarrow> valid p < bounds p \<Longrightarrow> conns (pushed fd p) = conns p @ [fd]"
  by (auto simp: conns_def pushed_def pool_inv_def nat_add_distrib take_Suc_upd)

lemma pool_inv_pushed:
  "pool_inv p \<Longrightarrow> valid p < bounds p \<Longrightarrow> fd \<notin> set (conns p) \<Longrightarrow> pool_inv (pushed fd p)"
  using conns_pushed [of p fd]
  by (auto simp: pool_inv_def pushed_def nat_add_distrib take_Suc_upd)

lemma bounds_pushed [simp]: "bounds (pushed fd p) = bounds p" "valid (pushed fd p) = valid p + 1"
  "serverport (pushed fd p) = serverport p" "connecttime (pushed fd p) = connecttime p" "locked (pushed fd p) = locked p"
  by (simp_all add: pushed_def)

lemma find_conns:
  "pool_inv p \<Longrightarrow> put_find (nat (valid p)) 0 fd (p\<lparr>locked := l\<rparr>) s = (Ret (fd \<in> set (conns p)), s)"
  by (subst put_find_iff) (auto simp: pool_inv_def conns_def)

lemma putConnet_valid:
  assumes "pool_inv p" "0 \<le> fd" "fd \<notin> set (conns p)" "valid p < bounds p"
  shows "sckCltPool_putConnet (Some p) fd 1 s = (Ret (0, Some (pushed fd p)), s)"
  using assms put_store_pushed [OF assms(1,4), of fd True s] find_conns [OF assms(1), of fd True s]
  by (simp add: sckCltPool_putConnet_def put_locked_def mutex_lock_def mutex_unlock_def ret_def bnd_def)
    (auto simp: pool_inv_def pushed_def)

lemma putConnet_refused:
  assumes "pool_inv p" "0 \<le> fd" "fd \<in> set (conns p) \<or> valid p = bounds p" "log_safe s"
  shows "\<exists>t. sckCltPool_putConnet (Some p) fd v s = (Ret (Sck_BaseErr + 22, Some p), t) \<and>
    fds t = fds s \<and> env t = env s \<and> heap t = heap s"
  using assms find_conns [OF assms(1), of fd True s]
  by (auto simp: sckCltPool_putConnet_def put_locked_def mutex_lock_def mutex_unlock_def ret_def bnd_def
      plog_logged pool_codes Sck_defs INT_MIN_def INT_MAX_def pool_inv_def)

section \<open>A bounded stack\<close>

text \<open>Taking several connections, one after the other.\<close>

primrec take_many :: "('p \<Rightarrow> (int option \<times> 'p) call) \<Rightarrow> nat \<Rightarrow> 'p \<Rightarrow> (int list \<times> 'p) call" where
  "take_many get 0 p = ret ([], p)"
| "take_many get (Suc n) p = bnd (get p) (\<lambda>(x, q).
     bnd (take_many get n q) (\<lambda>(xs, q). ret (case x of None \<Rightarrow> xs | Some y \<Rightarrow> y # xs, q)))"

text \<open>
  The interface of the pool towards its clients: taking a connection pops, giving back a
  good one pushes.
\<close>

locale conn_stack =
  fixes inv :: "'p \<Rightarrow> bool" and stack :: "'p \<Rightarrow> int list" and cap :: "'p \<Rightarrow> nat"
    and take_one :: "'p \<Rightarrow> (int option \<times> 'p) call" and give :: "int \<Rightarrow> 'p \<Rightarrow> (bool \<times> 'p) call"
  assumes take_top: "inv p \<Longrightarrow> stack p \<noteq> [] \<Longrightarrow> \<exists>q. take_one p s = (Ret (Some (last (stack p)), q), s) \<and>
      inv q \<and> stack q = butlast (stack p) \<and> cap q = cap p"
    and give_top: "inv p \<Longrightarrow> 0 \<le> x \<Longrightarrow> x \<notin> set (stack p) \<Longrightarrow> length (stack p) < cap p \<Longrightarrow>
      \<exists>q. give x p s = (Ret (True, q), s) \<and> inv q \<and> stack q = stack p @ [x] \<and> cap q = cap p"
    and distinct_stack: "inv p \<Longrightarrow> distinct (stack p)"
begin

lemma give_take:
  assumes "inv p" "0 \<le> x" "x \<notin> set (stack p)" "length (stack p) < cap p"
  shows "\<exists>q. bnd (give x p) (\<lambda>(_, q). take_one q) s = (Ret (Some x, q), s) \<and> inv q \<and> stack q = stack p"
proof -
  obtain q where q: "give x p s = (Ret (True, q), s)" "inv q" "stack q = stack p @ [x]"
    using give_top [OF assms] by blast
  with take_top [OF q(2), of s] show ?thesis by auto
qed

text \<open>They are distinct and come in the order of the stack, the last one given back first.\<close>

lemma take_many_stack:
  assumes "inv p" "n \<le> length (stack p)"
  shows "\<exists>q. take_many take_one n p s = (Ret (take n (rev (stack p)), q), s) \<and> inv q \<and>
    stack q = take (length (stack p) - n) (stack p)"
  using assms
proof (induction n arbitrary: p)
  case (Suc n)
  then have ne: "stack p \<noteq> []" by auto
  then obtain q where q: "take_one p s = (Ret (Some (last (stack p)), q), s)" "inv q" "stack q = butlast (stack p)"
    using take_top [OF Suc.prems(1)] by blast
  from Suc.prems(2) q(3) have "n \<le> length (stack q)" by simp
  from Suc.IH [OF q(2) this] obtain r where r: "take_many take_one n q s = (Ret (take n (rev (stack q)), r), s)" "inv r"
    "stack r = take (length (stack q) - n) (stack q)" by blast
  have "stack r = take (length (stack p) - Suc n) (stack p)"
    using r(3) q(3) Suc.prems(2) by (simp add: butlast_conv_take min_def)
  moreover have "take (Suc n) (rev (stack p)) = last (stack p) # take n (rev (butlast (stack p)))"
    using ne by (cases "stack p" rule: rev_cases) auto
  ultimately show ?case using q r by (simp add: ret_def)
qed (simp add: ret_def)

end

definition pool_take :: "SockePoolHandle \<Rightarrow> (int option \<times> SockePoolHandle) call" where
  "pool_take p = bnd (sckCltPool_getConnet (Some p) True) (\<lambda>((r, out), q). ret (out, the q))"

definition pool_give :: "int \<Rightarrow> SockePoolHandle \<Rightarrow> (bool \<times> SockePoolHandle) call" where
  "pool_give x p = bnd (sckCltPool_putConnet (Some p) x 1) (\<lambda>(r, q). ret (r = 0, the q))"

interpretation pool: conn_stack pool_inv conns "\<lambda>p. nat (bounds p)" pool_take pool_give
proof
  show "\<exists>q. pool_take p s = (Ret (Some (last (conns p)), q), s) \<and> pool_inv q \<and>
      conns q = butlast (conns p) \<and> nat (bounds q) = nat (bounds p)"
    if "pool_inv p" "conns p \<noteq> []" for p s
  proof -
    have v: "valid p \<noteq> 0" using that(2) by (auto simp: conns_def)
    with that(1) show ?thesis
      by (simp add: pool_take_def getConnet_top pool_inv_pop conns_pop ret_def)
  qed
  show "\<exists>q. pool_give x p s = (Ret (True, q), s) \<and> pool_inv q \<and> conns q = conns p @ [x] \<and>
      nat (bounds q) = nat (bounds p)"
    if "pool_inv p" "0 \<le> x" "x \<notin> set (conns p)" "length (conns p) < nat (bounds p)" for p x s
  proof -
    have v: "valid p < bounds p" using that(1,4) by (auto simp: pool_inv_def)
    with that show ?thesis
      by (simp add: pool_give_def putConnet_valid conns_pushed pool_inv_pushed ret_def)
  qed
qed (simp add: pool_inv_def)

section \<open>Replacing a bad connection\<close>

definition params_ok :: "SockePoolHandle \<Rightarrow> bool" where
  "params_ok p \<longleftrightarrow> 0 < serverport p \<and> serverport p \<le> 65537 \<and> 0 \<le> connecttime p"

lemma closeconn_runs:
  "0 \<le> fd \<Longrightarrow> runs (sckClient_closeconn fd)
     (\<lambda>r t. r = 0 \<and> fds t = (fds s)(fd := None) \<and> live t = live s \<and> env t = env s) never s"
  by (auto simp: runs_def sckClient_closeconn_def sys_close_def syscall_def fail_with_def bnd_def ret_def
      fun_upd_idem split: sys_splits)

text \<open>
  What giving back a bad connection \<open>fd\<close> leaves: it is closed, and either a new one is on the
  stack or the reconnection failed and the stack is as it was.
\<close>

definition repaired :: "SockePoolHandle \<Rightarrow> int \<Rightarrow> os \<Rightarrow> int \<Rightarrow> SockePoolHandle \<Rightarrow> os \<Rightarrow> bool" where
  "repaired p fd s r q t \<longleftrightarrow> env t = env s \<and> live t = live s \<and>
     (if r = 0 then \<exists>new. q = pushed new p \<and> 0 \<le> new \<and> (new = fd \<or> fds s new = None) \<and> fds t new \<noteq> None \<and>
          (\<forall>x. x \<noteq> new \<longrightarrow> fds t x = (if x = fd then None else fds s x))
      else q = p \<and> (\<forall>x. x \<noteq> fd \<longrightarrow> fds s x \<noteq> None \<longrightarrow> fds t x = fds s x))"

lemma length_utf8 [simp]: "length (utf8 xs) = length xs"
  by (simp add: utf8_def)

lemma connectedD:
  assumes "connected ip port y u t"
  shows "0 \<le> y" "fds u y = None" "fds t y \<noteq> None" "env t = env u" "live t = live u" "x \<noteq> y \<Longrightarrow> fds t x = fds u x"
proof -
  from assms have upd: "fds t = (fds u)(y := fds t y)" by (simp add: connected_def)
  show "x \<noteq> y \<Longrightarrow> fds t x = fds u x" using fun_cong [OF upd, of x] by simp
  show "fds t y \<noteq> None" using assms by (cases "fds t y") (simp_all add: connected_def)
  show "0 \<le> y" "fds u y = None" "env t = env u" "live t = live u"
    using assms by (simp_all add: connected_def heap_def)
qed

lemma connect_post_err:
  assumes "connect_post ip port u (r, out) t" "r \<noteq> 0" "fds u = (fds s)(fd := None)" "live u = live s" "env u = env s"
  shows "env t = env s \<and> live t = live s \<and> (\<forall>x. x \<noteq> fd \<longrightarrow> fds s x \<noteq> None \<longrightarrow> fds t x = fds s x)"
proof -
  from assms(1,2) consider y where "connected ip port y u t" | "fds t = fds u" "env t = env u" "live t = live u"
    by (cases out) (auto simp: connect_post_def heap_def)
  then show ?thesis
  proof cases
    case 1
    have "fds t x = fds s x" if "x \<noteq> fd" "fds s x \<noteq> None" for x
      using connectedD(2,6) [OF 1] that assms(3) by (cases "x = y") auto
    with connectedD(4,5) [OF 1] assms show ?thesis by simp
  qed (use assms in auto)
qed

lemma connect_post_ok:
  assumes "connect_post ip port u (0, out) t" "fds u = (fds s)(fd := None)" "live u = live s" "env u = env s"
  obtains new where "out = Some new" "0 \<le> new" "new = fd \<or> fds s new = None" "fds t new \<noteq> None" "env t = env s"
    "live t = live s" "\<forall>x. x \<noteq> new \<longrightarrow> fds t x = (if x = fd then None else fds s x)"
proof -
  from assms(1) obtain new where n: "out = Some new" "connected ip port new u t"
    by (cases out) (auto simp: connect_post_def Sck_defs)
  note c = connectedD [OF n(2)]
  show thesis
    by (rule that [OF n(1) c(1)]) (use c assms in \<open>auto split: if_splits\<close>)
qed

lemma Socket_Log_any:
  "runs (Socket_Log f l v st m) (\<lambda>_ t. fds t = fds s \<and> live t = live s \<and> env t = env s) (\<lambda>_. True) s"
  by (auto simp: runs_def Socket_Log_def ITCAST_Error_Core_def ITCAST_Error_GetCurTime_def bnd_def
      prog_basics ITCAST_Error_OpenFile_def env_def split: if_splits option.splits)

lemma putConnet_repair_runs:
  assumes "pool_inv p" "0 \<le> fd" "fd \<notin> set (conns p)" "valid p < bounds p" "v \<noteq> 1" "log_safe s" "params_ok p"
  shows "runs (sckCltPool_putConnet (Some p) fd v) (\<lambda>(r, x) t. \<exists>q. x = Some q \<and> repaired p fd s r q t) (\<lambda>_. True) s"
proof -
  let ?p = "p\<lparr>locked := True\<rparr>"
  have rec: "runs (bnd (sckClient_connect (Some (serverip p)) (serverport p) (connecttime p) True) (\<lambda>(r, out).
        if r \<noteq> 0 then
          bnd (plog 348 r ('' func sckClient_connect() err, '' @ msg_repair_failed)) (\<lambda>_. ret (r, ?p))
        else bnd (put_store (case out of None \<Rightarrow> 0 | Some fd \<Rightarrow> fd) ?p) (\<lambda>p. ret (r, p))))
      (\<lambda>(r, q) t. repaired p fd s r (q\<lparr>locked := False\<rparr>) t) (\<lambda>_. True) u"
    if u: "fds u = (fds s)(fd := None)" "live u = live s" "env u = env s" for u
  proof (rule runs_bnd [OF sckClient_connect_runs], goal_cases)
    case (3 a t)
    obtain r out where a: "a = (r, out)" by fastforce
    show ?case
    proof (cases "r = 0")
      case True
      with 3 a have "connect_post (serverip p) (serverport p) u (0, out) t" by simp
      then obtain new where n: "out = Some new" "0 \<le> new" "new = fd \<or> fds s new = None" "fds t new \<noteq> None"
        "env t = env s" "live t = live s" "\<forall>x. x \<noteq> new \<longrightarrow> fds t x = (if x = fd then None else fds s x)"
        by (rule connect_post_ok [OF _ u])
      then have "repaired p fd s 0 (pushed new p) t" unfolding repaired_def
        by (simp only: simp_thms if_True) (rule exI [of _ new], simp only: simp_thms)
      with n(1) True a put_store_pushed [OF assms(1,4), of new True t] assms(1) show ?thesis
        by (simp add: runs_def bnd_def ret_def pool_inv_def)
    next
      case False
      have rep: "repaired p fd s r p v" if "fds v = fds t \<and> live v = live t \<and> env v = env t" for v
      proof -
        have "env t = env s \<and> live t = live s \<and> (\<forall>x. x \<noteq> fd \<longrightarrow> fds s x \<noteq> None \<longrightarrow> fds t x = fds s x)"
          by (rule connect_post_err [OF 3 [unfolded a] False u])
        with that False show ?thesis unfolding repaired_def by (simp only: simp_thms if_False) blast
      qed
      have "runs (bnd (plog 348 r msg) (\<lambda>_. ret (r, ?p)))
          (\<lambda>(r, q). repaired p fd s r (q\<lparr>locked := False\<rparr>)) (\<lambda>_. True) t" for msg
        by (rule runs_bnd [OF Socket_Log_any], rule runs_ret, drule rep) (use assms(1) in \<open>simp_all add: pool_inv_def\<close>)
      with False a show ?thesis by simp
    qed
  qed (use assms u log_safe_env [of u s] in \<open>auto simp: connect_args_ok_def params_ok_def\<close>)
  have find: "runs (put_find (nat (valid p)) 0 fd ?p) (\<lambda>b t. \<not> b \<and> t = s) never s"
    using assms find_conns [OF assms(1), of fd True s] by (simp add: runs_def)
  have "terminated p \<noteq> 1" "\<not> locked p" using assms(1) by (simp_all add: pool_inv_def)
  then have "runs (put_locked fd v ?p) (\<lambda>(r, q) t. repaired p fd s r (q\<lparr>locked := False\<rparr>) t) (\<lambda>_. True) s"
    unfolding put_locked_def using assms(2-5)
    by (auto intro!: runs_bnd [OF find] runs_bnd [OF closeconn_runs] rec)
  then show ?thesis
    unfolding sckCltPool_putConnet_def mutex_unlock_def mutex_lock_def using \<open>\<not> locked p\<close> assms(2)
    by (auto elim!: runs_bnd intro!: runs_intros)
qed

section \<open>Clients that share a pool\<close>

text \<open>Which descriptors are open: sending and receiving do not change it.\<close>

definition opn :: "os \<Rightarrow> int set" where
  "opn s = dom (fds s)"

lemma keeps_cases [keeps_intros]:
  "keeps f m \<Longrightarrow> (\<And>a. keeps f (k a)) \<Longrightarrow> keeps f (case x of None \<Rightarrow> m | Some a \<Rightarrow> k a)"
  "(\<And>a b. keeps f (h a b)) \<Longrightarrow> keeps f (case y of (a, b) \<Rightarrow> h a b)"
  by (simp_all split: option.split prod.split)

lemma keeps_opn_sys [keeps_intros]:
  "keeps opn (sys_read fd n)" "keeps opn (sys_write fd bs)" "keeps opn (malloc n)" "keeps opn (free b)"
  "keeps opn sys_select1"
  by (auto simp: keeps_def opn_def sys_defs free_def Let_def split: sys_splits)

lemma keeps_opn_log [keeps_intros]: "keeps opn (Socket_Log f l v st m)"
  using Socket_Log_frame by (fastforce intro: keepsI simp: opn_def)

lemma keeps_opn_transfers [keeps_intros]:
  "keeps opn (readn fd n)" "keeps opn (writen fd bs)" "keeps opn select_retry"
  by (auto simp: readn_def writen_def intro!: readn_loop.keeps_loop writen_loop.keeps_loop
      select_retry.keeps_loop keeps_intros)

lemma keeps_opn_timeouts [keeps_intros]: "keeps opn (read_timeout fd w)" "keeps opn (write_timeout fd w)"
  by (auto simp: read_timeout_def write_timeout_def FD_SET_def set_errno_def opn_def
      intro!: keeps_intros keeps_modify)

lemma keeps_messages [keeps_intros]:
  "keeps opn (sckClient_send fd tm data n)" "keeps env (sckClient_send fd tm data n)"
  "keeps opn (sckClient_rev fd tm b c)" "keeps env (sckClient_rev fd tm b c)"
  unfolding sckClient_send_def sckClient_rev_def Let_def
  by (intro keeps_intros)+

lemma keeps_pool_messages:
  "keeps opn (sckCltPool_send h fd data n)" "keeps env (sckCltPool_send h fd data n)"
  "keeps opn (sckCltPool_rev h fd b c)" "keeps env (sckCltPool_rev h fd b c)"
  unfolding sckCltPool_send_def sckCltPool_rev_def
  by (intro keeps_intros)+

text \<open>
  Any number of clients use the pool; \<open>hs\<close> are the connections they hold. Each step is one
  call, which the mutex makes atomic: taking a connection, giving back one that is held, good
  or bad, sending or receiving on one that is held; or the network acts, which brings data
  and decides the coming answers of the kernel but opens and closes nothing.
\<close>

type_synonym pool_state = "SockePoolHandle \<times> os \<times> int list"

inductive pool_step :: "pool_state \<Rightarrow> pool_state \<Rightarrow> bool" where
  get: "sckCltPool_getConnet (Some p) True s = (Ret ((r, Some fd), Some q), t) \<Longrightarrow>
    pool_step (p, s, hs) (q, t, fd # hs)"
| get_none: "sckCltPool_getConnet (Some p) True s = (Ret ((r, None), Some q), t) \<Longrightarrow>
    pool_step (p, s, hs) (q, t, hs)"
| put: "fd \<in> set hs \<Longrightarrow> sckCltPool_putConnet (Some p) fd v s = (Ret (r, Some q), t) \<Longrightarrow>
    pool_step (p, s, hs) (q, t, remove1 fd hs)"
| send: "fd \<in> set hs \<Longrightarrow> sckCltPool_send (Some p) fd data n s = (Ret r, t) \<Longrightarrow>
    pool_step (p, s, hs) (p, t, hs)"
| rev: "fd \<in> set hs \<Longrightarrow> sckCltPool_rev (Some p) fd b c s = (Ret x, t) \<Longrightarrow>
    pool_step (p, s, hs) (p, t, hs)"
| net: "opn t = opn s \<Longrightarrow> env t = env s \<Longrightarrow> pool_step (p, s, hs) (p, t, hs)"

inductive_cases pool_stepE: "pool_step x y"

text \<open>
  The invariant: the connections in the pool and those held are distinct, open, and together
  no more than the pool's capacity.
\<close>

definition sys_inv :: "pool_state \<Rightarrow> bool" where
  "sys_inv x = (case x of (p, s, hs) \<Rightarrow> pool_inv p \<and> params_ok p \<and> log_safe s \<and> distinct (conns p @ hs) \<and>
     (\<forall>fd \<in> set (conns p @ hs). 0 \<le> fd \<and> fd \<in> opn s) \<and> length (conns p @ hs) \<le> nat (bounds p))"

lemma sys_inv_frame:
  assumes "sys_inv (p, s, hs)" "opn t = opn s" "env t = env s"
  shows "sys_inv (p, t, hs)"
  using assms log_safe_env [OF assms(3)] by (auto simp: sys_inv_def)

lemma params_ok_upd [simp]: "params_ok (p\<lparr>valid := v\<rparr>) = params_ok p" "params_ok (pushed fd p) = params_ok p"
  by (simp_all add: params_ok_def)

lemma sys_inv_get:
  assumes "sys_inv (p, s, hs)" "sckCltPool_getConnet (Some p) True s = (Ret ((r, out), Some q), t)"
  shows "sys_inv (q, t, case out of None \<Rightarrow> hs | Some fd \<Rightarrow> fd # hs)"
proof (cases "valid p = 0")
  case True
  with assms have "q = p" "out = None" "fds t = fds s" "env t = env s" by (auto simp: sys_inv_def getConnet_empty)
  with assms(1) show ?thesis using sys_inv_frame [of p s hs t] by (simp add: opn_def)
next
  case False
  have inv: "pool_inv p" using assms(1) by (simp add: sys_inv_def)
  with False have "conns p \<noteq> []" by (auto simp flip: length_greater_0_conv simp: pool_inv_def)
  then obtain xs x where c: "conns p = xs @ [x]" by (cases "conns p" rule: rev_cases) auto
  from assms(2) getConnet_top [OF inv False, of s] c
  have "q = p\<lparr>valid := valid p - 1\<rparr>" "t = s" "out = Some x" by auto
  then show ?thesis
    using assms(1) conns_pop [OF inv False] pool_inv_pop [OF inv False] c
    by (auto simp: sys_inv_def simp del: length_conns)
qed

text \<open>What holds of a connection that a client is about to give back: there is room for it.\<close>

lemma sys_inv_held:
  assumes "sys_inv (p, s, hs)" "fd \<in> set hs"
  shows "pool_inv p" "params_ok p" "log_safe s" "0 \<le> fd" "fd \<notin> set (conns p)" "distinct hs" "valid p < bounds p"
    "length (conns p) + length (remove1 fd hs) < nat (bounds p)"
proof -
  from assms show inv: "pool_inv p" "params_ok p" "log_safe s" "0 \<le> fd" "fd \<notin> set (conns p)" "distinct hs"
    by (auto simp: sys_inv_def)
  have pos: "length hs > 0" using assms(2) by (cases hs) auto
  have tot: "nat (valid p) + length hs \<le> nat (bounds p)" using assms(1) inv(1) by (simp add: sys_inv_def)
  with pos show "valid p < bounds p" by linarith
  have "length (remove1 fd hs) = length hs - 1" using assms(2) by (simp add: length_remove1)
  with pos tot length_conns [OF inv(1)] show "length (conns p) + length (remove1 fd hs) < nat (bounds p)" by linarith
qed

lemma sys_inv_others:
  assumes "sys_inv (p, s, hs)" "fd \<in> set hs" "x \<in> set (conns p @ remove1 fd hs)"
  shows "x \<noteq> fd" "0 \<le> x" "fds s x \<noteq> None" "distinct (conns p @ remove1 fd hs)"
  using assms sys_inv_held(5,6) [OF assms(1,2)] by (auto simp: sys_inv_def opn_def)

text \<open>A new connection takes the place of the bad one.\<close>

lemma sys_inv_replaced:
  assumes "sys_inv (p, s, hs)" "fd \<in> set hs" "log_safe t" "0 \<le> new" "new = fd \<or> fds s new = None" "fds t new \<noteq> None"
    "\<forall>x. x \<noteq> new \<longrightarrow> fds t x = (if x = fd then None else fds s x)"
  shows "sys_inv (pushed new p, t, remove1 fd hs)"
proof -
  note held = sys_inv_held [OF assms(1,2)]
  let ?hs = "remove1 fd hs"
  note others = sys_inv_others [OF assms(1,2)]
  have fresh: "new \<notin> set (conns p @ ?hs)" using others(1,3) assms(5) by blast
  have open_t: "fds t x \<noteq> None" if "x \<in> set (conns p @ ?hs)" for x
    using assms(7) others(1,3) [OF that] fresh that by metis
  have "distinct (conns p @ ?hs)" using assms(1) held(6) by (auto simp: sys_inv_def)
  then have "distinct (conns (pushed new p) @ ?hs)" "set (conns (pushed new p) @ ?hs) = insert new (set (conns p @ ?hs))"
    "length (conns (pushed new p) @ ?hs) = Suc (length (conns p @ ?hs))"
    using fresh conns_pushed [OF held(1,7), of new] by auto
  with pool_inv_pushed [OF held(1,7)] fresh assms(3,4,6) open_t others(2) held(2,8) show ?thesis
    by (auto simp: sys_inv_def opn_def)
qed

lemma sys_inv_put:
  assumes "sys_inv (p, s, hs)" "fd \<in> set hs" "sckCltPool_putConnet (Some p) fd v s = (Ret (r, Some q), t)"
  shows "sys_inv (q, t, remove1 fd hs)"
proof (cases "v = 1")
  case True
  note held = sys_inv_held [OF assms(1,2)]
  from True putConnet_valid [OF held(1,4,5,7)] assms(3) have "q = pushed fd p" "t = s" by auto
  with assms(1,2) conns_pushed [OF held(1,7), of fd] pool_inv_pushed [OF held(1,7,5)] held(8) show ?thesis
    by (auto simp: sys_inv_def)
next
  case False
  note held = sys_inv_held [OF assms(1,2)]
  have rep: "repaired p fd s r q t"
    using runs_Ret [OF putConnet_repair_runs [OF held(1,4,5,7) False held(3,2)] assms(3)] by auto
  then have "env t = env s" by (simp add: repaired_def)
  then have safe: "log_safe t" using log_safe_env held(3) by blast
  show ?thesis
  proof (cases "r = 0")
    case True
    with rep obtain new where n: "q = pushed new p" "0 \<le> new" "new = fd \<or> fds s new = None" "fds t new \<noteq> None"
      "\<forall>x. x \<noteq> new \<longrightarrow> fds t x = (if x = fd then None else fds s x)"
      unfolding repaired_def by (simp only: simp_thms if_True) blast
    then show ?thesis using sys_inv_replaced [OF assms(1,2) safe n(2-5)] by simp
  next
    case False
    with rep have n: "q = p" "\<forall>x. x \<noteq> fd \<longrightarrow> fds s x \<noteq> None \<longrightarrow> fds t x = fds s x"
      unfolding repaired_def by (simp_all only: simp_thms if_False) blast
    have "0 \<le> x \<and> fds t x \<noteq> None" if "x \<in> set (conns p @ remove1 fd hs)" for x
      using sys_inv_others(1-3) [OF assms(1,2) that] n(2) by metis
    moreover have "distinct (conns p @ remove1 fd hs)" using assms(1) held(6) by (auto simp: sys_inv_def)
    ultimately show ?thesis using n(1) safe held(1,2,8) by (auto simp: sys_inv_def opn_def)
  qed
qed

lemma sys_inv_step: "pool_step x y \<Longrightarrow> sys_inv x \<Longrightarrow> sys_inv y"
proof (induction rule: pool_step.induct)
  case (get p s r fd q t hs)
  from sys_inv_get [OF get.prems get.hyps] show ?case by simp
next
  case (get_none p s r q t hs)
  from sys_inv_get [OF get_none.prems get_none.hyps] show ?case by simp
next
  case (put fd hs p v s r q t)
  then show ?case by (auto intro: sys_inv_put)
next
  case (send fd hs p data n s r t)
  show ?case
    by (rule sys_inv_frame [OF send.prems keepsD [OF keeps_pool_messages(1) send.hyps(2)]
          keepsD [OF keeps_pool_messages(2) send.hyps(2)]])
next
  case (rev fd hs p b c s x t)
  show ?case
    by (rule sys_inv_frame [OF rev.prems keepsD [OF keeps_pool_messages(3) rev.hyps(2)]
          keepsD [OF keeps_pool_messages(4) rev.hyps(2)]])
next
  case (net t s p hs)
  then show ?case by (auto intro: sys_inv_frame)
qed

inductive pool_reach :: "pool_state \<Rightarrow> pool_state \<Rightarrow> bool" for x where
  start: "pool_reach x x"
| step: "pool_reach x y \<Longrightarrow> pool_step y z \<Longrightarrow> pool_reach x z"

lemma sys_inv_reach: "pool_reach x y \<Longrightarrow> sys_inv x \<Longrightarrow> sys_inv y"
  by (induction rule: pool_reach.induct) (auto intro: sys_inv_step)

section \<open>Filling the pool\<close>

text \<open>While the pool is filled: the connections made so far are new since state \<open>s\<close>.\<close>

definition filling :: "os \<Rightarrow> SockePoolHandle \<Rightarrow> os \<Rightarrow> bool" where
  "filling s p u \<longleftrightarrow> 0 \<le> valid p \<and> valid p \<le> bounds p \<and> length (fdArray p) = nat (bounds p) \<and>
     length (statusArray p) = nat (bounds p) \<and> list_all ((=) 1) (take (nat (valid p)) (statusArray p)) \<and>
     distinct (conns p) \<and> locked p \<and> params_ok p \<and> env u = env s \<and>
     (\<forall>fd \<in> set (conns p). 0 \<le> fd \<and> fds s fd = None \<and> fds u fd \<noteq> None) \<and>
     (\<forall>x. x \<notin> set (conns p) \<longrightarrow> fds u x = fds s x)"

lemma filling_more:
  assumes "filling s p u" "valid p < bounds p" "connected ip port new u t"
  shows "filling s (p\<lparr>fdArray := (fdArray p)[nat (valid p) := new],
    statusArray := (statusArray p)[nat (valid p) := 1], valid := valid p + 1, nvalid := m\<rparr>) t"
    (is "filling s ?p t")
proof -
  note c = connectedD [OF assms(3)]
  have n: "nat (valid p + 1) = Suc (nat (valid p))" "nat (valid p) < nat (bounds p)"
    using assms(1,2) by (auto simp: filling_def)
  have conns: "conns ?p = conns p @ [new]"
    using assms(1) n by (simp add: conns_def filling_def take_Suc_upd)
  have new: "new \<notin> set (conns p)" using assms(1) c(2) by (auto simp: filling_def)
  with assms(1) c(2) have "fds s new = None" by (auto simp: filling_def)
  moreover have "\<forall>x \<in> set (conns p). fds t x = fds u x" using c(6) new by metis
  ultimately show ?thesis
    using assms(1,2) c(1,3,4) c(6) new n
    unfolding filling_def conns by (auto simp: params_ok_def take_Suc_upd)
qed

definition same_pool :: "SockePoolHandle \<Rightarrow> SockePoolHandle \<Rightarrow> bool" where
  "same_pool p q \<longleftrightarrow> hdlBlk q = hdlBlk p \<and> fdPtr q = fdPtr p \<and> statusPtr q = statusPtr p \<and> bounds q = bounds p \<and>
     serverport q = serverport p \<and> connecttime q = connecttime p \<and> terminated q = terminated p \<and> locked q = locked p"

lemma same_pool_trans: "same_pool p q \<Longrightarrow> same_pool q r \<Longrightarrow> same_pool p r"
  by (simp add: same_pool_def)

lemma connect_post_frame:
  assumes "connect_post ip port u (r, out) t"
  shows "env t = env u" "live t = live u" "r = 0 \<Longrightarrow> \<exists>new. out = Some new \<and> connected ip port new u t"
proof -
  from assms consider y where "connected ip port y u t" | "env t = env u" "live t = live u"
    by (cases out) (auto simp: connect_post_def heap_def)
  then show "env t = env u" "live t = live u" by (cases; simp add: connectedD)+
  show "r = 0 \<Longrightarrow> \<exists>new. out = Some new \<and> connected ip port new u t"
    using assms by (cases out) (auto simp: connect_post_def Sck_defs)
qed

definition slot_post :: "SockePoolHandle \<Rightarrow> os \<Rightarrow> int \<times> SockePoolHandle \<Rightarrow> os \<Rightarrow> bool" where
  "slot_post p u x t = (case x of (r, q) \<Rightarrow> env t = env u \<and> live t = live u \<and> (\<exists>xs. q = p\<lparr>fdArray := xs\<rparr>) \<and>
     (r = 0 \<longrightarrow> (\<exists>new. q = p\<lparr>fdArray := (fdArray p)[nat (valid p) := new]\<rparr> \<and>
        connected (serverip p) (serverport p) new u t)))"

lemma connect_slot_runs:
  assumes "0 \<le> valid p" "nat (valid p) < length (fdArray p)" "params_ok p" "log_safe u"
  shows "runs (connect_slot p (valid p)) (slot_post p u) (\<lambda>_. True) u"
  unfolding connect_slot_def
proof (rule runs_bnd [OF sckClient_connect_runs], goal_cases)
  case (3 a t)
  obtain r out where a: "a = (r, out)" by fastforce
  have post: "connect_post (serverip p) (serverport p) u (r, out) t" using 3 a by simp
  have "\<exists>xs. p = p\<lparr>fdArray := xs\<rparr>" by (intro exI [of _ "fdArray p"]) simp
  with connect_post_frame [OF post] a assms(1,2) show ?case
    by (auto simp: slot_post_def runs_def ret_def bnd_def upd_at_def fault_def split: option.splits)
qed (use assms in \<open>auto simp: connect_args_ok_def params_ok_def\<close>)

lemma init_connect_runs:
  assumes "filling s p u" "bounds p - valid p = int k" "log_safe s"
  shows "runs (init_connect k 0 p) (\<lambda>(r, q) t. same_pool p q \<and> live t = live u \<and> env t = env s \<and>
      (r = 0 \<and> valid q = bounds q \<and> filling s q t \<or> r \<noteq> 0 \<and> valid q < bounds q)) (\<lambda>_. True) u"
  using assms(1,2)
proof (induction k arbitrary: p u)
  case 0
  then show ?case by (auto simp: runs_def ret_def same_pool_def filling_def)
next
  case (Suc k)
  have i: "bounds p - int (Suc k) = valid p" "valid p < bounds p" using Suc.prems(2) by auto
  have eu: "env u = env s" using Suc.prems(1) by (simp add: filling_def)
  have ok: "0 \<le> valid p" "nat (valid p) < length (fdArray p)" "params_ok p" "log_safe u"
    "nat (valid p) < length (statusArray p)"
    using Suc.prems(1) i(2) assms(3) log_safe_env [OF eu] by (auto simp: filling_def)
  show ?case
    unfolding init_connect.simps Let_def i(1)
  proof (rule runs_bnd [OF connect_slot_runs [OF ok(1-4)]], clarify, goal_cases)
    case (1 r q t)
    show ?case
    proof (cases "r = 0")
      case True
      with 1 obtain new where q: "q = p\<lparr>fdArray := (fdArray p)[nat (valid p) := new]\<rparr>"
        "connected (serverip p) (serverport p) new u t" "env t = env u" "live t = live u"
        by (auto simp: slot_post_def)
      let ?p = "p\<lparr>fdArray := (fdArray p)[nat (valid p) := new],
        statusArray := (statusArray p)[nat (valid p) := 1], valid := valid p + 1, nvalid := nvalid p - 1\<rparr>"
      have upd: "upd_at (statusArray q) (valid p) 1 t = (Ret ((statusArray p)[nat (valid p) := 1]), t)"
        using ok(1,5) q(1) by (simp add: upd_at_def ret_def nat_less_iff)
      have "runs (init_connect k 0 ?p) (\<lambda>(r, q) v. same_pool ?p q \<and> live v = live t \<and> env v = env s \<and>
          (r = 0 \<and> valid q = bounds q \<and> filling s q v \<or> r \<noteq> 0 \<and> valid q < bounds q)) (\<lambda>_. True) t"
        by (rule Suc.IH [OF filling_more [OF Suc.prems(1) i(2) q(2)]]) (use Suc.prems(2) in simp)
      then show ?thesis
        using True q(1,4) upd by (simp add: runs_def bnd_def same_pool_def)
    next
      case False
      with 1 obtain xs where q: "q = p\<lparr>fdArray := xs\<rparr>" "env t = env u" "live t = live u" by (auto simp: slot_post_def)
      with False i(2) eu show ?thesis
        by (auto simp: same_pool_def intro!: runs_bnd [OF Socket_Log_any] runs_intros)
    qed
  qed simp
qed

lemma at_runs: "runs (at xs i) (\<lambda>_ t. t = s) (\<lambda>_. True) s"
  by (simp add: runs_def at_def ret_def fault_def)

lemma closeconn_frame:
  "runs (sckClient_closeconn fd) (\<lambda>r t. live t = live s \<and> env t = env s) never s"
  by (auto simp: runs_def sckClient_closeconn_def sys_close_def syscall_def fail_with_def bnd_def ret_def
      split: sys_splits)

lemma init_close_runs:
  "live u = l \<Longrightarrow> env u = e \<Longrightarrow> runs (init_close k p) (\<lambda>_ t. live t = l \<and> env t = e) (\<lambda>_. True) u"
proof (induction k arbitrary: u)
  case (Suc k)
  then show ?case
    by (auto simp: Let_def intro!: runs_bnd [OF at_runs] runs_bnd [OF closeconn_frame] runs_intros)
qed (simp add: runs_ret)

lemma free_ptr_runs:
  "(case q of Null \<Rightarrow> l' = l | Blk b \<Rightarrow> b \<in> set l \<and> l' = remove1 b l | Wild \<Rightarrow> True) \<Longrightarrow> live u = l \<Longrightarrow> env u = e \<Longrightarrow>
   runs (free_ptr q) (\<lambda>_ t. live t = l' \<and> env t = e \<and> fds t = fds u) (\<lambda>_. q = Wild) u"
  by (cases q) (auto simp: free_ptr_def runs_def ret_def free_def fault_def)

text \<open>An unsuccessful end gives all memory back, unless an array pointer was never set.\<close>

lemma init_end_failed_runs:
  assumes "r \<noteq> 0" "env u = e" "case fdPtr p of Null \<Rightarrow> la = live u | Blk b \<Rightarrow> b \<in> set (live u) \<and> la = remove1 b (live u) | Wild \<Rightarrow> True"
    "case statusPtr p of Null \<Rightarrow> lb = la | Blk b \<Rightarrow> b \<in> set la \<and> lb = remove1 b la | Wild \<Rightarrow> True"
    "hdlBlk p \<in> set lb" "l = remove1 (hdlBlk p) lb"
  shows "runs (init_end h r p) (\<lambda>(r', x) t. r' = r \<and> x = None \<and> live t = l \<and> env t = e) (\<lambda>_. True) u"
proof -
  have tail: "runs (bnd (free (hdlBlk p)) (\<lambda>_. bnd (plog 139 r msg) (\<lambda>_. ret (r, None))))
      (\<lambda>(r', x) t. r' = r \<and> x = None \<and> live t = l \<and> env t = e) (\<lambda>_. True) v"
    if "live v = lb" "env v = e" for v msg
    using that assms(5,6) by (auto intro!: runs_bnd [OF free_runs] runs_bnd [OF Socket_Log_any] runs_intros)
  show ?thesis
    unfolding init_end_def mutex_unlock_def bnd_ret using assms(1)
  proof (simp, intro runs_bnd [OF free_ptr_runs [OF assms(3) refl assms(2)]], goal_cases)
    case (1 x t)
    then have t: "live t = la" "env t = e" by simp_all
    show ?case
      by (rule runs_bnd [OF free_ptr_runs [OF assms(4) t]]) (use tail in blast)+
  qed simp
qed

definition init_post :: "SCKClitPoolParam \<Rightarrow> os \<Rightarrow> int \<times> SockePoolHandle option \<Rightarrow> os \<Rightarrow> bool" where
  "init_post param s x t = (env t = env s \<and> (case x of
      (r, None) \<Rightarrow> r \<noteq> 0 \<and> live t = live s
    | (r, Some p) \<Rightarrow> r = 0 \<and> bounds p = pbounds param \<and> valid p = bounds p \<and> filling s (p\<lparr>locked := True\<rparr>) t \<and>
        \<not> locked p \<and> terminated p = junk s (hdlBlk p) 2 \<and>
        (\<exists>b1 b2. fdPtr p = Blk b1 \<and> statusPtr p = Blk b2 \<and> live t = b2 # b1 # hdlBlk p # live s)))"

lemma init_run_runs:
  assumes "filling s p u" "valid p = 0" "log_safe s" "fdPtr p = Blk b1" "statusPtr p = Blk b2"
    "live u = b2 # b1 # hdlBlk p # live s" "terminated p = junk s (hdlBlk p) 2" "bounds p = pbounds param"
  shows "runs (init_run h p) (init_post param s) (\<lambda>_. True) u"
proof -
  have b: "0 \<le> bounds p" using assms(1) by (simp add: filling_def)
  have fail: "runs (init_end h r q) (init_post param s) (\<lambda>_. True) t"
    if "r \<noteq> 0" "same_pool p q" "live t = b2 # b1 # hdlBlk p # live s" "env t = env s" for r q t
    by (rule runs_mono [OF init_end_failed_runs [where la = "b2 # hdlBlk p # live s" and lb = "hdlBlk p # live s" and e = "env s" and l = "live s"]])
      (use that assms(4,5) in \<open>auto simp: same_pool_def init_post_def\<close>)
  have good: "runs (init_end h 0 q) (init_post param s) (\<lambda>_. True) t"
    if "same_pool p q" "live t = b2 # b1 # hdlBlk p # live s" "env t = env s" "valid q = bounds q" "filling s q t" for q t
  proof -
    have "filling s (q\<lparr>locked := True\<rparr>) t" using that(5) by (simp add: filling_def conns_def params_ok_def)
    with that assms(4-8) show ?thesis
      unfolding init_end_def mutex_unlock_def
      by (auto intro!: runs_bnd_require runs_intros simp: init_post_def same_pool_def)
  qed
  show ?thesis
    unfolding init_run_def sckClient_init_def bnd_ret
    using assms(2) b
  proof (simp, intro runs_bnd [OF init_connect_runs [OF assms(1) _ assms(3)]], goal_cases)
    case (2 a t)
    then show ?case
      using assms(6)
      by (cases a) (auto intro!: runs_bnd [OF Socket_Log_any] runs_bnd [OF init_close_runs]
          fail [of 3020] good simp: pool_codes Sck_defs)
  qed simp_all
qed

definition param_ok :: "SCKClitPoolParam \<Rightarrow> bool" where
  "param_ok a \<longleftrightarrow> length (pserverip a) < 64 \<and> 0 < pserverport a \<and> pserverport a \<le> 65537 \<and> 0 \<le> pconnecttime a \<and> 0 \<le> pbounds a"

text \<open>The handle while the arrays are allocated.\<close>

definition empty_pool :: "SCKClitPoolParam \<Rightarrow> os \<Rightarrow> SockePoolHandle \<Rightarrow> bool" where
  "empty_pool a s p \<longleftrightarrow> valid p = 0 \<and> bounds p = pbounds a \<and> locked p \<and> params_ok p \<and> 0 \<le> bounds p \<and>
     terminated p = junk s (hdlBlk p) 2"

lemma init_end_none:
  assumes "env u = env s" "statusPtr p \<noteq> Wild \<longrightarrow> statusPtr p = Null"
    "case fdPtr p of Null \<Rightarrow> live u = hdlBlk p # live s | Blk b1 \<Rightarrow> live u = b1 # hdlBlk p # live s | Wild \<Rightarrow> False"
  shows "runs (init_end h Sck_ErrMalloc p) (init_post a s) (\<lambda>_. True) u"
  by (rule runs_mono [OF init_end_failed_runs [where la = "hdlBlk p # live s" and lb = "hdlBlk p # live s"
          and e = "env s" and l = "live s"]])
    (use assms in \<open>auto simp: init_post_def Sck_defs split: ptr.splits\<close>)

lemma init_status_runs:
  assumes "empty_pool a s p" "fdPtr p = Blk b1" "length (fdArray p) = nat (pbounds a)" "log_safe s"
    "env u = env s" "fds u = fds s" "live u = b1 # hdlBlk p # live s"
  shows "runs (init_status h p) (init_post a s) (\<lambda>_. True) u"
  unfolding init_status_def
proof (rule runs_bnd [OF malloc_runs], goal_cases)
  case (1 m t)
  show ?case
  proof (cases m)
    case None
    with 1 assms show ?thesis by (auto intro!: runs_bnd [OF Socket_Log_any] init_end_none)
  next
    case (Some b2)
    let ?p = "p\<lparr>statusPtr := Blk b2, statusArray := fresh_ints t b2 (nat (bounds p))\<rparr>"
    have "filling s ?p t"
      using 1 assms by (simp add: filling_def empty_pool_def conns_def fresh_ints_def params_ok_def)
    with 1 Some assms show ?thesis
      by (auto intro!: runs_intros init_run_runs [where ?b1.0 = b1 and ?b2.0 = b2] simp: empty_pool_def)
  qed
qed simp

lemma init_fds_runs:
  assumes "empty_pool a s p" "fdPtr p = Null" "log_safe s" "env u = env s" "fds u = fds s"
    "statusPtr p \<noteq> Wild \<longrightarrow> statusPtr p = Null" "live u = hdlBlk p # live s"
  shows "runs (init_fds h p) (init_post a s) (\<lambda>_. True) u"
  unfolding init_fds_def
proof (rule runs_bnd [OF malloc_runs], goal_cases)
  case (1 m t)
  show ?case
  proof (cases m)
    case None
    with 1 assms show ?thesis by (auto intro!: runs_bnd [OF Socket_Log_any] init_end_none)
  next
    case (Some b1)
    with 1 assms show ?thesis
      by (auto intro!: runs_intros init_status_runs [where ?b1.0 = b1]
          simp: empty_pool_def fresh_ints_def params_ok_def)
  qed
qed simp

lemma sckCltPool_init_runs:
  assumes "param_ok a" "log_safe s"
  shows "runs (sckCltPool_init h (Some a)) (init_post a s) (\<lambda>_. True) s"
  unfolding sckCltPool_init_def mutex_lock_def
proof (rule runs_bnd [OF malloc_runs], goal_cases)
  case (1 m u)
  show ?case
  proof (cases m)
    case None
    with 1 show ?thesis
      by (auto simp: init_post_def Sck_defs intro!: runs_bnd [OF Socket_Log_any] runs_intros)
  next
    case (Some b)
    with 1 env_eqD [of u s] assms have "empty_pool a s ((fresh_handle u b a)\<lparr>locked := True\<rparr>)"
      by (simp add: empty_pool_def fresh_handle_def param_ok_def params_ok_def)
    with 1 Some assms show ?thesis
      by (auto intro!: runs_intros runs_bnd_require init_fds_runs simp: fresh_handle_def param_ok_def)
  qed
qed simp

section \<open>Destroying the pool\<close>

lemma closeconn_eff:
  "runs (sckClient_closeconn fd) (\<lambda>r t. fds t = (\<lambda>x. if x = fd \<and> 0 \<le> x then None else fds s x) \<and>
     live t = live s \<and> env t = env s) never s"
  by (auto simp: runs_def sckClient_closeconn_def sys_close_def syscall_def fail_with_def bnd_def ret_def fun_eq_iff
      split: sys_splits)

lemma destroy_close_runs:
  assumes "length (fdArray p) = nat (bounds p)" "k \<le> nat (bounds p)"
  shows "runs (destroy_close k p) (\<lambda>_ t. fds t = (\<lambda>x. if 0 < x \<and> x \<in> set (drop (nat (bounds p) - k) (fdArray p))
      then None else fds s x) \<and> live t = live s \<and> env t = env s) never s"
  using assms(2)
proof (induction k arbitrary: s)
  case 0
  then show ?case using assms(1) by (simp add: runs_ret)
next
  case (Suc k)
  let ?i = "nat (bounds p) - Suc k" and ?xs = "fdArray p"
  have i: "nat (bounds p - int (Suc k)) = ?i" "0 \<le> bounds p - int (Suc k)" "?i < length ?xs"
    using Suc.prems assms(1) by auto
  have tl: "drop ?i ?xs = ?xs ! ?i # drop (nat (bounds p) - k) ?xs"
    using Cons_nth_drop_Suc [OF i(3)] Suc.prems by (simp add: Suc_diff_Suc)
  have at: "at ?xs (bounds p - int (Suc k)) s = (Ret (?xs ! ?i), s)"
    using i assms(1) by (simp add: at_def ret_def)
  have step: "runs (if ?xs ! ?i \<noteq> 0 then bnd (sckClient_closeconn (?xs ! ?i)) (\<lambda>_. ret ()) else ret ())
      (\<lambda>_ t. fds t = (\<lambda>x. if x = ?xs ! ?i \<and> 0 < x then None else fds s x) \<and> live t = live s \<and> env t = env s) never s"
    by (intro runs_intros runs_bnd [OF closeconn_eff]) (auto simp: fun_eq_iff)
  have "runs (bnd (if ?xs ! ?i \<noteq> 0 then bnd (sckClient_closeconn (?xs ! ?i)) (\<lambda>_. ret ()) else ret ())
      (\<lambda>_. destroy_close k p)) (\<lambda>_ t. fds t = (\<lambda>x. if 0 < x \<and> x \<in> set (drop ?i ?xs) then None else fds s x) \<and>
        live t = live s \<and> env t = env s) never s"
  proof (rule runs_bnd [OF step], goal_cases)
    case (1 a t)
    show ?case
      by (rule runs_mono [OF Suc.IH]) (use Suc.prems 1 tl in \<open>auto simp: fun_eq_iff\<close>)
  qed
  with at show ?case by (simp add: runs_def bnd_def)
qed

lemma sckCltPool_destroy_runs:
  assumes "\<not> locked p" "length (fdArray p) = nat (bounds p)" "fdPtr p = Blk b1" "statusPtr p = Blk b2"
    "live s = b2 # b1 # hdlBlk p # l"
  shows "runs (sckCltPool_destroy (Some p)) (\<lambda>r t. r = 0 \<and> live t = l \<and> env t = env s \<and>
    fds t = (\<lambda>x. if 0 < x \<and> x \<in> set (fdArray p) then None else fds s x)) never s"
proof -
  have close: "runs (destroy_close (nat (bounds p)) (p\<lparr>locked := True, terminated := 1\<rparr>))
      (\<lambda>_ t. fds t = (\<lambda>x. if 0 < x \<and> x \<in> set (fdArray p) then None else fds s x) \<and> live t = live s \<and> env t = env s) never s"
    using destroy_close_runs [of "p\<lparr>locked := True, terminated := 1\<rparr>" "nat (bounds p)" s] assms(2) by simp
  show ?thesis
    unfolding sckCltPool_destroy_def mutex_lock_def sckClient_destroy_def free_ptr_def
    using assms
    by (auto intro!: runs_bnd [OF close] runs_bnd [OF free_runs] runs_intros simp: bnd_ret)
qed

section \<open>Properties of the pool\<close>

text \<open>A pool of one connection on the example machine.\<close>

definition demo_param :: SCKClitPoolParam where
  "demo_param = \<lparr>pserverip = ''127.0.0.1'', pserverport = 8000, pbounds = 1, pconnecttime = 0, psendtime = 0, prevtime = 0\<rparr>"

definition demo_pool :: SockePoolHandle where
  "demo_pool = \<lparr>hdlBlk = 0, fdPtr = Blk 1, fdArray = [4], statusPtr = Blk 2, statusArray = [1], valid = 1, nvalid = 0,
     bounds = 1, serverip = ''127.0.0.1'', serverport = 8000, connecttime = 0, sendtime = 0, revtime = 0,
     sTimeout = 1, locked = False, terminated = 0\<rparr>"

definition demo_start :: os where
  "demo_start = demo_os [ok 0, ok 0, ok 0, ok 4, ok 0] []"

lemma demo_start_ok: "param_ok demo_param" "log_safe demo_start" "junk demo_start b i = 0"
  by (simp_all add: param_ok_def demo_param_def demo_start_def demo_os_def log_safe_def)

lemma demo_init: "\<exists>t. sckCltPool_init True (Some demo_param) demo_start = (Ret (0, Some demo_pool), t) \<and> fds t 4 \<noteq> None"
  by (simp add: sckCltPool_init_def init_fds_def init_status_def init_run_def init_end_def demo_start_def demo_os_def
      demo_param_def demo_pool_def malloc_def syscall_def PTRDIFF_MAX_def array_size_def c_size_def bnd_def ret_def
      gets_def require_def fresh_handle_def mutex_lock_def mutex_unlock_def fresh_ints_def sckClient_init_def
      init_connect.simps connect_slot_def sckClient_connect_def sys_socket_def open_fd_def set_fd_def new_sock_def
      connect_timeout_def c_uint_def sys_connect_def sys_on_fd_def connect_finish_def upd_at_def errno_defs)

text \<open>A new pool, of which no client holds a connection yet.\<close>

lemma sys_inv_init:
  assumes "sckCltPool_init True (Some a) s = (Ret (0, Some p), t)" "param_ok a" "log_safe s" "junk s (hdlBlk p) 2 \<noteq> 1"
  shows "sys_inv (p, t, [])"
proof -
  have "init_post a s (0, Some p) t" by (rule runs_Ret [OF sckCltPool_init_runs [OF assms(2,3)] assms(1)])
  then have "filling s (p\<lparr>locked := True\<rparr>) t" "\<not> locked p" "terminated p \<noteq> 1" "valid p = bounds p" "env t = env s"
    using assms(4) by (auto simp: init_post_def)
  then show ?thesis
    using assms(3) log_safe_env [of t s]
    by (auto simp: sys_inv_def filling_def pool_inv_def conns_def params_ok_def opn_def)
qed

text \<open>
  C4: no connection is shared. After a successful \<^verbatim>\<open>sckCltPool_init\<close>, whatever the clients do
  with \<^verbatim>\<open>sckCltPool_getConnet\<close>, \<^verbatim>\<open>sckCltPool_putConnet\<close> (with good and bad connections),
  \<^verbatim>\<open>sckCltPool_send\<close> and \<^verbatim>\<open>sckCltPool_rev\<close>, and whatever the kernel answers: the connections in
  the pool and those that clients hold are pairwise different and open, there are never more
  than the capacity, and the mutex is free. The field \<^verbatim>\<open>terminated\<close> is not set by the
  initialisation, so the memory it lies in must not happen to hold 1.
\<close>

theorem pool_no_sharing:
  assumes "sckCltPool_init True (Some a) s = (Ret (0, Some p), t)" "param_ok a" "log_safe s"
    "junk s (hdlBlk p) 2 \<noteq> 1" "pool_reach (p, t, []) (q, u, hs)"
  shows "distinct (conns q @ hs) \<and> (\<forall>fd \<in> set (conns q @ hs). fds u fd \<noteq> None) \<and>
    int (length (conns q @ hs)) \<le> bounds q \<and> \<not> locked q"
  using sys_inv_reach [OF assms(5) sys_inv_init [OF assms(1-4)]]
  by (auto simp: sys_inv_def opn_def pool_inv_def simp del: length_conns)

theorem pool_no_sharing_witness:
  "\<exists>t. sckCltPool_init True (Some demo_param) demo_start = (Ret (0, Some demo_pool), t) \<and>
     distinct (conns (demo_pool\<lparr>valid := 0\<rparr>) @ [4]) \<and> fds t 4 \<noteq> None"
proof -
  obtain t where t: "sckCltPool_init True (Some demo_param) demo_start = (Ret (0, Some demo_pool), t)"
    using demo_init by blast
  have inv: "pool_inv demo_pool" by (simp add: pool_inv_def demo_pool_def conns_def)
  have "sckCltPool_getConnet (Some demo_pool) True t = (Ret ((0, Some 4), Some (demo_pool\<lparr>valid := 0\<rparr>)), t)"
    using getConnet_top [OF inv, of t] by (simp add: demo_pool_def conns_def)
  then have "pool_reach (demo_pool, t, []) (demo_pool\<lparr>valid := 0\<rparr>, t, [4])"
    by (blast intro: pool_reach.intros pool_step.get)
  from pool_no_sharing [OF t demo_start_ok(1,2) _ this] show ?thesis
    using t demo_start_ok(3) by auto
qed

text \<open>
  C5: the pool is a stack. On a pool that satisfies its invariant \<^verbatim>\<open>sckCltPool_getConnet\<close> pops
  the top connection and reports an empty pool otherwise, \<^verbatim>\<open>sckCltPool_putConnet\<close> with a good
  connection pushes it, and refuses one that is already there or that does not fit, with
  the same code; the invariant is kept and no connection is touched.
\<close>

theorem pool_refines_stack:
  assumes "pool_inv p" "log_safe s" "0 \<le> fd"
  shows "(if conns p = []
      then \<exists>t. sckCltPool_getConnet (Some p) True s = (Ret ((Sck_Err_Pool_GetConn_ValidIsZero, None), Some p), t) \<and> fds t = fds s
      else \<exists>q. sckCltPool_getConnet (Some p) True s = (Ret ((0, Some (last (conns p))), Some q), s) \<and>
        pool_inv q \<and> conns q = butlast (conns p)) \<and>
    (if fd \<in> set (conns p) \<or> length (conns p) = nat (bounds p)
      then \<exists>t. sckCltPool_putConnet (Some p) fd 1 s = (Ret (Sck_BaseErr + 22, Some p), t) \<and> fds t = fds s
      else \<exists>q. sckCltPool_putConnet (Some p) fd 1 s = (Ret (0, Some q), s) \<and>
        pool_inv q \<and> conns q = conns p @ [fd])"
proof -
  have e: "conns p = [] \<longleftrightarrow> valid p = 0" "length (conns p) = nat (bounds p) \<longleftrightarrow> valid p = bounds p"
    using assms(1) length_conns [OF assms(1)] by (auto simp: pool_inv_def simp flip: length_0_conv)
  have room: "valid p < bounds p" if "valid p \<noteq> bounds p" using that assms(1) by (simp add: pool_inv_def)
  show ?thesis
    unfolding e
    using getConnet_empty [OF assms(1,2)] getConnet_top [OF assms(1)] pool_inv_pop [OF assms(1)] conns_pop [OF assms(1)]
      putConnet_refused [OF assms(1,3) _ assms(2)] putConnet_valid [OF assms(1,3) _ room] conns_pushed [OF assms(1) room]
      pool_inv_pushed [OF assms(1) room]
    by (intro conjI) (auto, blast+)
qed

theorem pool_refines_stack_witness:
  "\<exists>q. sckCltPool_getConnet (Some demo_pool) True demo_start = (Ret ((0, Some 4), Some q), demo_start) \<and> conns q = []"
proof -
  have "pool_inv demo_pool" "conns demo_pool = [4]" by (simp_all add: pool_inv_def demo_pool_def conns_def)
  with pool_refines_stack [of demo_pool demo_start 5] demo_start_ok(2) show ?thesis by auto
qed

text \<open>
  Clients that take \<open>n\<close> connections in a row, no more than the pool has, get \<open>n\<close> different
  ones, the most recently returned first, without any call to the kernel.
\<close>

theorem pool_takes_distinct:
  assumes "pool_inv p" "n \<le> length (conns p)"
  shows "\<exists>xs q. take_many (\<lambda>p. bnd (sckCltPool_getConnet (Some p) True) (\<lambda>((r, out), q). ret (out, the q))) n p s =
      (Ret (xs, q), s) \<and> xs = take n (rev (conns p)) \<and> distinct xs \<and> pool_inv q"
  using pool.take_many_stack [OF assms, of s] assms(1) unfolding pool_take_def [abs_def]
  by (auto simp: pool_inv_def distinct_take)

theorem pool_takes_distinct_witness:
  "\<exists>xs q. take_many (\<lambda>p. bnd (sckCltPool_getConnet (Some p) True) (\<lambda>((r, out), q). ret (out, the q))) 1 demo_pool demo_start =
     (Ret (xs, q), demo_start) \<and> xs = [4]"
  using pool_takes_distinct [of demo_pool 1 demo_start] by (auto simp: pool_inv_def demo_pool_def conns_def)



text \<open>
  C32: \<^verbatim>\<open>sckCltPool_init\<close> with valid parameters on every kernel. When it returns 0 the pool is full
  of new open connections and three blocks are allocated; every failure it reports gives
  all memory back and returns no handle.
\<close>

theorem sckCltPool_init_outcome:
  assumes "param_ok a" "log_safe s"
  shows "case sckCltPool_init True (Some a) s of
      (Ret (r, Some p), t) \<Rightarrow> r = 0 \<and> valid p = pbounds a \<and> bounds p = pbounds a \<and> distinct (conns p) \<and>
        (\<forall>fd \<in> set (conns p). fds s fd = None \<and> fds t fd \<noteq> None) \<and> length (live t) = 3 + length (live s)
    | (Ret (r, None), t) \<Rightarrow> r \<noteq> 0 \<and> live t = live s
    | (Exit c, t) \<Rightarrow> False
    | _ \<Rightarrow> True"
proof -
  have ok: "r = 0 \<and> valid p = pbounds a \<and> bounds p = pbounds a \<and> distinct (conns p) \<and>
      (\<forall>fd \<in> set (conns p). fds s fd = None \<and> fds t fd \<noteq> None) \<and> length (live t) = 3 + length (live s)"
    if "init_post a s (r, Some p) t" for r p t
    using that by (auto simp: init_post_def filling_def conns_def)
  have no: "r \<noteq> 0 \<and> live t = live s" if "init_post a s (r, None) t" for r t
    using that by (simp add: init_post_def)
  from sckCltPool_init_runs [OF assms, of True] show ?thesis
    unfolding runs_def by (auto split: prod.splits res.splits option.splits dest!: ok no)
qed

theorem sckCltPool_init_outcome_witness:
  "case sckCltPool_init True (Some demo_param) demo_start of
     (Ret (r, Some p), t) \<Rightarrow> p = demo_pool \<and> length (live t) = 3
   | _ \<Rightarrow> False"
proof -
  obtain t where "sckCltPool_init True (Some demo_param) demo_start = (Ret (0, Some demo_pool), t)"
    using demo_init by blast
  with sckCltPool_init_outcome [OF demo_start_ok(1,2)] show ?thesis
    by (simp add: demo_start_def demo_os_def)
qed

text \<open>
  C33: \<^verbatim>\<open>sckCltPool_init\<close> followed by \<^verbatim>\<open>sckCltPool_destroy\<close> leaves nothing behind: the heap is as
  before, and so is every descriptor but 0, which \<^verbatim>\<open>sckCltPool_destroy\<close> takes for an empty slot.
  It has no undefined behaviour then.
\<close>

theorem pool_lifecycle:
  assumes "sckCltPool_init True (Some a) s = (Ret (0, Some p), t)" "param_ok a" "log_safe s"
  shows "case sckCltPool_destroy (Some p) t of
      (Ret r, u) \<Rightarrow> r = 0 \<and> live u = live s \<and> (\<forall>x. x \<noteq> 0 \<longrightarrow> fds u x = fds s x)
    | (Block, u) \<Rightarrow> True
    | _ \<Rightarrow> False"
proof -
  have "init_post a s (0, Some p) t" by (rule runs_Ret [OF sckCltPool_init_runs [OF assms(2,3)] assms(1)])
  then obtain b1 b2 where p: "filling s (p\<lparr>locked := True\<rparr>) t" "\<not> locked p" "valid p = bounds p" "fdPtr p = Blk b1"
    "statusPtr p = Blk b2" "live t = b2 # b1 # hdlBlk p # live s" by (auto simp: init_post_def)
  then have len: "length (fdArray p) = nat (bounds p)" and slots: "set (fdArray p) = set (conns p)"
    by (auto simp: filling_def conns_def)
  have same: "fds t x = fds s x" if "x \<notin> set (conns p)" for x
    using p(1) that by (auto simp: filling_def conns_def)
  have new: "0 \<le> x \<and> fds s x = None" if "x \<in> set (conns p)" for x
    using p(1) that by (auto simp: filling_def conns_def)
  have restored: "(if 0 < x \<and> x \<in> set (fdArray p) then None else fds t x) = fds s x" if "x \<noteq> 0" for x
    using same [of x] new [of x] that unfolding slots by (cases "x \<in> set (conns p)") auto
  from sckCltPool_destroy_runs [OF p(2) len p(4-6)] restored show ?thesis
    unfolding runs_def by (auto split: res.splits)
qed

theorem pool_lifecycle_witness:
  "\<exists>t. sckCltPool_init True (Some demo_param) demo_start = (Ret (0, Some demo_pool), t) \<and>
     (case sckCltPool_destroy (Some demo_pool) t of
        (Ret r, u) \<Rightarrow> live u = [] \<and> fds u 4 = None
      | (Block, u) \<Rightarrow> True
      | _ \<Rightarrow> False)"
proof -
  obtain t where t: "sckCltPool_init True (Some demo_param) demo_start = (Ret (0, Some demo_pool), t)"
    using demo_init by blast
  from pool_lifecycle [OF t demo_start_ok(1,2)] t show ?thesis
    by (auto simp: demo_start_def demo_os_def split: prod.splits res.splits)
qed

text \<open>
  \<^verbatim>\<open>sckCltPool_destroy\<close> closes the connections that clients hold. The slot of a connection
  that was taken still has its descriptor, so destroying the pool closes it under the client.
\<close>

theorem destroy_closes_held:
  assumes "pool_inv p" "conns p \<noteq> []" "0 < last (conns p)" "fdPtr p = Blk b1" "statusPtr p = Blk b2"
    "live s = b2 # b1 # hdlBlk p # l"
  shows "\<exists>fd q. sckCltPool_getConnet (Some p) True s = (Ret ((0, Some fd), Some q), s) \<and>
    (case sckCltPool_destroy (Some q) s of (Ret r, t) \<Rightarrow> fds t fd = None | (Block, t) \<Rightarrow> True | _ \<Rightarrow> False)"
proof -
  let ?q = "p\<lparr>valid := valid p - 1\<rparr>"
  have v: "valid p \<noteq> 0" using assms(1,2) by (auto simp: conns_def)
  have "last (conns p) \<in> set (fdArray p)"
    using last_in_set [OF assms(2)] unfolding conns_def by (rule in_set_takeD)
  moreover have "runs (sckCltPool_destroy (Some ?q)) (\<lambda>r t. r = 0 \<and> live t = l \<and> env t = env s \<and>
      fds t = (\<lambda>x. if 0 < x \<and> x \<in> set (fdArray ?q) then None else fds s x)) never s"
    by (rule sckCltPool_destroy_runs) (use assms in \<open>auto simp: pool_inv_def\<close>)
  ultimately show ?thesis
    using getConnet_top [OF assms(1) v, of s] assms(3)
    by (auto simp: runs_def split: res.splits prod.splits)
qed

theorem destroy_closes_held_witness:
  "\<exists>fd q. sckCltPool_getConnet (Some demo_pool) True ((demo_os [ok 0] [])\<lparr>live := [2, 1, 0]\<rparr>) =
       (Ret ((0, Some fd), Some q), (demo_os [ok 0] [])\<lparr>live := [2, 1, 0]\<rparr>) \<and>
     (case sckCltPool_destroy (Some q) ((demo_os [ok 0] [])\<lparr>live := [2, 1, 0]\<rparr>) of
        (Ret r, t) \<Rightarrow> fds t fd = None | (Block, t) \<Rightarrow> True | _ \<Rightarrow> False)"
  by (rule destroy_closes_held [where ?b1.0 = 1 and ?b2.0 = 2 and l = "[]"])
    (simp_all add: pool_inv_def demo_pool_def conns_def)

text \<open>
  The pool's error paths that are undefined behaviour. \<^verbatim>\<open>sckCltPool_putConnet\<close> with a null handle or
  a negative descriptor unlocks a mutex through a null pointer; a failed allocation of the
  first array makes \<^verbatim>\<open>sckCltPool_init\<close> free a pointer that was never set, when the memory of the
  handle holds anything but 0 there; and when \<^verbatim>\<open>terminated\<close> happens to be 1, giving a connection
  back to a full pool writes behind the array.
\<close>

theorem pool_error_paths:
  assumes "log_safe s" "param_ok a" "junk s (allocs s) 1 \<noteq> 0" "pool_inv p" "valid p = bounds p" "0 \<le> fd"
  shows "fst (sckCltPool_putConnet None fd v s) = Fault \<and> fst (sckCltPool_putConnet (Some p) (-1) v s) = Fault \<and>
    fst (sckCltPool_init True (Some a) (s\<lparr>sched := [ok 0, Err ENOMEM]\<rparr>)) = Fault \<and>
    fst (sckCltPool_putConnet (Some (p\<lparr>terminated := 1\<rparr>)) fd v s) = Fault"
proof -
  let ?s = "s\<lparr>sched := [ok 0, Err ENOMEM]\<rparr>"
  have "fst (sckCltPool_putConnet None fd v s) = Fault" "fst (sckCltPool_putConnet (Some p) (-1) v s) = Fault"
    using assms(1) by (simp_all add: sckCltPool_putConnet_def bnd_def plog_logged Sck_defs INT_MIN_def INT_MAX_def fault_def)
  moreover have "fst (sckCltPool_putConnet (Some (p\<lparr>terminated := 1\<rparr>)) fd v s) = Fault"
    using assms(1,4-6)
    by (simp add: sckCltPool_putConnet_def put_locked_def mutex_lock_def bnd_def ret_def plog_logged pool_codes Sck_defs
        INT_MIN_def INT_MAX_def upd_at_def fault_def pool_inv_def)
  moreover have "fst (sckCltPool_init True (Some a) ?s) = Fault"
    using assms(1-3)
    by (simp add: sckCltPool_init_def malloc_def syscall_def PTRDIFF_MAX_def bnd_def ret_def require_def gets_def
        param_ok_def mutex_lock_def fresh_handle_def init_fds_def plog_logged log_safe_def Sck_defs INT_MIN_def INT_MAX_def
        init_end_def mutex_unlock_def free_ptr_def fault_def)
  ultimately show ?thesis by simp
qed

theorem pool_error_paths_witness:
  "fst (sckCltPool_init True (Some demo_param) ((demo_os [ok 0, Err ENOMEM] [])\<lparr>junk := (\<lambda>_ _. 7)\<rparr>)) = Fault"
proof -
  let ?s = "(demo_os [] [])\<lparr>junk := (\<lambda>_ _. 7)\<rparr>"
  have "?s\<lparr>sched := [ok 0, Err ENOMEM]\<rparr> = (demo_os [ok 0, Err ENOMEM] [])\<lparr>junk := (\<lambda>_ _. 7)\<rparr>"
    by (simp add: demo_os_def)
  moreover have "log_safe ?s" "pool_inv demo_pool" "valid demo_pool = bounds demo_pool"
    by (simp_all add: demo_os_def log_safe_def pool_inv_def demo_pool_def conns_def)
  ultimately show ?thesis
    using pool_error_paths [of ?s demo_param demo_pool 5 0] demo_start_ok(1) by simp
qed

end
