(* ===== verification/Bounded_Fifo.thy ===== *)
theory Bounded_Fifo
  imports Prelude
begin

text \<open>
  Bounded first-in first-out queues, the interface of the task queues of the thread pools,
  and the arithmetic of the rings that implement them.
\<close>

section \<open>The remainder of C\<close>

text \<open>The operator \<^verbatim>\<open>%\<close> rounds towards 0, so its result has the sign of its first argument.\<close>

definition c_rem :: "int \<Rightarrow> int \<Rightarrow> int" where
  "c_rem a b = sgn a * (\<bar>a\<bar> mod \<bar>b\<bar>)"

lemma c_rem_nonneg: "0 \<le> a \<Longrightarrow> 0 < b \<Longrightarrow> c_rem a b = a mod b"
  by (auto simp: c_rem_def sgn_if)

section \<open>Rings\<close>

text \<open>The \<open>n\<close> elements of a ring \<open>xs\<close> from position \<open>i\<close> on.\<close>

definition ring :: "'a list \<Rightarrow> nat \<Rightarrow> nat \<Rightarrow> 'a list" where
  "ring xs i n = map (\<lambda>k. xs ! ((i + k) mod length xs)) [0..<n]"

lemma length_ring [simp]: "length (ring xs i n) = n"
  by (simp add: ring_def)

lemma ring_0 [simp]: "ring xs i 0 = []"
  by (simp add: ring_def)

lemma ring_mod: "ring xs (i mod length xs) n = ring xs i n"
  by (simp add: ring_def mod_add_left_eq)

lemma ring_Suc: "ring xs i (Suc n) = xs ! (i mod length xs) # ring xs (Suc i) n"
  unfolding ring_def by (subst upt_conv_Cons) (auto simp del: upt_Suc simp: map_Suc_upt [symmetric])

lemma mod_add_inj:
  assumes "k < n" "n < (m :: nat)" "(i + k) mod m = (i + n) mod m"
  shows False
proof -
  from assms have "m dvd (i + n) - (i + k)" by (metis mod_eq_dvd_iff_nat add_le_cancel_left less_imp_le_nat)
  with assms show False by (auto dest: dvd_imp_le)
qed

text \<open>Writing behind the last element appends, when the ring is not full.\<close>

lemma ring_append:
  assumes "n < length xs"
  shows "ring (xs[(i + n) mod length xs := x]) i (Suc n) = ring xs i n @ [x]"
proof -
  let ?m = "length xs" and ?j = "(i + n) mod length xs"
  have j: "?j < ?m" using assms by (intro mod_less_divisor) auto
  have "(xs[?j := x]) ! ((i + k) mod ?m) = xs ! ((i + k) mod ?m)" if "k < n" for k
    using mod_add_inj [OF that assms, of i] by (subst nth_list_update_neq) auto
  with j show ?thesis by (simp add: ring_def)
qed

section \<open>The interface\<close>

text \<open>
  \<open>enq f\<close> fills the next slot with \<open>f i a\<close>, where \<open>i\<close> is its index and \<open>a\<close> what it held;
  \<open>deq\<close> returns a copy of the oldest element; \<open>room\<close> is what an implementation needs beyond
  a free slot.
\<close>

locale bounded_fifo =
  fixes inv :: "'q \<Rightarrow> bool" and items :: "'q \<Rightarrow> 'a list" and cap :: "'q \<Rightarrow> nat" and room :: "'q \<Rightarrow> bool"
    and copy :: "'a \<Rightarrow> 'b" and enq :: "(nat \<Rightarrow> 'a \<Rightarrow> 'a) \<Rightarrow> ('q, unit) prog" and deq :: "('q, 'b) prog"
  assumes enq_ok: "inv q \<Longrightarrow> room q \<Longrightarrow> length (items q) < cap q \<Longrightarrow>
      \<exists>r i a. enq f q = (Ret (), r) \<and> inv r \<and> items r = items q @ [f i a] \<and> cap r = cap q"
    and deq_ok: "inv q \<Longrightarrow> items q \<noteq> [] \<Longrightarrow>
      \<exists>r. deq q = (Ret (copy (hd (items q))), r) \<and> inv r \<and> items r = tl (items q) \<and> cap r = cap q"
    and bounded: "inv q \<Longrightarrow> length (items q) \<le> cap q"
begin

text \<open>Any history of insertions and removals: what goes in comes out, in order.\<close>

inductive history :: "'q \<Rightarrow> 'a list \<Rightarrow> 'b list \<Rightarrow> 'q \<Rightarrow> bool" for q where
  none: "history q [] [] q"
| put: "history q ins outs r \<Longrightarrow> room r \<Longrightarrow> length (items r) < cap r \<Longrightarrow> enq f r = (Ret (), t) \<Longrightarrow>
    history q (ins @ [last (items t)]) outs t"
| get: "history q ins outs r \<Longrightarrow> items r \<noteq> [] \<Longrightarrow> deq r = (Ret x, t) \<Longrightarrow> history q ins (outs @ [x]) t"

lemma history_fifo:
  assumes "history q ins outs r" "inv q"
  shows "inv r \<and> cap r = cap q \<and> map copy (items q @ ins) = outs @ map copy (items r)"
  using assms(1)
proof induction
  case none
  then show ?case using assms(2) by simp
next
  case (put ins outs r f t)
  then have "inv r" by simp
  from enq_ok [OF this put.hyps(2,3), of f] put show ?case by auto
next
  case (get ins outs r x t)
  then have "inv r" by simp
  from deq_ok [OF this get.hyps(2)] get show ?case by (cases "items r") auto
qed

end

end
