(* ===== verification/Threadpool_Simple.thy ===== *)
theory Threadpool_Simple
  imports Bounded_Fifo
begin

text \<open>
  The simple thread pool, \<^verbatim>\<open>threadpoolsimple.c\<close> under \<^verbatim>\<open>src/Csocket\<close>: a ring of tasks, producers
  that add to it and workers that take from it, under one mutex and two condition
  variables. Function pointers and task arguments are values of small types, so that a
  value nobody stored is visible; the type of tasks is extensible, because the variant of the
  pool that serves an epoll loop adds fields.
\<close>

section \<open>Definitions\<close>

datatype argptr = Arg_junk | Arg_slot nat | Arg_own

datatype fptr = Fn_junk | Fn_taskRun

record PoolTask =
  tasknum :: int
  arg :: argptr
  task_func :: fptr

record 'a ThreadPool =
  max_job_num :: int
  job_num :: int
  tasks :: "'a PoolTask_scheme list"
  job_push :: int
  job_pop :: int
  thr_num :: int
  shutdown :: int

text \<open>
  \<^verbatim>\<open>create_threadpool\<close> up to the start of the threads; \<open>junk\<close> is what the memory of the tasks holds.
\<close>

definition create_threadpool :: "int \<Rightarrow> int \<Rightarrow> 'a PoolTask_scheme list \<Rightarrow> 'a ThreadPool" where
  "create_threadpool thrnum maxtasknum junk =
     \<lparr>max_job_num = maxtasknum, job_num = 0, tasks = take (nat maxtasknum) junk, job_push = 0, job_pop = 0,
      thr_num = thrnum, shutdown = 0\<rparr>"

text \<open>
  \<^verbatim>\<open>addtask\<close> between its wait and its unlock: the slot at \<^verbatim>\<open>job_push % max_job_num\<close> is filled. The
  increment of \<^verbatim>\<open>job_push\<close> must not overflow, the divisor must not be 0, and the slot must exist.
\<close>

definition full :: "'a ThreadPool \<Rightarrow> bool" where
  "full p \<longleftrightarrow> max_job_num p \<le> job_num p"

definition addtask_locked :: "(nat \<Rightarrow> 'a PoolTask_scheme \<Rightarrow> 'a PoolTask_scheme) \<Rightarrow> ('a ThreadPool, unit) prog" where
  "addtask_locked fill =
     bnd (gets (\<lambda>p. (job_push p, max_job_num p, length (tasks p)))) (\<lambda>(push, m, n).
     bnd (require (push < INT_MAX \<and> m \<noteq> 0)) (\<lambda>_.
     let taskpos = c_rem push m in
     bnd (require (0 \<le> taskpos \<and> taskpos < int n)) (\<lambda>_.
     modify (\<lambda>p. p\<lparr>job_push := job_push p + 1,
       tasks := (tasks p)[nat taskpos := fill (nat taskpos) (tasks p ! nat taskpos)], job_num := job_num p + 1\<rparr>))))"

text \<open>What \<^verbatim>\<open>addtask\<close> stores; the number is \<^verbatim>\<open>beginnum++\<close>.\<close>

definition fill_task :: "int \<Rightarrow> nat \<Rightarrow> 'a PoolTask_scheme \<Rightarrow> 'a PoolTask_scheme" where
  "fill_task num pos t = t\<lparr>tasknum := num, arg := Arg_slot pos, task_func := Fn_taskRun\<rparr>"

text \<open>
  \<^verbatim>\<open>thrRun\<close>, the test of its waiting loop, and the part after it up to the unlock: a task is
  copied out if there is one; the thread then ends if the pool is shut down, whether it has a
  task or not, and runs its task otherwise.
\<close>

definition must_wait :: "'a ThreadPool \<Rightarrow> bool" where
  "must_wait p \<longleftrightarrow> job_num p \<le> 0 \<and> shutdown p = 0"

definition take_task :: "('a ThreadPool, 'a PoolTask_scheme) prog" where
  "take_task =
     bnd (gets (\<lambda>p. (job_pop p, max_job_num p, tasks p))) (\<lambda>(pop, m, ts).
     bnd (require (pop < INT_MAX \<and> m \<noteq> 0)) (\<lambda>_.
     let taskpos = c_rem pop m in
     bnd (require (0 \<le> taskpos \<and> taskpos < int (length ts))) (\<lambda>_.
     bnd (modify (\<lambda>p. p\<lparr>job_pop := job_pop p + 1, job_num := job_num p - 1\<rparr>)) (\<lambda>_.
     ret ((ts ! nat taskpos)\<lparr>arg := Arg_own\<rparr>)))))"

datatype 'a verdict = Quit "'a PoolTask_scheme option" | Run "'a PoolTask_scheme option"

definition thrRun_locked :: "('a ThreadPool, 'a verdict) prog" where
  "thrRun_locked =
     bnd (gets job_num) (\<lambda>n.
     bnd (if n \<noteq> 0 then bnd take_task (\<lambda>t. ret (Some t)) else ret None) (\<lambda>task.
     bnd (gets shutdown) (\<lambda>sd. ret (if sd \<noteq> 0 then Quit task else Run task))))"

text \<open>
  The call \<^verbatim>\<open>task->task_func(task->arg)\<close>; \<open>None\<close> is the thread's own block, never filled. It
  returns the number that \<^verbatim>\<open>taskRun\<close> prints.
\<close>

definition call_task :: "'a PoolTask_scheme option \<Rightarrow> ('s, int) prog" where
  "call_task task = (case task of
      None \<Rightarrow> fault
    | Some t \<Rightarrow> bnd (require (task_func t = Fn_taskRun \<and> arg t = Arg_own)) (\<lambda>_. ret (tasknum t)))"

section \<open>The ring\<close>

definition pool_ok :: "'a ThreadPool \<Rightarrow> bool" where
  "pool_ok p \<longleftrightarrow> 0 < max_job_num p \<and> length (tasks p) = nat (max_job_num p) \<and> 0 \<le> job_num p \<and>
     job_num p \<le> max_job_num p \<and> 0 \<le> job_pop p \<and> job_push p = job_pop p + job_num p \<and> job_push p \<le> INT_MAX"

definition queue :: "'a ThreadPool \<Rightarrow> 'a PoolTask_scheme list" where
  "queue p = ring (tasks p) (nat (job_pop p)) (nat (job_num p))"

definition pushable :: "'a ThreadPool \<Rightarrow> bool" where
  "pushable p \<longleftrightarrow> job_push p < INT_MAX"

lemma length_queue [simp]: "length (queue p) = nat (job_num p)"
  by (simp add: queue_def)

lemma nat_c_rem: "0 \<le> a \<Longrightarrow> 0 < m \<Longrightarrow> nat (c_rem a m) = nat a mod nat m"
  by (simp add: c_rem_nonneg nat_mod_distrib)

lemma addtask_locked_ok:
  assumes "pool_ok p" "pushable p" "\<not> full p"
  shows "\<exists>q i a. addtask_locked f p = (Ret (), q) \<and> pool_ok q \<and> queue q = queue p @ [f i a] \<and>
    max_job_num q = max_job_num p \<and> shutdown q = shutdown p \<and> job_num q = job_num p + 1 \<and> thr_num q = thr_num p"
proof -
  let ?m = "length (tasks p)" and ?i = "nat (c_rem (job_push p) (max_job_num p))"
  let ?q = "p\<lparr>job_push := job_push p + 1, tasks := (tasks p)[?i := f ?i (tasks p ! ?i)], job_num := job_num p + 1\<rparr>"
  have push: "0 \<le> job_push p" "0 < max_job_num p" using assms(1) by (auto simp: pool_ok_def)
  have pos: "?i = (nat (job_pop p) + nat (job_num p)) mod ?m"
    using assms(1) by (subst nat_c_rem [OF push]) (auto simp: pool_ok_def nat_add_distrib)
  have bound: "0 \<le> c_rem (job_push p) (max_job_num p)" "c_rem (job_push p) (max_job_num p) < int ?m"
    using push assms(1) by (auto simp: c_rem_nonneg pool_ok_def)
  have "addtask_locked f p = (Ret (), ?q)"
    using assms bound push
    by (simp add: addtask_locked_def bnd_def gets_def require_def ret_def modify_def pushable_def Let_def)
  moreover have "ring ((tasks p)[?i := x]) (nat (job_pop p)) (Suc (nat (job_num p))) = queue p @ [x]" for x
    unfolding pos queue_def by (rule ring_append) (use assms in \<open>auto simp: pool_ok_def full_def\<close>)
  moreover have "nat (job_num p + 1) = Suc (nat (job_num p))" using assms(1) by (auto simp: pool_ok_def)
  ultimately have "queue ?q = queue p @ [f ?i (tasks p ! ?i)]" "addtask_locked f p = (Ret (), ?q)"
    by (simp_all add: queue_def [of ?q])
  moreover have "pool_ok ?q" using assms by (simp add: pool_ok_def full_def pushable_def)
  ultimately show ?thesis by (intro exI [of _ ?q] exI [of _ ?i] exI [of _ "tasks p ! ?i"]) simp
qed

lemma take_task_ok:
  assumes "pool_ok p" "job_num p \<noteq> 0"
  shows "\<exists>q. take_task p = (Ret ((hd (queue p))\<lparr>arg := Arg_own\<rparr>), q) \<and> pool_ok q \<and> queue q = tl (queue p) \<and>
    max_job_num q = max_job_num p \<and> shutdown q = shutdown p \<and> job_num q = job_num p - 1 \<and> thr_num q = thr_num p"
proof -
  let ?m = "length (tasks p)" and ?i = "nat (c_rem (job_pop p) (max_job_num p))"
  let ?q = "p\<lparr>job_pop := job_pop p + 1, job_num := job_num p - 1\<rparr>"
  have pop: "0 \<le> job_pop p" "0 < max_job_num p" "job_pop p < INT_MAX" using assms by (auto simp: pool_ok_def)
  have pos: "?i = nat (job_pop p) mod ?m"
    using assms(1) by (subst nat_c_rem [OF pop(1,2)]) (auto simp: pool_ok_def)
  have bound: "0 \<le> c_rem (job_pop p) (max_job_num p)" "c_rem (job_pop p) (max_job_num p) < int ?m"
    using pop assms(1) by (auto simp: c_rem_nonneg pool_ok_def)
  have n: "nat (job_num p) = Suc (nat (job_num p - 1))" "nat (job_pop p + 1) = Suc (nat (job_pop p))"
    using assms by (auto simp: pool_ok_def)
  have "queue p = tasks p ! ?i # queue ?q"
    by (simp add: queue_def n ring_Suc pos)
  moreover have "take_task p = (Ret ((tasks p ! ?i)\<lparr>arg := Arg_own\<rparr>), ?q)"
    using pop bound by (simp add: take_task_def bnd_def gets_def require_def ret_def modify_def Let_def)
  moreover have "pool_ok ?q" using assms by (auto simp: pool_ok_def)
  ultimately show ?thesis by (intro exI [of _ ?q]) simp
qed


interpretation simple: bounded_fifo pool_ok queue "\<lambda>p. nat (max_job_num p)" pushable
  "\<lambda>t. t\<lparr>arg := Arg_own\<rparr>" addtask_locked take_task
proof
  show "\<exists>r i a. addtask_locked f q = (Ret (), r) \<and> pool_ok r \<and> queue r = queue q @ [f i a] \<and>
      nat (max_job_num r) = nat (max_job_num q)"
    if "pool_ok q" "pushable q" "length (queue q) < nat (max_job_num q)" for q f
    using addtask_locked_ok [of q f] that by (force simp: full_def)
  show "\<exists>r. take_task q = (Ret ((hd (queue q))\<lparr>arg := Arg_own\<rparr>), r) \<and> pool_ok r \<and> queue r = tl (queue q) \<and>
      nat (max_job_num r) = nat (max_job_num q)"
    if "pool_ok q" "queue q \<noteq> []" for q
  proof -
    have "job_num q \<noteq> 0" using that(2) by (metis length_0_conv length_queue nat_zero_as_int nat_int of_nat_0)
    with take_task_ok [OF that(1)] show ?thesis by auto
  qed
qed (auto simp: pool_ok_def)

end
