(* ===== verification/Threadpool_Threads.thy ===== *)
theory Threadpool_Threads
  imports Threadpool_Simple
begin

text \<open>
  The threads of the simple thread pool: workers, producers and the thread that destroys the
  pool, as steps between the calls of the pthread library. Taking the mutex, testing a
  condition, calling \<^verbatim>\<open>pthread_cond_wait\<close> (which gives the mutex back and sleeps in one step)
  and signalling are steps of their own, so that every interleaving of them is covered; the
  part of a critical section that only touches the pool is one step.
\<close>

section \<open>The step relation\<close>

datatype tid = Worker nat | Producer nat

datatype 'a wpc = WLock | WTest | WWait | WSleep | WBody | WRun "'a PoolTask_scheme option" | WExit

datatype ppc = PIdle | PLock | PTest | PWait | PSleep | PSignal

text \<open>
  \<open>number\<close> is the global \<^verbatim>\<open>beginnum\<close>; \<open>added\<close>, \<open>taken\<close> and \<open>started\<close> record the tasks that were put into the pool, copied out of it,
  and handed to \<^verbatim>\<open>taskRun\<close>; \<open>dpc\<close> counts the steps of \<^verbatim>\<open>destroy_threadpool\<close>.
\<close>

record 'a threads =
  pool :: "'a ThreadPool"
  owner :: "tid option"
  wpc :: "nat \<Rightarrow> 'a wpc"
  ppc :: "nat \<Rightarrow> ppc"
  dpc :: nat
  number :: int
  added :: "'a PoolTask_scheme list"
  taken :: "'a PoolTask_scheme list"
  started :: "'a PoolTask_scheme list"

abbreviation own :: "'a PoolTask_scheme \<Rightarrow> 'a PoolTask_scheme" where
  "own t \<equiv> t\<lparr>arg := Arg_own\<rparr>"

text \<open>\<^verbatim>\<open>pthread_cond_signal\<close> wakes one sleeping thread if there is one.\<close>

definition signalled :: "'s \<Rightarrow> 's \<Rightarrow> (nat \<Rightarrow> 's) \<Rightarrow> (nat \<Rightarrow> 's) \<Rightarrow> bool" where
  "signalled sleep awake f g \<longleftrightarrow> (\<exists>i. f i = sleep \<and> g = f(i := awake)) \<or> (\<forall>i. f i \<noteq> sleep) \<and> g = f"

text \<open>\<^verbatim>\<open>pthread_cond_broadcast\<close> wakes them all.\<close>

definition wake_all :: "'s \<Rightarrow> 's \<Rightarrow> (nat \<Rightarrow> 's) \<Rightarrow> nat \<Rightarrow> 's" where
  "wake_all sleep awake f i = (if f i = sleep then awake else f i)"

definition start :: "'a ThreadPool \<Rightarrow> 'a threads" where
  "start p = \<lparr>pool = p, owner = None, wpc = (\<lambda>i. if int i < thr_num p then WLock else WExit), ppc = (\<lambda>_. PIdle), dpc = 0, number = 1000,
     added = [], taken = [], started = []\<rparr>"

inductive step :: "'a threads \<Rightarrow> 'a threads \<Rightarrow> bool" where
  w_lock: "wpc s w = WLock \<Longrightarrow> owner s = None \<Longrightarrow>
    step s (s\<lparr>owner := Some (Worker w), wpc := (wpc s)(w := WTest)\<rparr>)"
| w_wait: "wpc s w = WTest \<Longrightarrow> must_wait (pool s) \<Longrightarrow> step s (s\<lparr>wpc := (wpc s)(w := WWait)\<rparr>)"
| w_sleep: "wpc s w = WWait \<Longrightarrow> step s (s\<lparr>owner := None, wpc := (wpc s)(w := WSleep)\<rparr>)"
| w_spurious: "wpc s w = WSleep \<Longrightarrow> step s (s\<lparr>wpc := (wpc s)(w := WLock)\<rparr>)"
| w_go: "wpc s w = WTest \<Longrightarrow> \<not> must_wait (pool s) \<Longrightarrow> step s (s\<lparr>wpc := (wpc s)(w := WBody)\<rparr>)"
| w_run: "wpc s w = WBody \<Longrightarrow> thrRun_locked (pool s) = (Ret (Run t), q) \<Longrightarrow>
    (if t = None then pp = ppc s else signalled PSleep PLock (ppc s) pp) \<Longrightarrow>
    step s (s\<lparr>pool := q, owner := None, wpc := (wpc s)(w := WRun t), ppc := pp,
      taken := taken s @ (case t of None \<Rightarrow> [] | Some x \<Rightarrow> [x]),
      started := started s @ (case t of None \<Rightarrow> [] | Some x \<Rightarrow> [x])\<rparr>)"
| w_quit: "wpc s w = WBody \<Longrightarrow> thrRun_locked (pool s) = (Ret (Quit t), q) \<Longrightarrow>
    (if t = None then pp = ppc s else signalled PSleep PLock (ppc s) pp) \<Longrightarrow>
    step s (s\<lparr>pool := q, owner := None, wpc := (wpc s)(w := WExit), ppc := pp,
      taken := taken s @ (case t of None \<Rightarrow> [] | Some x \<Rightarrow> [x])\<rparr>)"
| w_done: "wpc s w = WRun t \<Longrightarrow> call_task t (pool s) = (Ret n, q) \<Longrightarrow> step s (s\<lparr>wpc := (wpc s)(w := WLock)\<rparr>)"
| p_call: "ppc s i = PIdle \<Longrightarrow> step s (s\<lparr>ppc := (ppc s)(i := PLock)\<rparr>)"
| p_lock: "ppc s i = PLock \<Longrightarrow> owner s = None \<Longrightarrow>
    step s (s\<lparr>owner := Some (Producer i), ppc := (ppc s)(i := PTest)\<rparr>)"
| p_wait: "ppc s i = PTest \<Longrightarrow> full (pool s) \<Longrightarrow> step s (s\<lparr>ppc := (ppc s)(i := PWait)\<rparr>)"
| p_sleep: "ppc s i = PWait \<Longrightarrow> step s (s\<lparr>owner := None, ppc := (ppc s)(i := PSleep)\<rparr>)"
| p_spurious: "ppc s i = PSleep \<Longrightarrow> step s (s\<lparr>ppc := (ppc s)(i := PLock)\<rparr>)"
| p_add: "ppc s i = PTest \<Longrightarrow> \<not> full (pool s) \<Longrightarrow> number s < INT_MAX \<Longrightarrow>
    addtask_locked (\<lambda>k t. fill_task (number s) k (g t)) (pool s) = (Ret (), q) \<Longrightarrow>
    step s (s\<lparr>pool := q, owner := None, ppc := (ppc s)(i := PSignal), number := number s + 1,
      added := added s @ [last (queue q)]\<rparr>)"
| p_signal: "ppc s i = PSignal \<Longrightarrow> signalled WSleep WLock (wpc s) ww \<Longrightarrow>
    step s (s\<lparr>ppc := (ppc s)(i := PIdle), wpc := ww\<rparr>)"
| d_shutdown: "dpc s = 0 \<Longrightarrow> step s (s\<lparr>pool := (pool s)\<lparr>shutdown := 1\<rparr>, dpc := 1\<rparr>)"
| d_broadcast: "dpc s = 1 \<Longrightarrow> step s (s\<lparr>wpc := wake_all WSleep WLock (wpc s), dpc := 2\<rparr>)"

inductive reach :: "'a threads \<Rightarrow> 'a threads \<Rightarrow> bool" for x where
  refl: "reach x x"
| more: "reach x y \<Longrightarrow> step y z \<Longrightarrow> reach x z"

section \<open>Mutual exclusion\<close>

definition w_holds :: "'a wpc \<Rightarrow> bool" where
  "w_holds c \<longleftrightarrow> c = WTest \<or> c = WWait \<or> c = WBody"

definition p_holds :: "ppc \<Rightarrow> bool" where
  "p_holds c \<longleftrightarrow> c = PTest \<or> c = PWait"

definition mutex_inv :: "'a threads \<Rightarrow> bool" where
  "mutex_inv s \<longleftrightarrow> (\<forall>w. w_holds (wpc s w) \<longleftrightarrow> owner s = Some (Worker w)) \<and>
     (\<forall>i. p_holds (ppc s i) \<longleftrightarrow> owner s = Some (Producer i))"

lemma holds_simps [simp]:
  "\<not> w_holds WLock" "w_holds WTest" "w_holds WWait" "\<not> w_holds WSleep" "w_holds WBody" "\<not> w_holds (WRun t)"
  "\<not> w_holds WExit" "\<not> p_holds PIdle" "\<not> p_holds PLock" "p_holds PTest" "p_holds PWait" "\<not> p_holds PSleep" "\<not> p_holds PSignal"
  by (simp_all add: w_holds_def p_holds_def)

lemma signalled_holds:
  "signalled PSleep PLock f g \<Longrightarrow> p_holds (g i) = p_holds (f i)"
  "signalled WSleep WLock f' g' \<Longrightarrow> w_holds (g' i) = w_holds (f' i)"
  by (auto simp: signalled_def split: if_splits)

lemma mutex_w: "mutex_inv s \<Longrightarrow> w_holds (wpc s w) = (owner s = Some (Worker w))"
  by (simp add: mutex_inv_def)

lemma mutex_p: "mutex_inv s \<Longrightarrow> p_holds (ppc s i) = (owner s = Some (Producer i))"
  by (simp add: mutex_inv_def)

lemma mutex_start: "mutex_inv (start p)"
  by (simp add: mutex_inv_def start_def)

lemma mutex_step: "step s t \<Longrightarrow> mutex_inv s \<Longrightarrow> mutex_inv t"
proof (induction rule: step.induct)
  case (w_run s w t q pp)
  then have "p_holds (pp i) = p_holds (ppc s i)" for i by (auto split: if_splits dest: signalled_holds)
  with w_run mutex_w [of s w] show ?case by (auto simp: mutex_inv_def)
next
  case (w_quit s w t q pp)
  then have "p_holds (pp i) = p_holds (ppc s i)" for i by (auto split: if_splits dest: signalled_holds)
  with w_quit mutex_w [of s w] show ?case by (auto simp: mutex_inv_def)
next
  case (p_signal s i ww)
  then have "w_holds (ww w) = w_holds (wpc s w)" for w by (auto dest: signalled_holds)
  with p_signal mutex_p [of s i] show ?case by (auto simp: mutex_inv_def)
next
  case (w_lock s w) with mutex_w [of s w] show ?case by (auto simp: mutex_inv_def)
next
  case (w_wait s w) with mutex_w [of s w] show ?case by (auto simp: mutex_inv_def)
next
  case (w_sleep s w) with mutex_w [of s w] show ?case by (auto simp: mutex_inv_def)
next
  case (w_spurious s w) with mutex_w [of s w] show ?case by (auto simp: mutex_inv_def)
next
  case (w_go s w) with mutex_w [of s w] show ?case by (auto simp: mutex_inv_def)
next
  case (w_done s w) with mutex_w [of s w] show ?case by (auto simp: mutex_inv_def)
next
  case (p_call s i) with mutex_p [of s i] show ?case by (auto simp: mutex_inv_def)
next
  case (p_lock s i) with mutex_p [of s i] show ?case by (auto simp: mutex_inv_def)
next
  case (p_wait s i) with mutex_p [of s i] show ?case by (auto simp: mutex_inv_def)
next
  case (p_sleep s i) with mutex_p [of s i] show ?case by (auto simp: mutex_inv_def)
next
  case (p_spurious s i) with mutex_p [of s i] show ?case by (auto simp: mutex_inv_def)
next
  case (p_add s i) with mutex_p [of s i] show ?case by (auto simp: mutex_inv_def)
next
  case (d_broadcast s)
  have "w_holds (wake_all WSleep WLock (wpc s) w) = w_holds (wpc s w)" for w by (simp add: wake_all_def)
  with d_broadcast show ?case by (simp add: mutex_inv_def)
qed (auto simp: mutex_inv_def)

section \<open>The tasks\<close>

definition wpc_ok :: "'a ThreadPool \<Rightarrow> 'a wpc \<Rightarrow> bool" where
  "wpc_ok p c = (case c of WBody \<Rightarrow> \<not> must_wait p | WWait \<Rightarrow> job_num p = 0
     | WRun x \<Rightarrow> (\<exists>t. x = Some t \<and> task_func t = Fn_taskRun \<and> arg t = Arg_own) | _ \<Rightarrow> True)"

definition data_inv :: "'a threads \<Rightarrow> bool" where
  "data_inv s \<longleftrightarrow> pool_ok (pool s) \<and> shutdown (pool s) = (if dpc s = 0 then 0 else 1) \<and>
     map own (added s) = taken s @ map own (queue (pool s)) \<and>
     (\<forall>t \<in> set (queue (pool s)). task_func t = Fn_taskRun) \<and>
     map tasknum (added s) = [1000..number s - 1] \<and> 1000 \<le> number s \<and>
     (\<forall>w. wpc_ok (pool s) (wpc s w)) \<and> (dpc s = 0 \<longrightarrow> started s = taken s)"

lemma thrRun_locked_cases:
  assumes "pool_ok p" "\<not> must_wait p" "thrRun_locked p = (Ret v, q)"
  shows "(if job_num p = 0 then q = p \<and> v = Quit None
     else pool_ok q \<and> queue q = tl (queue p) \<and> shutdown q = shutdown p \<and> thr_num q = thr_num p \<and>
       max_job_num q = max_job_num p \<and> job_num q = job_num p - 1 \<and>
       v = (if shutdown p \<noteq> 0 then Quit (Some (own (hd (queue p)))) else Run (Some (own (hd (queue p))))))"
proof (cases "job_num p = 0")
  case True
  with assms show ?thesis
    by (auto simp: thrRun_locked_def bnd_def gets_def ret_def must_wait_def)
next
  case False
  with take_task_ok [OF assms(1)] assms(3) show ?thesis
    by (auto simp: thrRun_locked_def bnd_def gets_def ret_def)
qed

lemma thrRun_locked_ret:
  assumes "pool_ok p"
  shows "\<exists>v q. thrRun_locked p = (Ret v, q)"
proof (cases "job_num p = 0")
  case True
  then show ?thesis by (simp add: thrRun_locked_def bnd_def gets_def ret_def)
next
  case False
  with take_task_ok [OF assms] show ?thesis by (auto simp: thrRun_locked_def bnd_def gets_def ret_def)
qed

lemma data_start:
  assumes "0 < m" "length junk = nat m" "m \<le> INT_MAX"
  shows "data_inv (start (create_threadpool n m junk))"
  using assms by (auto simp: data_inv_def start_def create_threadpool_def pool_ok_def queue_def wpc_ok_def)

lemma wpc_ok_simps [simp]:
  "wpc_ok p WLock" "wpc_ok p WTest" "wpc_ok p WSleep" "wpc_ok p WExit"
  "wpc_ok p WBody = (\<not> must_wait p)" "wpc_ok p WWait = (job_num p = 0)"
  "wpc_ok p (WRun x) = (\<exists>t. x = Some t \<and> task_func t = Fn_taskRun \<and> arg t = Arg_own)"
  by (simp_all add: wpc_ok_def)

text \<open>A worker that does not hold the mutex does not depend on the pool.\<close>

lemma wpc_ok_free: "\<not> w_holds c \<Longrightarrow> wpc_ok p c \<Longrightarrow> wpc_ok q c"
  by (cases c) (auto simp: w_holds_def)

lemma wpc_ok_others:
  assumes "mutex_inv s" "data_inv s" "owner s = Some th" "th \<noteq> Worker w"
  shows "wpc_ok q (wpc s w)"
  using assms by (metis data_inv_def mutex_w option.inject wpc_ok_free)

lemma data_take:
  assumes "data_inv s" "mutex_inv s" "wpc s w = WBody" "thrRun_locked (pool s) = (Ret v, q)"
  shows "pool_ok q \<and> shutdown q = shutdown (pool s) \<and>
    (\<exists>x. v = (if shutdown (pool s) \<noteq> 0 then Quit x else Run x) \<and>
      taken s @ (case x of None \<Rightarrow> [] | Some t \<Rightarrow> [t]) @ map own (queue q) = map own (added s) \<and>
      (shutdown (pool s) = 0 \<longrightarrow> wpc_ok q (WRun x))) \<and>
    (\<forall>t \<in> set (queue q). task_func t = Fn_taskRun) \<and> (\<forall>u. u \<noteq> w \<longrightarrow> wpc_ok q (wpc s u))"
proof -
  have ok: "pool_ok (pool s)" "\<not> must_wait (pool s)"
    using assms(1,3) by (auto simp: data_inv_def dest!: spec [of _ w])
  note c = thrRun_locked_cases [OF ok assms(4)]
  have "owner s = Some (Worker w)" using mutex_w [OF assms(2), of w] assms(3) by simp
  then have "\<forall>u. u \<noteq> w \<longrightarrow> wpc_ok q (wpc s u)" using wpc_ok_others [OF assms(2,1)] by (metis tid.inject(1))
  moreover have "queue (pool s) \<noteq> []" if "job_num (pool s) \<noteq> 0"
    using that ok(1) by (simp add: pool_ok_def flip: length_greater_0_conv)
  ultimately show ?thesis using c assms(1) ok
    by (cases "queue (pool s)") (auto simp: data_inv_def must_wait_def split: if_splits)
qed

lemma data_add:
  assumes "data_inv s" "mutex_inv s" "ppc s i = PTest" "\<not> full (pool s)"
    "addtask_locked (\<lambda>k t. fill_task n k (g t)) (pool s) = (Ret (), q)"
  shows "pool_ok q \<and> shutdown q = shutdown (pool s) \<and>
    (\<exists>x. queue q = queue (pool s) @ [x] \<and> task_func x = Fn_taskRun \<and> tasknum x = n) \<and> (\<forall>w. wpc_ok q (wpc s w))"
proof -
  have push: "pushable (pool s)" "pool_ok (pool s)"
    using assms(1,5) by (auto simp: data_inv_def addtask_locked_def bnd_def gets_def require_def fault_def pushable_def split: if_splits)
  have "owner s = Some (Producer i)" using mutex_p [OF assms(2), of i] assms(3) by simp
  then have "\<forall>w. wpc_ok q (wpc s w)" using wpc_ok_others [OF assms(2,1)] by (metis tid.distinct(1))
  with addtask_locked_ok [OF push(2,1) assms(4), of "\<lambda>k t. fill_task n k (g t)"] assms(5) show ?thesis
    by (auto simp: fill_task_def)
qed

lemma data_step: "step s t \<Longrightarrow> mutex_inv s \<Longrightarrow> data_inv s \<Longrightarrow> data_inv t"
proof (induction rule: step.induct)
  case (w_run s w t q pp)
  with data_take [of s w "Run t" q] show ?case by (auto simp: data_inv_def split: if_splits)
next
  case (w_quit s w t q pp)
  with data_take [of s w "Quit t" q] show ?case by (auto simp: data_inv_def split: if_splits)
next
  case (p_add s i g q)
  with data_add [of s i "number s" g q] show ?case by (auto simp: data_inv_def simp flip: upto_rec2)
next
  case (p_signal s i ww)
  then have "wpc_ok (pool s) (ww w)" for w by (auto simp: data_inv_def signalled_def)
  with p_signal show ?case by (simp add: data_inv_def)
next
  case (d_shutdown s)
  have "wpc_ok ((pool s)\<lparr>shutdown := 1\<rparr>) (wpc s w)" if "wpc_ok (pool s) (wpc s w)" for w
    using that by (cases "wpc s w") (auto simp: must_wait_def)
  with d_shutdown show ?case by (auto simp: data_inv_def pool_ok_def queue_def)
next
  case (w_wait s w)
  then show ?case by (auto simp: data_inv_def must_wait_def pool_ok_def)
qed (auto simp: data_inv_def wake_all_def)

lemma reach_inv:
  assumes "reach x s" "mutex_inv x" "data_inv x"
  shows "mutex_inv s" "data_inv s"
  using assms by (induction rule: reach.induct) (auto intro: mutex_step data_step)

section \<open>Wake-ups\<close>

definition wake_inv :: "'a threads \<Rightarrow> bool" where
  "wake_inv s \<longleftrightarrow> dpc s = 0 \<longrightarrow> (\<forall>w. wpc s w = WExit \<longrightarrow> thr_num (pool s) \<le> int w) \<and>
     (job_num (pool s) \<noteq> 0 \<and> (\<exists>w. wpc s w = WSleep) \<and> (\<forall>w. wpc s w = WSleep \<or> wpc s w = WExit) \<longrightarrow>
       (\<exists>i. ppc s i = PSignal))"

lemma addtask_locked_job_num:
  "addtask_locked f p = (Ret (), q) \<Longrightarrow> job_num q = job_num p + 1 \<and> thr_num q = thr_num p \<and> max_job_num q = max_job_num p"
  by (auto simp: addtask_locked_def bnd_def gets_def require_def fault_def ret_def modify_def Let_def split: if_splits)

lemma signalled_PSignal: "signalled PSleep PLock f g \<Longrightarrow> g i = PSignal \<longleftrightarrow> f i = PSignal"
  by (auto simp: signalled_def split: if_splits)

lemma thrRun_thr_num:
  assumes "data_inv s" "wpc s w = WBody" "thrRun_locked (pool s) = (Ret v, q)"
  shows "thr_num q = thr_num (pool s)" "max_job_num q = max_job_num (pool s)"
    "job_num q = job_num (pool s) - (if v = Quit None then 0 else 1)" "v \<noteq> Run None" "dpc s = 0 \<Longrightarrow> v \<noteq> Quit x"
proof -
  have ok: "pool_ok (pool s)" "\<not> must_wait (pool s)" "dpc s = 0 \<Longrightarrow> shutdown (pool s) = 0"
    using assms(1,2) by (auto simp: data_inv_def dest!: spec [of _ w])
  from thrRun_locked_cases [OF ok(1,2) assms(3)] ok(2,3)
  show "thr_num q = thr_num (pool s)" "max_job_num q = max_job_num (pool s)"
    "job_num q = job_num (pool s) - (if v = Quit None then 0 else 1)" "v \<noteq> Run None" "dpc s = 0 \<Longrightarrow> v \<noteq> Quit x"
    by (auto simp: must_wait_def split: if_splits)
qed

lemma wake_step: "step s t \<Longrightarrow> data_inv s \<Longrightarrow> wake_inv s \<Longrightarrow> wake_inv t"
proof (induction rule: step.induct)
  case (w_run s w t q pp)
  with thrRun_thr_num [of s w "Run t" q] show ?case by (auto simp: wake_inv_def)
next
  case (w_quit s w t q pp)
  with thrRun_thr_num(5) [of s w "Quit t" q t] show ?case by (auto simp: wake_inv_def)
next
  case (w_sleep s w)
  then have "job_num (pool s) = 0" by (auto simp: data_inv_def dest!: spec [of _ w])
  with w_sleep show ?case by (auto simp: wake_inv_def)
next
  case (p_add s i g q)
  then show ?case by (auto simp: wake_inv_def dest!: addtask_locked_job_num)
next
  case (p_signal s i ww)
  from p_signal(2) have "ww w = WExit \<longrightarrow> wpc s w = WExit" for w
    by (auto simp: signalled_def split: if_splits)
  moreover have "(\<exists>w. ww w = WLock) \<or> (\<forall>w. ww w \<noteq> WSleep)"
    using p_signal(2) unfolding signalled_def by (metis fun_upd_same)
  then have "\<not> ((\<exists>w. ww w = WSleep) \<and> (\<forall>w. ww w = WSleep \<or> ww w = WExit))" by (metis wpc.distinct)
  ultimately show ?case using p_signal(4) by (simp add: wake_inv_def) blast
qed (simp_all add: wake_inv_def, (metis ppc.distinct)+)

definition ready :: "(nat \<Rightarrow> ppc) \<Rightarrow> nat" where
  "ready f = card {i. f i = PLock \<or> f i = PTest}"

definition room_inv :: "'a threads \<Rightarrow> bool" where
  "room_inv s \<longleftrightarrow> finite {i. ppc s i \<noteq> PIdle} \<and> (\<forall>i. ppc s i = PWait \<longrightarrow> full (pool s)) \<and>
     ((\<exists>i. ppc s i = PSleep) \<longrightarrow> max_job_num (pool s) - job_num (pool s) \<le> int (ready (ppc s)))"

lemmas finite_upd = finite_fun_upd [of "\<lambda>c. c \<noteq> PIdle"]

lemma finite_ready: "finite {i. f i \<noteq> PIdle} \<Longrightarrow> finite {i. f i = PLock \<or> f i = PTest}"
  by (rule finite_subset [of _ "{i. f i \<noteq> PIdle}"]) auto

lemma ready_upd:
  assumes "finite {i. f i \<noteq> PIdle}"
  shows "int (ready (f(k := c))) = int (ready f) + (if c = PLock \<or> c = PTest then 1 else 0) - (if f k = PLock \<or> f k = PTest then 1 else 0)"
  unfolding ready_def by (rule card_fun_upd [of "\<lambda>c. c = PLock \<or> c = PTest", OF finite_ready [OF assms]])

lemma signalled_room:
  assumes "signalled PSleep PLock f g" "finite {i. f i \<noteq> PIdle}"
  shows "finite {i. g i \<noteq> PIdle} \<and> (\<forall>i. g i = PWait \<longrightarrow> f i = PWait) \<and>
    ((\<exists>i. g i = PSleep) \<longrightarrow> (\<exists>i. f i = PSleep) \<and> int (ready g) = int (ready f) + 1)"
  using assms(1) unfolding signalled_def
proof
  assume "\<exists>i. f i = PSleep \<and> g = f(i := PLock)"
  then obtain i where i: "f i = PSleep" "g = f(i := PLock)" by blast
  have "(\<forall>j. g j = PWait \<longrightarrow> f j = PWait)" using i by simp
  moreover have "int (ready g) = int (ready f) + 1" using ready_upd [OF assms(2), of i PLock] i by simp
  ultimately show ?thesis using finite_upd [OF assms(2), of i PLock] i by blast
qed (use assms(2) in auto)

lemma room_take:
  assumes "room_inv s" "if t = None then pp = ppc s else signalled PSleep PLock (ppc s) pp"
    "max_job_num q = max_job_num (pool s)" "job_num q = job_num (pool s) - (if t = None then 0 else 1)"
    "\<forall>i. ppc s i \<noteq> PWait"
  shows "finite {i. pp i \<noteq> PIdle} \<and> (\<forall>i. pp i = PWait \<longrightarrow> full q) \<and>
     ((\<exists>i. pp i = PSleep) \<longrightarrow> max_job_num q - job_num q \<le> int (ready pp))"
proof (cases "t = None")
  case True
  with assms show ?thesis by (auto simp: room_inv_def)
next
  case False
  have "finite {i. ppc s i \<noteq> PIdle}" using assms(1) by (simp add: room_inv_def)
  with False assms(2) have sig: "finite {i. pp i \<noteq> PIdle}" "\<forall>i. pp i = PWait \<longrightarrow> ppc s i = PWait"
    "\<exists>i. pp i = PSleep \<Longrightarrow> \<exists>i. ppc s i = PSleep" "\<exists>i. pp i = PSleep \<Longrightarrow> int (ready pp) = int (ready (ppc s)) + 1"
    by (auto dest!: signalled_room)
  have "max_job_num q - job_num q \<le> int (ready pp)" if "\<exists>i. pp i = PSleep"
    using sig(3,4) [OF that] assms(1,3,4) False by (simp add: room_inv_def)
  with sig(1,2) assms(5) show ?thesis by blast
qed

lemma no_PWait: "mutex_inv s \<Longrightarrow> w_holds (wpc s w) \<Longrightarrow> \<forall>i. ppc s i \<noteq> PWait"
  using mutex_p mutex_w holds_simps(11) by (metis option.inject tid.distinct(1))

lemma room_step: "step s t \<Longrightarrow> mutex_inv s \<Longrightarrow> data_inv s \<Longrightarrow> room_inv s \<Longrightarrow> room_inv t"
proof (induction rule: step.induct)
  case (w_run s w t q pp)
  with thrRun_thr_num [of s w "Run t" q] room_take [of s t pp q] no_PWait [of s w]
  show ?case by (auto simp: room_inv_def)
next
  case (w_quit s w t q pp)
  with thrRun_thr_num [of s w "Quit t" q] room_take [of s t pp q] no_PWait [of s w]
  show ?case by (auto simp: room_inv_def)
next
  case (p_call s i)
  with finite_upd [of "ppc s" i PLock] ready_upd [of "ppc s" i PLock] show ?case by (auto simp: room_inv_def)
next
  case (p_lock s i)
  with finite_upd [of "ppc s" i PTest] ready_upd [of "ppc s" i PTest] show ?case by (auto simp: room_inv_def)
next
  case (p_wait s i)
  with finite_upd [of "ppc s" i PWait] show ?case by (auto simp: room_inv_def full_def)
next
  case (p_sleep s i)
  with finite_upd [of "ppc s" i PSleep] show ?case by (auto simp: room_inv_def full_def)
next
  case (p_spurious s i)
  with finite_upd [of "ppc s" i PLock] ready_upd [of "ppc s" i PLock] show ?case by (auto simp: room_inv_def)
next
  case (p_add s i g q)
  have "\<forall>j. ppc s j = PWait \<longrightarrow> j = i" using mutex_p [OF p_add(5)] p_add(1) by (metis holds_simps(10,11) option.inject tid.inject(2))
  with p_add finite_upd [of "ppc s" i PSignal] ready_upd [of "ppc s" i PSignal] show ?case
    by (auto simp: room_inv_def full_def dest!: addtask_locked_job_num)
next
  case (p_signal s i ww)
  with finite_upd [of "ppc s" i PIdle] ready_upd [of "ppc s" i PIdle] show ?case by (auto simp: room_inv_def)
next
  case (d_shutdown s)
  then show ?case by (auto simp: room_inv_def full_def)
qed (auto simp: room_inv_def)

lemma sizes_step: "step s t \<Longrightarrow> data_inv s \<Longrightarrow> thr_num (pool t) = thr_num (pool s) \<and> max_job_num (pool t) = max_job_num (pool s)"
proof (induction rule: step.induct)
  case (w_run s w t q pp)
  with thrRun_thr_num(1,2) [of s w "Run t" q] show ?case by simp
next
  case (w_quit s w t q pp)
  with thrRun_thr_num(1,2) [of s w "Quit t" q] show ?case by simp
next
  case (p_add s i g q)
  with addtask_locked_job_num [of _ "pool s" q] show ?case by simp
qed simp_all

lemma thread_invariants:
  assumes "reach (start (create_threadpool n m junk)) s" "0 < m" "m \<le> INT_MAX" "length junk = nat m"
  shows "mutex_inv s" "data_inv s" "wake_inv s" "room_inv s" "thr_num (pool s) = n" "max_job_num (pool s) = m"
proof -
  let ?s = "start (create_threadpool n m junk)"
  have "mutex_inv s \<and> data_inv s \<and> wake_inv s \<and> room_inv s \<and> thr_num (pool s) = n \<and> max_job_num (pool s) = m"
    using assms(1)
  proof induction
    case refl
    have "wake_inv ?s" "room_inv ?s" "thr_num (pool ?s) = n" "max_job_num (pool ?s) = m"
      by (auto simp: wake_inv_def room_inv_def start_def create_threadpool_def)
    then show ?case using mutex_start data_start [OF assms(2,4,3), of n] by blast
  next
    case (more y z)
    then show ?case using sizes_step [of y z] by (auto intro: mutex_step data_step wake_step room_step)
  qed
  then show "mutex_inv s" "data_inv s" "wake_inv s" "room_inv s" "thr_num (pool s) = n" "max_job_num (pool s) = m" by auto
qed

end
