(* ===== verification/Threadpool_Correct.thy ===== *)
theory Threadpool_Correct
  imports Threadpool_Threads
begin

text \<open>
  What the simple thread pool guarantees, over every interleaving of its threads, and an
  interleaving in which \<^verbatim>\<open>destroy_threadpool\<close> goes wrong.
\<close>

section \<open>Runs of one worker\<close>

definition blank :: PoolTask where
  "blank = \<lparr>tasknum = 0, arg = Arg_junk, task_func = Fn_junk\<rparr>"

definition one_worker :: "unit threads" where
  "one_worker = start (create_threadpool 1 1 [blank])"

lemmas one_worker_simps = one_worker_def start_def create_threadpool_def blank_def

lemmas locked_simps = addtask_locked_def take_task_def thrRun_locked_def call_task_def bnd_def gets_def require_def ret_def
  modify_def Let_def c_rem_def fill_task_def full_def must_wait_def queue_def ring_def INT_MAX_def

text \<open>A producer adds a task, the worker takes and runs it.\<close>

lemma run_one:
  "\<exists>s. reach one_worker s \<and> dpc s = 0 \<and> wpc s 0 = WRun (Some \<lparr>tasknum = 1000, arg = Arg_own, task_func = Fn_taskRun\<rparr>) \<and>
     map tasknum (started s) = [1000] \<and> queue (pool s) = [] \<and> ppc s = (\<lambda>_. PIdle) \<and> number s = 1001 \<and> owner s = None \<and>
     (\<forall>w. w \<noteq> 0 \<longrightarrow> wpc s w = WExit) \<and> pool s = \<lparr>max_job_num = 1, job_num = 0,
       tasks = [\<lparr>tasknum = 1000, arg = Arg_slot 0, task_func = Fn_taskRun\<rparr>], job_push = 1, job_pop = 1, thr_num = 1, shutdown = 0\<rparr>"
proof -
  let ?s0 = one_worker
  define s1 where "s1 = ?s0\<lparr>ppc := (ppc ?s0)(0 := PLock)\<rparr>"
  define s2 where "s2 = s1\<lparr>owner := Some (Producer 0), ppc := (ppc s1)(0 := PTest)\<rparr>"
  define q where "q = (pool s2)\<lparr>job_push := 1, tasks := [\<lparr>tasknum = 1000, arg = Arg_slot 0, task_func = Fn_taskRun\<rparr>], job_num := 1\<rparr>"
  define s3 where "s3 = s2\<lparr>pool := q, owner := None, ppc := (ppc s2)(0 := PSignal), number := number s2 + 1,
      added := added s2 @ [last (queue q)]\<rparr>"
  define s4 where "s4 = s3\<lparr>ppc := (ppc s3)(0 := PIdle), wpc := wpc s3\<rparr>"
  define s5 where "s5 = s4\<lparr>owner := Some (Worker 0), wpc := (wpc s4)(0 := WTest)\<rparr>"
  define s6 where "s6 = s5\<lparr>wpc := (wpc s5)(0 := WBody)\<rparr>"
  let ?t = "Some \<lparr>tasknum = 1000, arg = Arg_own, task_func = Fn_taskRun\<rparr>"
  define r where "r = q\<lparr>job_pop := 1, job_num := 0\<rparr>"
  define s7 where "s7 = s6\<lparr>pool := r, owner := None, wpc := (wpc s6)(0 := WRun ?t), ppc := ppc s6,
      taken := taken s6 @ (case ?t of None \<Rightarrow> [] | Some x \<Rightarrow> [x]),
      started := started s6 @ (case ?t of None \<Rightarrow> [] | Some x \<Rightarrow> [x])\<rparr>"
  note d = s1_def s2_def s3_def s4_def s5_def s6_def s7_def q_def r_def one_worker_simps
  have "step ?s0 s1" unfolding s1_def by (rule step.p_call) (simp add: d)
  moreover have "step s1 s2" unfolding s2_def by (rule step.p_lock) (simp_all add: d)
  moreover have "step s2 s3" unfolding s3_def
    by (rule step.p_add [where g = "\<lambda>t. t"]) (simp_all add: d locked_simps)
  moreover have "step s3 s4" unfolding s4_def by (rule step.p_signal) (simp_all add: d signalled_def)
  moreover have "step s4 s5" unfolding s5_def by (rule step.w_lock) (simp_all add: d)
  moreover have "step s5 s6" unfolding s6_def by (rule step.w_go) (simp_all add: d locked_simps)
  moreover have "step s6 s7" unfolding s7_def by (rule step.w_run) (simp_all add: d locked_simps signalled_def)
  ultimately have "reach one_worker s7" by (meson reach.intros)
  then show ?thesis by (intro exI [of _ s7]) (simp add: d locked_simps fun_eq_iff)
qed

text \<open>From there it goes back to sleep: nothing is left to do.\<close>

lemma run_one_idle:
  "\<exists>s. reach one_worker s \<and> dpc s = 0 \<and> wpc s 0 = WSleep \<and> map tasknum (started s) = [1000] \<and> ppc s = (\<lambda>_. PIdle) \<and>
     (\<forall>w. w \<noteq> 0 \<longrightarrow> wpc s w = WExit)"
proof -
  obtain s where s: "reach one_worker s" "dpc s = 0" "wpc s 0 = WRun (Some \<lparr>tasknum = 1000, arg = Arg_own, task_func = Fn_taskRun\<rparr>)"
    "map tasknum (started s) = [1000]" "ppc s = (\<lambda>_. PIdle)" "owner s = None" "must_wait (pool s)" "\<forall>w. w \<noteq> 0 \<longrightarrow> wpc s w = WExit"
    using run_one by (auto simp: must_wait_def)
  define s1 where "s1 = s\<lparr>wpc := (wpc s)(0 := WLock)\<rparr>"
  define s2 where "s2 = s1\<lparr>owner := Some (Worker 0), wpc := (wpc s1)(0 := WTest)\<rparr>"
  define s3 where "s3 = s2\<lparr>wpc := (wpc s2)(0 := WWait)\<rparr>"
  define s4 where "s4 = s3\<lparr>owner := None, wpc := (wpc s3)(0 := WSleep)\<rparr>"
  note d = s1_def s2_def s3_def s4_def
  have "step s s1" unfolding s1_def
    by (rule step.w_done [where n = 1000 and q = "pool s"]) (rule s(3), simp add: call_task_def bnd_def require_def ret_def)
  moreover have "step s1 s2" unfolding s2_def by (rule step.w_lock) (simp_all add: d s)
  moreover have "step s2 s3" unfolding s3_def by (rule step.w_wait) (simp_all add: d s)
  moreover have "step s3 s4" unfolding s4_def by (rule step.w_sleep) (simp add: d s)
  ultimately have "reach one_worker s4" using s(1) by (meson reach.intros)
  then show ?thesis by (intro exI [of _ s4]) (simp add: d s)
qed

section \<open>Mutual exclusion and the fate of a task\<close>

definition critical :: "'a threads \<Rightarrow> tid \<Rightarrow> bool" where
  "critical s th = (case th of Worker w \<Rightarrow> w_holds (wpc s w) | Producer i \<Rightarrow> p_holds (ppc s i))"

lemma critical_owner: "mutex_inv s \<Longrightarrow> critical s th = (owner s = Some th)"
  by (cases th) (auto simp: critical_def mutex_inv_def)

text \<open>
  C26: The mutex works as it is used: of all the threads of the pool, workers that test, wait
  or take and producers that test or wait, at most one is inside its critical section.
\<close>

theorem pool_mutual_exclusion:
  assumes "reach (start (create_threadpool n m junk)) s" "0 < m" "m \<le> INT_MAX" "length junk = nat m"
    "critical s a" "critical s b"
  shows "a = b"
  using assms(5,6) critical_owner [OF thread_invariants(1) [OF assms(1-4)]] by simp

theorem pool_mutual_exclusion_witness:
  "\<exists>s. reach (start (create_threadpool 1 1 [blank])) s \<and> critical s (Producer 3) \<and> (\<forall>b. critical s b \<longrightarrow> Producer 3 = b)"
proof -
  let ?s = "start (create_threadpool 1 1 [blank])"
  let ?s1 = "?s\<lparr>ppc := (ppc ?s)(3 := PLock)\<rparr>"
  let ?s2 = "?s1\<lparr>owner := Some (Producer 3), ppc := (ppc ?s1)(3 := PTest)\<rparr>"
  have "step ?s ?s1" by (rule step.p_call) (simp add: start_def)
  moreover have "step ?s1 ?s2" by (rule step.p_lock) (simp_all add: start_def)
  ultimately have r: "reach ?s ?s2" by (meson reach.intros)
  have c: "critical ?s2 (Producer 3)" by (simp add: critical_def)
  have "critical ?s2 b \<longrightarrow> Producer 3 = b" for b
    using pool_mutual_exclusion [OF r, of "Producer 3" b] c by (simp add: INT_MAX_def)
  with r c show ?thesis by blast
qed

lemma tasks_numbered:
  assumes "data_inv s" "dpc s = 0"
  shows "map tasknum (started s) @ map tasknum (queue (pool s)) = [1000..number s - 1]"
proof -
  from assms have "map tasknum (map own (added s)) = map tasknum (started s @ map own (queue (pool s)))"
    "map tasknum (added s) = [1000..number s - 1]"
    by (simp_all add: data_inv_def)
  then show ?thesis by (simp add: comp_def)
qed



text \<open>
  C25: No worker ever fails: the part of \<^verbatim>\<open>thrRun\<close> under the mutex stays inside the task array
  and does not overflow, and the function pointer and argument a worker calls afterwards are
  those a producer stored, never the uninitialised contents of its own block.
\<close>

theorem worker_safe:
  assumes "reach (start (create_threadpool n m junk)) s" "0 < m" "m \<le> INT_MAX" "length junk = nat m"
  shows "case wpc s w of WBody \<Rightarrow> \<exists>v q. thrRun_locked (pool s) = (Ret v, q)
    | WRun x \<Rightarrow> \<exists>k. call_task x (pool s) = (Ret k, pool s) | _ \<Rightarrow> True"
proof -
  from thread_invariants(2) [OF assms] have "pool_ok (pool s)" "wpc_ok (pool s) (wpc s w)" by (simp_all add: data_inv_def)
  then show ?thesis
    by (auto simp: thrRun_locked_ret call_task_def bnd_def require_def ret_def split: wpc.splits)
qed

theorem worker_safe_witness:
  "\<exists>s x. reach one_worker s \<and> wpc s 0 = WRun x \<and> (\<exists>k. call_task x (pool s) = (Ret k, pool s))"
proof -
  obtain s x where s: "reach one_worker s" "wpc s 0 = WRun x" using run_one by blast
  with worker_safe [of 1 1 "[blank]" s 0] show ?thesis by (auto simp: one_worker_def INT_MAX_def)
qed

text \<open>
  C8: No wake-up is lost while the pool is open: when every worker sleeps, no producer is
  inside \<^verbatim>\<open>addtask\<close> except asleep, and nobody has called \<^verbatim>\<open>destroy_threadpool\<close>, then the ring is
  empty, no producer is waiting for room, and every task ever added has been started.
\<close>

theorem quiescent_done:
  assumes "reach (start (create_threadpool n m junk)) s" "0 < m" "m \<le> INT_MAX" "length junk = nat m" "dpc s = 0" "0 < n"
    "\<forall>w. wpc s w = WSleep \<or> wpc s w = WExit" "\<forall>i. ppc s i = PIdle \<or> ppc s i = PSleep"
  shows "map tasknum (started s) = [1000..number s - 1] \<and> (\<forall>i. ppc s i = PIdle)"
proof -
  note inv = thread_invariants [OF assms(1-4)]
  have "wpc s 0 = WSleep" using inv(3,5) assms(5,6,7) by (force simp: wake_inv_def)
  moreover have "\<forall>i. ppc s i \<noteq> PSignal" using assms(8) by (metis ppc.distinct)
  ultimately have "job_num (pool s) = 0" using inv(3) assms(5,7) by (auto simp: wake_inv_def)
  then have q: "queue (pool s) = []" by (simp add: queue_def)
  have "{i. ppc s i = PLock \<or> ppc s i = PTest} = {}" using assms(8) by (metis (mono_tags, lifting) empty_Collect_eq ppc.distinct)
  then have "ready (ppc s) = 0" by (simp add: ready_def)
  then have "\<forall>i. ppc s i \<noteq> PSleep" using inv(4,6) \<open>job_num (pool s) = 0\<close> assms(2) by (auto simp: room_inv_def)
  moreover have "map tasknum (started s) = [1000..number s - 1]"
    using q tasks_numbered [OF inv(2) assms(5)] by simp
  ultimately show ?thesis using assms(8) by blast
qed

theorem quiescent_done_witness:
  "\<exists>s. reach one_worker s \<and> wpc s 0 = WSleep \<and> started s \<noteq> [] \<and>
     map tasknum (started s) = [1000..number s - 1] \<and> (\<forall>i. ppc s i = PIdle)"
proof -
  obtain s where s: "reach one_worker s" "dpc s = 0" "wpc s 0 = WSleep" "started s \<noteq> []" "ppc s = (\<lambda>_. PIdle)"
    "\<forall>w. w \<noteq> 0 \<longrightarrow> wpc s w = WExit"
    using run_one_idle by fastforce
  then have "\<forall>w. wpc s w = WSleep \<or> wpc s w = WExit" by metis
  with s quiescent_done [of 1 1 "[blank]" s] show ?thesis by (auto simp: one_worker_def INT_MAX_def)
qed

text \<open>
  The ring with its two ever-growing positions is a bounded queue: along any history of
  \<^verbatim>\<open>addtask\<close> and of removals by workers, one at a time, from a new pool, the tasks removed
  are the tasks added, in order, each with its argument redirected to the worker's own copy.
\<close>

theorem simple_ring_fifo:
  assumes "simple.history (create_threadpool n m junk) ins outs p" "0 < m" "m \<le> INT_MAX" "length junk = nat m"
  shows "map own ins = outs @ map own (queue p)"
proof -
  have "pool_ok (create_threadpool n m junk)" "queue (create_threadpool n m junk) = []"
    using assms(2-4) by (simp_all add: create_threadpool_def pool_ok_def queue_def)
  with simple.history_fifo [OF assms(1)] show ?thesis by simp
qed

theorem simple_ring_fifo_witness:
  "\<exists>ins outs p. simple.history (create_threadpool 1 1 [blank]) ins outs p \<and> ins \<noteq> [] \<and>
     map own ins = outs @ map own (queue p)"
proof -
  let ?p = "create_threadpool 1 1 [blank]"
  let ?t = "\<lparr>tasknum = 1000, arg = Arg_slot 0, task_func = Fn_taskRun\<rparr>"
  let ?q = "?p\<lparr>job_push := 1, tasks := [?t], job_num := 1\<rparr>"
  have "simple.history ?p ([] @ [last (queue ?q)]) [] ?q"
    by (rule simple.history.put [OF simple.history.none, where f = "fill_task 1000"])
      (simp_all add: create_threadpool_def pushable_def blank_def locked_simps)
  then have h: "simple.history ?p [last (queue ?q)] [] ?q" by simp
  then have "map own [last (queue ?q)] = [] @ map own (queue ?q)"
    by (rule simple_ring_fifo) (simp_all add: INT_MAX_def)
  moreover have "[last (queue ?q)] \<noteq> []" by simp
  ultimately show ?thesis using h by blast
qed

section \<open>Shutting down\<close>

text \<open>
  \<^verbatim>\<open>destroy_threadpool\<close> sets the flag and broadcasts without the mutex, so a worker that has
  seen an empty, open pool may go to sleep after the broadcast: it then sleeps for good, in a
  pool that is shut down, with nobody left to signal it.
\<close>

theorem destroy_misses_worker:
  "\<exists>s. reach one_worker s \<and> dpc s = 2 \<and> shutdown (pool s) = 1 \<and> ppc s = (\<lambda>_. PIdle) \<and>
     wpc s = (\<lambda>w. if w = 0 then WSleep else WExit)"
proof -
  let ?s0 = one_worker
  define s1 where "s1 = ?s0\<lparr>owner := Some (Worker 0), wpc := (wpc ?s0)(0 := WTest)\<rparr>"
  define s2 where "s2 = s1\<lparr>wpc := (wpc s1)(0 := WWait)\<rparr>"
  define s3 where "s3 = s2\<lparr>pool := (pool s2)\<lparr>shutdown := 1\<rparr>, dpc := 1\<rparr>"
  define s4 where "s4 = s3\<lparr>wpc := wake_all WSleep WLock (wpc s3), dpc := 2\<rparr>"
  define s5 where "s5 = s4\<lparr>owner := None, wpc := (wpc s4)(0 := WSleep)\<rparr>"
  note d = s1_def s2_def s3_def s4_def s5_def one_worker_simps
  have "step ?s0 s1" unfolding s1_def by (rule step.w_lock) (simp_all add: d)
  moreover have "step s1 s2" unfolding s2_def by (rule step.w_wait) (simp_all add: d must_wait_def)
  moreover have "step s2 s3" unfolding s3_def by (rule step.d_shutdown) (simp add: d)
  moreover have "step s3 s4" unfolding s4_def by (rule step.d_broadcast) (simp add: d)
  moreover have "step s4 s5" unfolding s5_def by (rule step.w_sleep) (simp add: d wake_all_def)
  ultimately have "reach one_worker s5" by (meson reach.intros)
  then show ?thesis by (intro exI [of _ s5]) (simp add: d wake_all_def fun_eq_iff)
qed

end
