(* ===== verification/Threadpool.thy ===== *)
theory Threadpool
  imports Bounded_Fifo Posix
begin

text \<open>
  The self-adjusting thread pool, \<^verbatim>\<open>threadpool.c\<close> under \<^verbatim>\<open>src/Csocket\<close>: its creation and
  release with every failure path, the circular task queue, the critical sections of the
  workers, of the thread that adjusts their number, and of the callers. A pointer that is read
  before it is written is a value of its own.
\<close>

section \<open>Data\<close>

datatype cptr = Unset | Null | At nat

datatype mutex = No_mutex | Unlocked | Locked

record threadpool_task_t =
  task_function :: cptr
  task_arg :: cptr

record threadpool_t =
  self :: nat
  lock :: mutex
  thread_counter :: mutex
  queue_not_full :: bool
  queue_not_empty :: bool
  threads_ptr :: cptr
  threads :: "nat list"
  adjust_tid :: nat
  task_queue_ptr :: cptr
  task_queue :: "threadpool_task_t list"
  min_thr_num :: int
  max_thr_num :: int
  live_thr_num :: int
  busy_thr_num :: int
  wait_exit_thr_num :: int
  queue_front :: int
  queue_rear :: int
  queue_size :: int
  queue_max_size :: int
  shutdown :: int

definition MIN_WAIT_TASK_NUM :: int where "MIN_WAIT_TASK_NUM = 10"
definition DEFAULT_THREAD_VARY :: int where "DEFAULT_THREAD_VARY = 10"

section \<open>Release\<close>

text \<open>
  Locking a mutex that was never initialised, destroying one that is locked: undefined by
  POSIX. Locking a mutex one holds already waits for ever.
\<close>

definition pthread_mutex_lock :: "mutex \<Rightarrow> mutex call" where
  "pthread_mutex_lock m = (case m of No_mutex \<Rightarrow> fault | Unlocked \<Rightarrow> ret Locked | Locked \<Rightarrow> block)"

definition pthread_mutex_destroy :: "mutex \<Rightarrow> mutex call" where
  "pthread_mutex_destroy m = (case m of Unlocked \<Rightarrow> ret No_mutex | _ \<Rightarrow> fault)"

definition destroy_locks :: "threadpool_t \<Rightarrow> unit call" where
  "destroy_locks pool =
     bnd (pthread_mutex_lock (lock pool)) (\<lambda>m.
     bnd (pthread_mutex_destroy m) (\<lambda>_.
     bnd (pthread_mutex_lock (thread_counter pool)) (\<lambda>m.
     bnd (pthread_mutex_destroy m) (\<lambda>_.
     require (queue_not_empty pool \<and> queue_not_full pool)))))"

definition threadpool_free :: "threadpool_t option \<Rightarrow> int call" where
  "threadpool_free p = (case p of None \<Rightarrow> ret (-1)
    | Some pool \<Rightarrow>
       bnd (case task_queue_ptr pool of Unset \<Rightarrow> fault | Null \<Rightarrow> ret () | At b \<Rightarrow> free b) (\<lambda>_.
       bnd (case threads_ptr pool of Unset \<Rightarrow> fault | Null \<Rightarrow> ret ()
            | At b \<Rightarrow> bnd (free b) (\<lambda>_. destroy_locks pool)) (\<lambda>_.
       bnd (free (self pool)) (\<lambda>_. ret 0))))"

definition threadpool_destroy :: "threadpool_t option \<Rightarrow> int call" where
  "threadpool_destroy p = (case p of None \<Rightarrow> ret (-1)
    | Some pool \<Rightarrow> bnd (threadpool_free (Some (pool\<lparr>shutdown := 1\<rparr>))) (\<lambda>_. ret 0))"

section \<open>Creation\<close>

text \<open>
  The functions of the thread library return an error number and leave \<^verbatim>\<open>errno\<close> alone.
  A failed \<^verbatim>\<open>pthread_create\<close> leaves the thread id it should store undefined.
\<close>

definition pthread_init :: "int call" where
  "pthread_init s = (case sched s of [] \<Rightarrow> (Block, s)
    | Err e # r \<Rightarrow> (Ret (if e = 0 then ENOMEM else e), s\<lparr>sched := r\<rparr>)
    | Ok _ _ _ # r \<Rightarrow> (Ret 0, s\<lparr>sched := r\<rparr>))"

definition pthread_create :: "nat call" where
  "pthread_create s = (case sched s of [] \<Rightarrow> (Block, s)
    | Err e # r \<Rightarrow> (Ret (nat (junk s (allocs s) (length r))), s\<lparr>sched := r\<rparr>)
    | Ok k _ _ # r \<Rightarrow> (Ret (Suc k), s\<lparr>sched := r\<rparr>))"

text \<open>The product \<^verbatim>\<open>sizeof(T) * n\<close>, computed in \<^verbatim>\<open>size_t\<close>.\<close>

definition mul_size :: "nat \<Rightarrow> int \<Rightarrow> nat" where
  "mul_size k n = (k * c_size n) mod 2 ^ 64"

definition init_pool :: "nat \<Rightarrow> int \<Rightarrow> int \<Rightarrow> int \<Rightarrow> threadpool_t" where
  "init_pool b mn mx qm = \<lparr>self = b, lock = No_mutex, thread_counter = No_mutex, queue_not_full = False,
     queue_not_empty = False, threads_ptr = Unset, threads = [], adjust_tid = 0, task_queue_ptr = Unset, task_queue = [],
     min_thr_num = mn, max_thr_num = mx, live_thr_num = mn, busy_thr_num = 0, wait_exit_thr_num = 0, queue_front = 0,
     queue_rear = 0, queue_size = 0, queue_max_size = qm, shutdown = 0\<rparr>"

text \<open>The four initialisations, joined by \<^verbatim>\<open>||\<close>: the first that fails ends them.\<close>

definition init_locks :: "threadpool_t \<Rightarrow> (bool \<times> threadpool_t) call" where
  "init_locks pool =
     bnd pthread_init (\<lambda>r. if r \<noteq> 0 then ret (False, pool) else let pool = pool\<lparr>lock := Unlocked\<rparr> in
     bnd pthread_init (\<lambda>r. if r \<noteq> 0 then ret (False, pool) else let pool = pool\<lparr>thread_counter := Unlocked\<rparr> in
     bnd pthread_init (\<lambda>r. if r \<noteq> 0 then ret (False, pool) else let pool = pool\<lparr>queue_not_empty := True\<rparr> in
     bnd pthread_init (\<lambda>r. if r \<noteq> 0 then ret (False, pool) else ret (True, pool\<lparr>queue_not_full := True\<rparr>)))))"

fun start_threads :: "nat \<Rightarrow> nat \<Rightarrow> threadpool_t \<Rightarrow> threadpool_t call" where
  "start_threads i 0 pool = ret pool"
| "start_threads i (Suc k) pool =
     bnd pthread_create (\<lambda>tid.
     bnd (require (i < length (threads pool))) (\<lambda>_.
     start_threads (Suc i) k (pool\<lparr>threads := (threads pool)[i := tid]\<rparr>)))"

definition create_failed :: "threadpool_t option \<Rightarrow> threadpool_t option call" where
  "create_failed p = bnd (threadpool_free p) (\<lambda>_. ret None)"

definition threadpool_create :: "int \<Rightarrow> int \<Rightarrow> int \<Rightarrow> threadpool_t option call" where
  "threadpool_create mn mx qm =
     bnd (malloc 240) (\<lambda>m. case m of None \<Rightarrow> create_failed None
     | Some b \<Rightarrow> let pool = init_pool b mn mx qm in
     bnd (malloc (mul_size 8 mx)) (\<lambda>m. case m of None \<Rightarrow> create_failed (Some (pool\<lparr>threads_ptr := Null\<rparr>))
     | Some b \<Rightarrow> let pool = pool\<lparr>threads_ptr := At b, threads := replicate (mul_size 8 mx div 8) 0\<rparr> in
     bnd (malloc (mul_size 16 qm)) (\<lambda>m. case m of None \<Rightarrow> create_failed (Some (pool\<lparr>task_queue_ptr := Null\<rparr>))
     | Some b \<Rightarrow> let pool = pool\<lparr>task_queue_ptr := At b,
           task_queue := replicate (mul_size 16 qm div 16) \<lparr>task_function = Unset, task_arg = Unset\<rparr>\<rparr> in
     bnd (init_locks pool) (\<lambda>(good, pool). if \<not> good then create_failed (Some pool) else
     bnd (start_threads 0 (nat mn) pool) (\<lambda>pool.
     bnd pthread_create (\<lambda>tid. ret (Some (pool\<lparr>adjust_tid := tid\<rparr>))))))))"

section \<open>The task queue\<close>

text \<open>
  The store into the slot at \<^verbatim>\<open>queue_rear\<close>, and the fetch from the slot at \<^verbatim>\<open>queue_front\<close>.
  The old argument is set to \<^verbatim>\<open>NULL\<close> first, unless it is.
\<close>

definition put_slot :: "(nat \<Rightarrow> threadpool_task_t \<Rightarrow> threadpool_task_t) \<Rightarrow> (threadpool_t, unit) prog" where
  "put_slot f =
     bnd (gets (\<lambda>p. (queue_rear p, queue_max_size p, length (task_queue p)))) (\<lambda>(rear, m, n).
     bnd (require (0 \<le> rear \<and> rear < int n)) (\<lambda>_.
     bnd (modify (\<lambda>p. p\<lparr>task_queue := (task_queue p)[nat rear := f (nat rear) (task_queue p ! nat rear)]\<rparr>)) (\<lambda>_.
     bnd (require (m \<noteq> 0 \<and> rear < INT_MAX)) (\<lambda>_.
     modify (\<lambda>p. p\<lparr>queue_rear := c_rem (rear + 1) m, queue_size := queue_size p + 1\<rparr>)))))"

definition fill_slot :: "cptr \<Rightarrow> cptr \<Rightarrow> nat \<Rightarrow> threadpool_task_t \<Rightarrow> threadpool_task_t" where
  "fill_slot fn a i t = (let t = (if task_arg t \<noteq> Null then t\<lparr>task_arg := Null\<rparr> else t) in
     t\<lparr>task_function := fn, task_arg := a\<rparr>)"

definition take_slot :: "(threadpool_t, threadpool_task_t) prog" where
  "take_slot =
     bnd (gets (\<lambda>p. (queue_front p, queue_max_size p, task_queue p))) (\<lambda>(front, m, ts).
     bnd (require (0 \<le> front \<and> front < int (length ts) \<and> m \<noteq> 0 \<and> front < INT_MAX)) (\<lambda>_.
     bnd (modify (\<lambda>p. p\<lparr>queue_front := c_rem (front + 1) m, queue_size := queue_size p - 1\<rparr>)) (\<lambda>_.
     ret \<lparr>task_function = task_function (ts ! nat front), task_arg = task_arg (ts ! nat front)\<rparr>)))"

section \<open>Critical sections\<close>

text \<open>
  \<^verbatim>\<open>threadpool_add\<close>: the test of its waiting loop, and what it does once the test fails,
  with the mutex held; \<open>False\<close> when it gives up because the pool is shut down.
\<close>

definition add_waits :: "threadpool_t \<Rightarrow> bool" where
  "add_waits p \<longleftrightarrow> queue_size p = queue_max_size p \<and> shutdown p = 0"

definition threadpool_add :: "cptr \<Rightarrow> cptr \<Rightarrow> (threadpool_t, bool) prog" where
  "threadpool_add fn a =
     bnd (gets shutdown) (\<lambda>sd.
     if sd \<noteq> 0 then ret False
     else bnd (put_slot (fill_slot fn a)) (\<lambda>_. ret True))"

text \<open>
  \<^verbatim>\<open>threadpool_thread\<close> from the moment it has the mutex, after locking it or after a wake-up
  (\<open>woken\<close>), to the moment it gives it back: to wait again, because it ends, or with a task.
\<close>

datatype turn = T_wait | T_exit | T_run threadpool_task_t

definition thread_test :: "(threadpool_t, turn) prog" where
  "thread_test =
     bnd (gets (\<lambda>p. (queue_size p, shutdown p))) (\<lambda>(n, sd).
     if n = 0 \<and> sd = 0 then ret T_wait
     else if sd \<noteq> 0 then ret T_exit
     else bnd take_slot (\<lambda>t. ret (T_run t)))"

definition threadpool_thread :: "bool \<Rightarrow> (threadpool_t, turn) prog" where
  "threadpool_thread woken =
     bnd (gets wait_exit_thr_num) (\<lambda>w.
     if woken \<and> w > 0 then
       bnd (modify (\<lambda>p. p\<lparr>wait_exit_thr_num := w - 1\<rparr>)) (\<lambda>_.
       bnd (gets (\<lambda>p. (live_thr_num p, min_thr_num p))) (\<lambda>(lv, mn).
       if lv > mn then bnd (modify (\<lambda>p. p\<lparr>live_thr_num := lv - 1\<rparr>)) (\<lambda>_. ret T_exit)
       else thread_test))
     else thread_test)"

text \<open>Around the task itself, under the second mutex.\<close>

definition busy_add :: "int \<Rightarrow> (threadpool_t, unit) prog" where
  "busy_add d = bnd (gets busy_thr_num) (\<lambda>b.
     bnd (require (INT_MIN \<le> b + d \<and> b + d \<le> INT_MAX)) (\<lambda>_. modify (\<lambda>p. p\<lparr>busy_thr_num := b + d\<rparr>)))"

text \<open>
  \<^verbatim>\<open>adjust_thread\<close>: what it reads, the loop that starts threads in free slots (\<open>alive\<close> is the
  answer of \<^verbatim>\<open>is_thread_alive\<close>, which asks \<^verbatim>\<open>pthread_kill(tid, 0)\<close>; \<open>new\<close> holds the ids of the
  new threads, by slot; the result lists the threads started), and the request to end idle ones.
\<close>

definition ESRCH :: int where "ESRCH = 3"

definition is_thread_alive :: "(nat \<Rightarrow> int) \<Rightarrow> nat \<Rightarrow> bool" where
  "is_thread_alive pthread_kill tid = (pthread_kill tid \<noteq> ESRCH)"

definition adjust_reads :: "threadpool_t \<Rightarrow> int \<times> int" where
  "adjust_reads p = (queue_size p, live_thr_num p)"

fun grow_loop :: "(nat \<Rightarrow> bool) \<Rightarrow> (nat \<Rightarrow> nat) \<Rightarrow> nat \<Rightarrow> nat \<Rightarrow> int \<Rightarrow> (threadpool_t, nat list) prog" where
  "grow_loop alive new i 0 ad = ret []"
| "grow_loop alive new i (Suc k) ad =
     bnd (gets (\<lambda>p. (live_thr_num p < max_thr_num p, threads p))) (\<lambda>(more, ts).
     if \<not> (ad < DEFAULT_THREAD_VARY \<and> more) then ret []
     else bnd (require (i < length ts)) (\<lambda>_.
     if ts ! i = 0 \<or> \<not> alive (ts ! i) then
       bnd (modify (\<lambda>p. p\<lparr>threads := ts[i := new i], live_thr_num := live_thr_num p + 1\<rparr>)) (\<lambda>_.
       bnd (grow_loop alive new (Suc i) k (ad + 1)) (\<lambda>tids. ret (new i # tids)))
     else grow_loop alive new (Suc i) k ad))"

definition adjust_grow :: "(nat \<Rightarrow> bool) \<Rightarrow> (nat \<Rightarrow> nat) \<Rightarrow> int \<Rightarrow> int \<Rightarrow> (threadpool_t, nat list) prog" where
  "adjust_grow alive new qsize lv =
     bnd (gets max_thr_num) (\<lambda>mx.
     if qsize \<ge> MIN_WAIT_TASK_NUM \<and> lv < mx then grow_loop alive new 0 (nat mx) 0 else ret [])"

definition adjust_shrink :: "int \<Rightarrow> int \<Rightarrow> (threadpool_t, unit) prog" where
  "adjust_shrink busy lv =
     bnd (gets min_thr_num) (\<lambda>mn.
     bnd (require (INT_MIN \<le> busy * 2 \<and> busy * 2 \<le> INT_MAX)) (\<lambda>_.
     if busy * 2 < lv \<and> lv > mn then modify (\<lambda>p. p\<lparr>wait_exit_thr_num := DEFAULT_THREAD_VARY\<rparr>) else ret ()))"

definition threadpool_all_threadnum :: "(threadpool_t, int) prog" where
  "threadpool_all_threadnum = gets live_thr_num"

definition threadpool_busy_threadnum :: "(threadpool_t, int) prog" where
  "threadpool_busy_threadnum = gets busy_thr_num"

section \<open>The ring\<close>

definition tp_ok :: "threadpool_t \<Rightarrow> bool" where
  "tp_ok p \<longleftrightarrow> 0 < queue_max_size p \<and> queue_max_size p \<le> INT_MAX \<and> length (task_queue p) = nat (queue_max_size p) \<and>
     0 \<le> queue_front p \<and> queue_front p < queue_max_size p \<and> 0 \<le> queue_size p \<and> queue_size p \<le> queue_max_size p \<and>
     queue_rear p = (queue_front p + queue_size p) mod queue_max_size p"

definition items :: "threadpool_t \<Rightarrow> threadpool_task_t list" where
  "items p = ring (task_queue p) (nat (queue_front p)) (nat (queue_size p))"

lemma length_items [simp]: "length (items p) = nat (queue_size p)"
  by (simp add: items_def)

lemma put_slot_ok:
  assumes "tp_ok p" "queue_size p < queue_max_size p"
  shows "\<exists>q t. put_slot f p = (Ret (), q) \<and> tp_ok q \<and> items q = items p @ [f (nat (queue_rear p)) t] \<and>
     q = p\<lparr>task_queue := task_queue q, queue_rear := queue_rear q, queue_size := queue_size p + 1\<rparr>"
proof -
  let ?m = "length (task_queue p)" and ?i = "nat (queue_rear p)"
  let ?ts = "(task_queue p)[?i := f ?i (task_queue p ! ?i)]"
  let ?q = "p\<lparr>task_queue := ?ts, queue_rear := c_rem (queue_rear p + 1) (queue_max_size p), queue_size := queue_size p + 1\<rparr>"
  have rear: "0 \<le> queue_rear p" "queue_rear p < queue_max_size p" using assms(1) by (auto simp: tp_ok_def)
  have max: "queue_max_size p \<noteq> 0" "queue_max_size p \<le> INT_MAX" "int ?m = queue_max_size p"
    using assms(1) by (auto simp: tp_ok_def)
  have pos: "?i = (nat (queue_front p) + nat (queue_size p)) mod ?m"
    using assms(1) by (auto simp: tp_ok_def nat_mod_distrib nat_add_distrib)
  have "ring ?ts (nat (queue_front p)) (Suc (nat (queue_size p))) = items p @ [f ?i (task_queue p ! ?i)]"
    unfolding pos items_def by (rule ring_append) (use assms in \<open>auto simp: tp_ok_def\<close>)
  moreover have "nat (queue_size p + 1) = Suc (nat (queue_size p))" using assms(1) by (auto simp: tp_ok_def)
  ultimately have "items ?q = items p @ [f ?i (task_queue p ! ?i)]" by (simp add: items_def [of ?q])
  moreover have "put_slot f p = (Ret (), ?q)"
    using rear max by (simp add: put_slot_def bnd_def prog_basics)
  moreover have "tp_ok ?q"
    using assms rear by (auto simp: tp_ok_def c_rem_nonneg mod_add_right_eq algebra_simps)
  ultimately show ?thesis by (intro exI [of _ ?q] exI [of _ "task_queue p ! ?i"]) simp
qed

lemma take_slot_ok:
  assumes "tp_ok p" "queue_size p \<noteq> 0"
  shows "\<exists>q. take_slot p = (Ret (hd (items p)), q) \<and> tp_ok q \<and> items q = tl (items p) \<and>
     q = p\<lparr>queue_front := queue_front q, queue_size := queue_size p - 1\<rparr>"
proof -
  let ?m = "queue_max_size p" and ?i = "nat (queue_front p)"
  let ?q = "p\<lparr>queue_front := c_rem (queue_front p + 1) ?m, queue_size := queue_size p - 1\<rparr>"
  have n: "nat (queue_size p) = Suc (nat (queue_size p - 1))" using assms by (auto simp: tp_ok_def)
  have next': "nat (c_rem (queue_front p + 1) ?m) = Suc ?i mod length (task_queue p)"
    using assms(1) by (auto simp: tp_ok_def c_rem_nonneg nat_mod_distrib nat_add_distrib)
  have "items p = task_queue p ! ?i # items ?q"
    using assms(1) unfolding items_def n ring_Suc by (simp add: next' ring_mod) (auto simp: tp_ok_def)
  moreover have "take_slot p = (Ret (task_queue p ! ?i), ?q)"
    using assms by (auto simp: take_slot_def bnd_def prog_basics tp_ok_def)
  moreover have "tp_ok ?q"
    using assms by (auto simp: tp_ok_def c_rem_nonneg mod_add_left_eq)
  ultimately show ?thesis by (intro exI [of _ ?q]) simp
qed

interpretation circular: bounded_fifo tp_ok items "\<lambda>p. nat (queue_max_size p)" "\<lambda>_. True" "\<lambda>t. t" put_slot take_slot
proof
  show "\<exists>r i a. put_slot f q = (Ret (), r) \<and> tp_ok r \<and> items r = items q @ [f i a] \<and>
      nat (queue_max_size r) = nat (queue_max_size q)"
    if "tp_ok q" "length (items q) < nat (queue_max_size q)" for q f
  proof -
    from put_slot_ok [OF that(1), of f] that(2) obtain r t where r: "put_slot f q = (Ret (), r)" "tp_ok r"
      "items r = items q @ [f (nat (queue_rear q)) t]"
      "r = q\<lparr>task_queue := task_queue r, queue_rear := queue_rear r, queue_size := queue_size q + 1\<rparr>" by auto
    from arg_cong [OF r(4), of queue_max_size] have "queue_max_size r = queue_max_size q" by simp
    with r(1-3) show ?thesis by auto
  qed
  show "\<exists>r. take_slot q = (Ret (hd (items q)), r) \<and> tp_ok r \<and> items r = tl (items q) \<and>
      nat (queue_max_size r) = nat (queue_max_size q)"
    if "tp_ok q" "items q \<noteq> []" for q
  proof -
    have "queue_size q \<noteq> 0" using that(2) by (metis length_0_conv length_items nat_zero_as_int nat_int of_nat_0)
    from take_slot_ok [OF that(1) this] obtain r where r: "take_slot q = (Ret (hd (items q)), r)" "tp_ok r"
      "items r = tl (items q)" "r = q\<lparr>queue_front := queue_front r, queue_size := queue_size q - 1\<rparr>" by auto
    from arg_cong [OF r(4), of queue_max_size] have "queue_max_size r = queue_max_size q" by simp
    with r(1-3) show ?thesis by auto
  qed
qed (auto simp: tp_ok_def)

end
