(* ===== verification/Threadpool_Crew.thy ===== *)
theory Threadpool_Crew
  imports Threadpool
begin

text \<open>
  The threads of the self-adjusting pool while it is open: workers, callers of
  \<^verbatim>\<open>threadpool_add\<close>, and the adjusting thread, as steps between the points where a thread gives
  a mutex back. A sleeping worker may wake at any time, which covers every signal and
  broadcast as well as spurious wake-ups.
\<close>

section \<open>The step relation\<close>

datatype cpc = C_none | C_lock | C_asleep | C_got threadpool_task_t | C_busy threadpool_task_t

datatype apc = A_sleep | A_half int int | A_have int int int | A_shrink int int

record crew =
  cpool :: threadpool_t
  pcs :: "nat \<Rightarrow> cpc"
  apc :: apc
  added :: "threadpool_task_t list"
  taken :: "threadpool_task_t list"

abbreviation alive :: "crew \<Rightarrow> nat \<Rightarrow> bool" where
  "alive s t \<equiv> pcs s t \<noteq> C_none"

definition is_busy :: "cpc \<Rightarrow> bool" where
  "is_busy c = (case c of C_busy _ \<Rightarrow> True | _ \<Rightarrow> False)"

definition after :: "turn \<Rightarrow> cpc" where
  "after v = (case v of T_wait \<Rightarrow> C_asleep | T_exit \<Rightarrow> C_none | T_run t \<Rightarrow> C_got t)"

definition got :: "turn \<Rightarrow> threadpool_task_t list" where
  "got v = (case v of T_run t \<Rightarrow> [t] | _ \<Rightarrow> [])"

inductive crew_step :: "crew \<Rightarrow> crew \<Rightarrow> bool" where
  t_lock: "pcs s t = C_lock \<Longrightarrow> threadpool_thread False (cpool s) = (Ret v, q) \<Longrightarrow>
    crew_step s (s\<lparr>cpool := q, pcs := (pcs s)(t := after v), taken := taken s @ got v\<rparr>)"
| t_wake: "pcs s t = C_asleep \<Longrightarrow> threadpool_thread True (cpool s) = (Ret v, q) \<Longrightarrow>
    crew_step s (s\<lparr>cpool := q, pcs := (pcs s)(t := after v), taken := taken s @ got v\<rparr>)"
| t_busy: "pcs s t = C_got k \<Longrightarrow> busy_add 1 (cpool s) = (Ret (), q) \<Longrightarrow>
    crew_step s (s\<lparr>cpool := q, pcs := (pcs s)(t := C_busy k)\<rparr>)"
| t_done: "pcs s t = C_busy k \<Longrightarrow> busy_add (-1) (cpool s) = (Ret (), q) \<Longrightarrow>
    crew_step s (s\<lparr>cpool := q, pcs := (pcs s)(t := C_lock)\<rparr>)"
| u_add: "\<not> add_waits (cpool s) \<Longrightarrow> threadpool_add fn a (cpool s) = (Ret True, q) \<Longrightarrow>
    crew_step s (s\<lparr>cpool := q, added := added s @ [\<lparr>task_function = fn, task_arg = a\<rparr>]\<rparr>)"
| a_read: "apc s = A_sleep \<Longrightarrow> adjust_reads (cpool s) = (n, l) \<Longrightarrow> crew_step s (s\<lparr>apc := A_half n l\<rparr>)"
| a_busy: "apc s = A_half n l \<Longrightarrow> crew_step s (s\<lparr>apc := A_have n l (busy_thr_num (cpool s))\<rparr>)"
| a_grow: "apc s = A_have n l b \<Longrightarrow> (\<And>i. \<not> alive s (new i)) \<Longrightarrow> inj new \<Longrightarrow>
    adjust_grow (alive s) new n l (cpool s) = (Ret ts, q) \<Longrightarrow>
    crew_step s (s\<lparr>cpool := q, pcs := (\<lambda>t. if t \<in> set ts then C_lock else pcs s t), apc := A_shrink b l\<rparr>)"
| a_shrink: "apc s = A_shrink b l \<Longrightarrow> adjust_shrink b l (cpool s) = (Ret (), q) \<Longrightarrow>
    crew_step s (s\<lparr>cpool := q, apc := A_sleep\<rparr>)"

inductive crew_reach :: "crew \<Rightarrow> crew \<Rightarrow> bool" for x where
  refl: "crew_reach x x"
| more: "crew_reach x y \<Longrightarrow> crew_step y z \<Longrightarrow> crew_reach x z"

text \<open>The threads that \<^verbatim>\<open>threadpool_create\<close> started.\<close>

definition crew_start :: "threadpool_t \<Rightarrow> crew" where
  "crew_start p = \<lparr>cpool = p, pcs = (\<lambda>t. if t \<in> set (take (nat (min_thr_num p)) (threads p)) then C_lock else C_none),
     apc = A_sleep, added = [], taken = []\<rparr>"

section \<open>The sections one by one\<close>

text \<open>Everything but the counters and the queue stays as it is.\<close>

definition fixed_parts :: "threadpool_t \<Rightarrow> int \<times> int \<times> int \<times> int \<times> nat list" where
  "fixed_parts p = (min_thr_num p, max_thr_num p, queue_max_size p, shutdown p, threads p)"

lemma fixed_partsD:
  assumes "fixed_parts q = fixed_parts p"
  shows "min_thr_num q = min_thr_num p" "max_thr_num q = max_thr_num p" "queue_max_size q = queue_max_size p" "shutdown q = shutdown p"
    "threads q = threads p"
  using assms by (simp_all add: fixed_parts_def)

lemma thread_test_ok:
  assumes "tp_ok p" "shutdown p = 0"
  shows "\<exists>v q. thread_test p = (Ret v, q) \<and> tp_ok q \<and> fixed_parts q = fixed_parts p \<and> v \<noteq> T_exit \<and> got v @ items q = items p \<and>
     live_thr_num q = live_thr_num p \<and> busy_thr_num q = busy_thr_num p \<and> wait_exit_thr_num q = wait_exit_thr_num p \<and>
     (v = T_wait \<longleftrightarrow> items p = [])"
proof (cases "queue_size p = 0")
  case True
  with assms show ?thesis
    by (simp add: thread_test_def bnd_def prog_basics got_def items_def)
next
  case False
  from take_slot_ok [OF assms(1) False] obtain q where q: "take_slot p = (Ret (hd (items p)), q)" "tp_ok q"
    "items q = tl (items p)" "q = p\<lparr>queue_front := queue_front q, queue_size := queue_size p - 1\<rparr>" by auto
  have ne: "items p \<noteq> []" using False assms(1) by (simp add: tp_ok_def flip: length_greater_0_conv)
  have fr: "fixed_parts q = fixed_parts p" "live_thr_num q = live_thr_num p" "busy_thr_num q = busy_thr_num p"
    "wait_exit_thr_num q = wait_exit_thr_num p"
    using arg_cong [OF q(4), of fixed_parts] arg_cong [OF q(4), of live_thr_num] arg_cong [OF q(4), of busy_thr_num]
      arg_cong [OF q(4), of wait_exit_thr_num] by (simp_all add: fixed_parts_def)
  from q(1) False assms(2) have "thread_test p = (Ret (T_run (hd (items p))), q)"
    by (simp add: thread_test_def bnd_def prog_basics)
  with q(2,3) fr ne show ?thesis by (auto simp: got_def)
qed

lemma threadpool_thread_ok:
  assumes "tp_ok p" "shutdown p = 0" "0 \<le> wait_exit_thr_num p"
  shows "\<exists>v q. threadpool_thread woken p = (Ret v, q) \<and> tp_ok q \<and> fixed_parts q = fixed_parts p \<and> got v @ items q = items p \<and>
     live_thr_num q = live_thr_num p - (if v = T_exit then 1 else 0) \<and> busy_thr_num q = busy_thr_num p \<and>
     0 \<le> wait_exit_thr_num q \<and> wait_exit_thr_num q \<le> wait_exit_thr_num p \<and> (v = T_exit \<longrightarrow> min_thr_num p < live_thr_num p)"
proof (cases "woken \<and> wait_exit_thr_num p > 0")
  case False
  then have "threadpool_thread woken p = thread_test p" by (auto simp: threadpool_thread_def bnd_def prog_basics)
  with thread_test_ok [OF assms(1,2)] assms(3) show ?thesis by auto
next
  case True
  let ?p = "p\<lparr>wait_exit_thr_num := wait_exit_thr_num p - 1\<rparr>"
  have p: "tp_ok ?p" "shutdown ?p = 0" "items ?p = items p" "fixed_parts ?p = fixed_parts p"
    using assms by (simp_all add: tp_ok_def items_def fixed_parts_def)
  show ?thesis
  proof (cases "min_thr_num p < live_thr_num p")
    case more: True
    then have "threadpool_thread woken p = (Ret T_exit, ?p\<lparr>live_thr_num := live_thr_num p - 1\<rparr>)"
      using True by (simp add: threadpool_thread_def bnd_def prog_basics)
    with more assms True show ?thesis by (simp add: tp_ok_def items_def fixed_parts_def got_def)
  next
    case False
    then have "threadpool_thread woken p = thread_test ?p"
      using True by (simp add: threadpool_thread_def bnd_def prog_basics)
    with thread_test_ok [OF p(1,2)] p(3,4) True show ?thesis by auto
  qed
qed

lemma threadpool_add_ok:
  assumes "tp_ok p" "shutdown p = 0" "\<not> add_waits p"
  shows "\<exists>q. threadpool_add fn a p = (Ret True, q) \<and> tp_ok q \<and> fixed_parts q = fixed_parts p \<and>
     items q = items p @ [\<lparr>task_function = fn, task_arg = a\<rparr>] \<and> live_thr_num q = live_thr_num p \<and>
     busy_thr_num q = busy_thr_num p \<and> wait_exit_thr_num q = wait_exit_thr_num p"
proof -
  have fill: "fill_slot fn a i t = \<lparr>task_function = fn, task_arg = a\<rparr>" for i t
    by (cases t) (simp add: fill_slot_def Let_def)
  have "queue_size p < queue_max_size p" using assms by (auto simp: add_waits_def tp_ok_def)
  from put_slot_ok [OF assms(1) this, of "fill_slot fn a"] obtain q where
    q: "put_slot (fill_slot fn a) p = (Ret (), q)" "tp_ok q" "items q = items p @ [\<lparr>task_function = fn, task_arg = a\<rparr>]"
      "q = p\<lparr>task_queue := task_queue q, queue_rear := queue_rear q, queue_size := queue_size p + 1\<rparr>"
    by (auto simp: fill)
  have "fixed_parts q = fixed_parts p" "live_thr_num q = live_thr_num p" "busy_thr_num q = busy_thr_num p"
    "wait_exit_thr_num q = wait_exit_thr_num p"
    using arg_cong [OF q(4), of fixed_parts] arg_cong [OF q(4), of live_thr_num] arg_cong [OF q(4), of busy_thr_num]
      arg_cong [OF q(4), of wait_exit_thr_num] by (simp_all add: fixed_parts_def)
  with q(1-3) assms(2) show ?thesis by (simp add: threadpool_add_def bnd_def prog_basics)
qed

text \<open>
  The loop that starts threads: it fills free slots from the first on, until ten are filled,
  the maximum is reached or no free slot is left.
\<close>

definition vacant :: "(nat \<Rightarrow> bool) \<Rightarrow> nat \<Rightarrow> bool" where
  "vacant al t \<longleftrightarrow> t = 0 \<or> \<not> al t"

text \<open>What the loop does from entry \<open>i\<close> on, with \<open>ad\<close> threads started before.\<close>

definition grown :: "(nat \<Rightarrow> bool) \<Rightarrow> (nat \<Rightarrow> nat) \<Rightarrow> nat \<Rightarrow> int \<Rightarrow> threadpool_t \<Rightarrow> nat list res \<times> threadpool_t \<Rightarrow> bool" where
  "grown al new i ad p x \<longleftrightarrow> (\<exists>ts us. x = (Ret ts, p\<lparr>threads := us, live_thr_num := live_thr_num p + int (length ts)\<rparr>) \<and>
     length us = length (threads p) \<and> (\<exists>js. ts = map new js \<and> distinct js \<and> (\<forall>j \<in> set js. i \<le> j)) \<and>
     int (length ts) = min (DEFAULT_THREAD_VARY - ad) (min (max_thr_num p - live_thr_num p)
       (int (length (filter (vacant al) (drop i (threads p)))))))"

lemma grown_start:
  assumes "grown al new (Suc i) (ad + 1) (p\<lparr>threads := (threads p)[i := new i], live_thr_num := live_thr_num p + 1\<rparr>) (Ret ts, q)"
    "vacant al (threads p ! i)" "i < length (threads p)"
  shows "grown al new i ad p (Ret (new i # ts), q)"
proof -
  have i: "drop i (threads p) = threads p ! i # drop (Suc i) (threads p)" using assms(3) by (simp add: Cons_nth_drop_Suc)
  let ?p = "p\<lparr>threads := (threads p)[i := new i], live_thr_num := live_thr_num p + 1\<rparr>"
  from assms(1) obtain us js where r: "q = ?p\<lparr>threads := us, live_thr_num := live_thr_num ?p + int (length ts)\<rparr>"
    "length us = length (threads ?p)" "ts = map new js" "distinct js" "\<forall>j \<in> set js. Suc i \<le> j"
    "int (length ts) = min (DEFAULT_THREAD_VARY - (ad + 1)) (min (max_thr_num ?p - live_thr_num ?p)
      (int (length (filter (vacant al) (drop (Suc i) (threads ?p))))))" unfolding grown_def by blast
  have "\<exists>ks. new i # ts = map new ks \<and> distinct ks \<and> (\<forall>j \<in> set ks. i \<le> j)"
    using r(3-5) by (intro exI [of _ "i # js"]) auto
  moreover have "int (length (new i # ts)) = min (DEFAULT_THREAD_VARY - ad) (min (max_thr_num p - live_thr_num p)
      (int (length (filter (vacant al) (drop i (threads p))))))"
    using r(6) assms(2) by (simp add: i)
  moreover have "(Ret (new i # ts), q) = (Ret (new i # ts), p\<lparr>threads := us, live_thr_num := live_thr_num p + int (length (new i # ts))\<rparr>)"
    "length us = length (threads p)" using r(1,2) by simp_all
  ultimately show ?thesis unfolding grown_def by - (rule exI [of _ "new i # ts"], rule exI [of _ us], intro conjI)
qed

lemma grown_skip:
  assumes "grown al new (Suc i) ad p x" "\<not> vacant al (threads p ! i)" "i < length (threads p)"
  shows "grown al new i ad p x"
proof -
  have i: "drop i (threads p) = threads p ! i # drop (Suc i) (threads p)" using assms(3) by (simp add: Cons_nth_drop_Suc)
  have "\<forall>j \<in> set js. i \<le> j" if "\<forall>j \<in> set js. Suc i \<le> j" for js using that by auto
  with assms(1,2) show ?thesis unfolding grown_def i by (simp, blast)
qed

lemma grow_loop_grown:
  assumes "i + k = length (threads p)" "ad \<le> DEFAULT_THREAD_VARY" "live_thr_num p \<le> max_thr_num p"
  shows "grown al new i ad p (grow_loop al new i k ad p)"
  using assms
proof (induction k arbitrary: i ad p)
  case 0
  then show ?case by (auto simp: grown_def ret_def intro!: exI [of _ "threads p"])
next
  case (Suc k)
  note [simp] = bnd_def prog_basics
  have i: "i < length (threads p)" using Suc.prems(1) by simp
  consider (stop) "\<not> (ad < DEFAULT_THREAD_VARY \<and> live_thr_num p < max_thr_num p)"
    | (start) "ad < DEFAULT_THREAD_VARY" "live_thr_num p < max_thr_num p" "vacant al (threads p ! i)"
    | (skip) "ad < DEFAULT_THREAD_VARY" "live_thr_num p < max_thr_num p" "\<not> vacant al (threads p ! i)" by blast
  then show ?case
  proof cases
    case stop
    then have "grow_loop al new i (Suc k) ad p = (Ret [], p)" by auto
    with stop Suc.prems show ?thesis by (auto simp: grown_def intro!: exI [of _ "threads p"])
  next
    case start
    let ?p = "p\<lparr>threads := (threads p)[i := new i], live_thr_num := live_thr_num p + 1\<rparr>"
    have "grown al new (Suc i) (ad + 1) ?p (grow_loop al new (Suc i) k (ad + 1) ?p)"
      by (rule Suc.IH) (use Suc.prems(1) start(1,2) in simp_all)
    moreover then obtain ts q where r: "grow_loop al new (Suc i) k (ad + 1) ?p = (Ret ts, q)" by (auto simp: grown_def)
    moreover have "grow_loop al new i (Suc k) ad p = (Ret (new i # ts), q)"
      using start i r by (simp add: vacant_def)
    ultimately show ?thesis using grown_start [of al new i ad p ts q] start(3) i by simp
  next
    case skip
    have "grow_loop al new i (Suc k) ad p = grow_loop al new (Suc i) k ad p"
      using skip i by (simp add: vacant_def)
    then show ?thesis using grown_skip [OF Suc.IH skip(3) i] Suc.prems by simp
  qed
qed

lemmas grow_loop_ok = grow_loop_grown [unfolded grown_def]

lemma adjust_grow_ok:
  assumes "length (threads p) = nat (max_thr_num p)" "live_thr_num p \<le> max_thr_num p" "inj new"
  shows "\<exists>ts us. adjust_grow al new n l p = (Ret ts, p\<lparr>threads := us, live_thr_num := live_thr_num p + int (length ts)\<rparr>) \<and>
     length us = length (threads p) \<and> distinct ts \<and> set ts \<subseteq> range new \<and>
     int (length ts) = (if n \<ge> MIN_WAIT_TASK_NUM \<and> l < max_thr_num p then min DEFAULT_THREAD_VARY
       (min (max_thr_num p - live_thr_num p) (int (length (filter (vacant al) (threads p))))) else 0)"
proof (cases "n \<ge> MIN_WAIT_TASK_NUM \<and> l < max_thr_num p")
  case True
  have "0 + nat (max_thr_num p) = length (threads p)" "0 \<le> DEFAULT_THREAD_VARY"
    using assms(1) by (simp_all add: DEFAULT_THREAD_VARY_def)
  from grow_loop_ok [OF this assms(2), of al new] obtain ts us js where
    r: "grow_loop al new 0 (nat (max_thr_num p)) 0 p = (Ret ts, p\<lparr>threads := us, live_thr_num := live_thr_num p + int (length ts)\<rparr>)"
      "length us = length (threads p)" "ts = map new js" "distinct js"
      "int (length ts) = min DEFAULT_THREAD_VARY (min (max_thr_num p - live_thr_num p) (int (length (filter (vacant al) (threads p)))))"
    by auto
  moreover from r(3,4) assms(3) have "distinct ts" "set ts \<subseteq> range new" by (auto simp: distinct_map inj_on_def inj_def)
  moreover have "adjust_grow al new n l p = grow_loop al new 0 (nat (max_thr_num p)) 0 p"
    using True by (simp add: adjust_grow_def bnd_def prog_basics)
  ultimately show ?thesis using True by auto
next
  case False
  then have "adjust_grow al new n l p = (Ret [], p)" by (auto simp: adjust_grow_def bnd_def prog_basics)
  with False show ?thesis by (intro exI [of _ "[]"] exI [of _ "threads p"]) auto
qed

section \<open>The invariant of the crew\<close>

definition counts_ok :: "threadpool_t \<Rightarrow> (nat \<Rightarrow> cpc) \<Rightarrow> bool" where
  "counts_ok p f \<longleftrightarrow> finite {t. f t \<noteq> C_none} \<and> live_thr_num p = int (card {t. f t \<noteq> C_none}) \<and>
     busy_thr_num p = int (card {t. is_busy (f t)}) \<and> min_thr_num p \<le> live_thr_num p \<and> live_thr_num p \<le> max_thr_num p"

definition crew_inv :: "crew \<Rightarrow> bool" where
  "crew_inv s \<longleftrightarrow> tp_ok (cpool s) \<and> shutdown (cpool s) = 0 \<and> length (threads (cpool s)) = nat (max_thr_num (cpool s)) \<and>
     counts_ok (cpool s) (pcs s) \<and> 0 \<le> wait_exit_thr_num (cpool s) \<and> added s = taken s @ items (cpool s)"

lemma is_busy_simps [simp]:
  "\<not> is_busy C_none" "\<not> is_busy C_lock" "\<not> is_busy C_asleep" "\<not> is_busy (C_got k)" "is_busy (C_busy k)"
  by (simp_all add: is_busy_def)

lemma is_busy_after [simp]: "\<not> is_busy (after v)" "after v = C_none \<longleftrightarrow> v = T_exit"
  by (cases v; simp add: after_def)+

lemma finite_busy: "finite {t. f t \<noteq> C_none} \<Longrightarrow> finite {t. is_busy (f t)}"
  by (rule finite_subset [of _ "{t. f t \<noteq> C_none}"]) auto

lemma counts_upd:
  assumes "counts_ok p f" "f t \<noteq> C_none" "min_thr_num q = min_thr_num p" "max_thr_num q = max_thr_num p"
    "live_thr_num q = live_thr_num p - (if c = C_none then 1 else 0)" "c = C_none \<Longrightarrow> min_thr_num p < live_thr_num p"
    "busy_thr_num q = busy_thr_num p + (if is_busy c then 1 else 0) - (if is_busy (f t) then 1 else 0)"
  shows "counts_ok q (f(t := c))"
proof -
  have fin: "finite {t. f t \<noteq> C_none}" using assms(1) by (simp add: counts_ok_def)
  note finite_fun_upd [of "\<lambda>c. c \<noteq> C_none" f t c, OF fin]
    card_fun_upd [of "\<lambda>c. c \<noteq> C_none" f t c, OF fin] card_fun_upd [of is_busy f t c, OF finite_busy [OF fin]]
  with assms show ?thesis by (simp only: counts_ok_def) (simp split: if_splits)
qed

lemma busy_add_ok:
  "busy_add d p = (Ret (), q) \<Longrightarrow> q = p\<lparr>busy_thr_num := busy_thr_num p + d\<rparr>"
  by (auto simp: busy_add_def bnd_def prog_basics split: if_splits)

lemma thread_turn_inv:
  assumes "crew_inv s" "pcs s t = C_lock \<or> pcs s t = C_asleep" "threadpool_thread w (cpool s) = (Ret v, q)"
  shows "crew_inv (s\<lparr>cpool := q, pcs := (pcs s)(t := after v), taken := taken s @ got v\<rparr>)"
proof -
  have "tp_ok (cpool s)" "shutdown (cpool s) = 0" "0 \<le> wait_exit_thr_num (cpool s)"
    using assms(1) by (simp_all add: crew_inv_def)
  from threadpool_thread_ok [OF this, of w] assms(3) have
    q: "tp_ok q" "fixed_parts q = fixed_parts (cpool s)" "got v @ items q = items (cpool s)"
      "live_thr_num q = live_thr_num (cpool s) - (if v = T_exit then 1 else 0)" "busy_thr_num q = busy_thr_num (cpool s)"
      "0 \<le> wait_exit_thr_num q" "v = T_exit \<longrightarrow> min_thr_num (cpool s) < live_thr_num (cpool s)" by auto
  have "counts_ok q ((pcs s)(t := after v))"
    by (rule counts_upd [of "cpool s"]) (use assms q fixed_partsD [OF q(2)] in \<open>auto simp: crew_inv_def\<close>)
  with assms(1) q fixed_partsD [OF q(2)] show ?thesis by (simp add: crew_inv_def)
qed

lemma grow_inv:
  assumes "crew_inv s" "\<And>i. \<not> alive s (new i)" "inj new" "adjust_grow al new n l (cpool s) = (Ret ts, q)"
  shows "crew_inv (s\<lparr>cpool := q, pcs := (\<lambda>t. if t \<in> set ts then C_lock else pcs s t), apc := a\<rparr>)"
proof -
  let ?A = "{t. pcs s t \<noteq> C_none}" and ?f = "\<lambda>t. if t \<in> set ts then C_lock else pcs s t"
  have inv: "length (threads (cpool s)) = nat (max_thr_num (cpool s))" "live_thr_num (cpool s) \<le> max_thr_num (cpool s)"
    "finite ?A" using assms(1) by (simp_all add: crew_inv_def counts_ok_def)
  from adjust_grow_ok [OF inv(1,2) assms(3), of al n l] obtain ts' us where
    r: "adjust_grow al new n l (cpool s) =
        (Ret ts', (cpool s)\<lparr>threads := us, live_thr_num := live_thr_num (cpool s) + int (length ts')\<rparr>)"
      "length us = length (threads (cpool s))" "distinct ts'" "set ts' \<subseteq> range new"
      "int (length ts') = (if n \<ge> MIN_WAIT_TASK_NUM \<and> l < max_thr_num (cpool s) then min DEFAULT_THREAD_VARY
         (min (max_thr_num (cpool s) - live_thr_num (cpool s)) (int (length (filter (vacant al) (threads (cpool s))))))
       else 0)" by blast
  have "int (length ts') \<le> max_thr_num (cpool s) - live_thr_num (cpool s)"
    using r(5) inv(2) by (cases "n \<ge> MIN_WAIT_TASK_NUM \<and> l < max_thr_num (cpool s)") simp_all
  with r assms(4) have
    q: "q = (cpool s)\<lparr>threads := us, live_thr_num := live_thr_num (cpool s) + int (length ts)\<rparr>"
      "length us = length (threads (cpool s))" "distinct ts" "set ts \<subseteq> range new"
      "int (length ts) \<le> max_thr_num (cpool s) - live_thr_num (cpool s)" by simp_all
  from q(4) assms(2) have dis: "?A \<inter> set ts = {}" by auto
  have "{t. ?f t \<noteq> C_none} = ?A \<union> set ts" by auto
  moreover have "card (?A \<union> set ts) = card ?A + length ts"
    using card_Un_disjoint [OF inv(3) _ dis] distinct_card [OF q(3)] by simp
  moreover have "{t. is_busy (?f t)} = {t. is_busy (pcs s t)}" using dis by (force split: if_splits)
  ultimately have "counts_ok q ?f" using assms(1) q(1,5) inv(3) by (simp add: crew_inv_def counts_ok_def)
  with assms(1) q(1,2) show ?thesis by (simp add: crew_inv_def tp_ok_def items_def)
qed

lemma crew_step_inv: "crew_step s t \<Longrightarrow> crew_inv s \<Longrightarrow> crew_inv t"
proof (induction rule: crew_step.induct)
  case (t_lock s t v q)
  then show ?case by (intro thread_turn_inv) simp_all
next
  case (t_wake s t v q)
  then show ?case by (intro thread_turn_inv) simp_all
next
  case (t_busy s t k q)
  then have q: "q = (cpool s)\<lparr>busy_thr_num := busy_thr_num (cpool s) + 1\<rparr>" using busy_add_ok [OF t_busy(2)] by simp
  have "counts_ok q ((pcs s)(t := C_busy k))"
    by (rule counts_upd [of "cpool s"]) (use t_busy q in \<open>simp_all add: crew_inv_def\<close>)
  with t_busy(3) q show ?case by (simp add: crew_inv_def tp_ok_def items_def)
next
  case (t_done s t k q)
  then have q: "q = (cpool s)\<lparr>busy_thr_num := busy_thr_num (cpool s) - 1\<rparr>" using busy_add_ok [OF t_done(2)] by simp
  have "counts_ok q ((pcs s)(t := C_lock))"
    by (rule counts_upd [of "cpool s"]) (use t_done q in \<open>simp_all add: crew_inv_def\<close>)
  with t_done(3) q show ?case by (simp add: crew_inv_def tp_ok_def items_def)
next
  case (u_add s fn a q)
  then have "tp_ok (cpool s)" "shutdown (cpool s) = 0" by (simp_all add: crew_inv_def)
  from threadpool_add_ok [OF this u_add(1), of fn a] u_add(2) have
    q: "tp_ok q" "fixed_parts q = fixed_parts (cpool s)" "items q = items (cpool s) @ [\<lparr>task_function = fn, task_arg = a\<rparr>]"
      "live_thr_num q = live_thr_num (cpool s)" "busy_thr_num q = busy_thr_num (cpool s)"
      "wait_exit_thr_num q = wait_exit_thr_num (cpool s)" by auto
  with u_add(3) fixed_partsD [OF q(2)] show ?case by (simp add: crew_inv_def counts_ok_def)
next
  case (a_grow s n l b new ts q)
  then show ?case by (intro grow_inv)
next
  case (a_shrink s b l q)
  then show ?case
    by (auto simp: adjust_shrink_def bnd_def prog_basics crew_inv_def counts_ok_def tp_ok_def items_def
        DEFAULT_THREAD_VARY_def split: if_splits)
qed (simp_all add: crew_inv_def)

lemma crew_reach_inv: "crew_reach x s \<Longrightarrow> crew_inv x \<Longrightarrow> crew_inv s"
  by (induction rule: crew_reach.induct) (auto intro: crew_step_inv)

section \<open>Creation and release\<close>

text \<open>A pool as \<^verbatim>\<open>threadpool_create\<close> returns it, with the state it leaves.\<close>

definition created :: "int \<Rightarrow> int \<Rightarrow> int \<Rightarrow> threadpool_t \<Rightarrow> bool" where
  "created mn mx qm p \<longleftrightarrow> tp_ok p \<and> items p = [] \<and> shutdown p = 0 \<and> queue_max_size p = qm \<and> min_thr_num p = mn \<and>
     max_thr_num p = mx \<and> live_thr_num p = mn \<and> busy_thr_num p = 0 \<and> wait_exit_thr_num p = 0 \<and>
     length (threads p) = nat mx \<and> lock p = Unlocked \<and> thread_counter p = Unlocked \<and> (\<exists>b. threads_ptr p = At b)"

definition undefined_call :: "'a call \<Rightarrow> bool" where
  "undefined_call m \<longleftrightarrow> (\<forall>s. fst (m s) = Fault)"

lemma undefined_call_first: "undefined_call m \<Longrightarrow> undefined_call (bnd m f)"
  by (auto simp: undefined_call_def bnd_def split: prod.split res.split) (metis fst_conv res.distinct)+

lemma undefined_call_second:
  assumes "\<And>s. (\<exists>a. fst (m s) = Ret a) \<or> fst (m s) = Fault" "\<And>a. undefined_call (f a)"
  shows "undefined_call (bnd m f)"
  unfolding undefined_call_def
proof
  fix s
  from assms(1) [of s] assms(2) show "fst (bnd m f s) = Fault"
    by (cases "m s") (auto simp: bnd_def undefined_call_def)
qed

lemma threadpool_free_undefined:
  assumes "task_queue_ptr p = Unset \<or> (\<exists>b. threads_ptr p = At b) \<and> lock p \<noteq> Locked"
  shows "undefined_call (threadpool_free (Some p))"
  using assms
proof
  assume "task_queue_ptr p = Unset"
  then show ?thesis by (simp add: threadpool_free_def undefined_call_def bnd_def fault_def)
next
  assume p: "(\<exists>b. threads_ptr p = At b) \<and> lock p \<noteq> Locked"
  then obtain b where b: "threads_ptr p = At b" by blast
  have "undefined_call (destroy_locks p)" using p
    by (auto simp: undefined_call_def destroy_locks_def pthread_mutex_lock_def pthread_mutex_destroy_def bnd_def prog_basics split: mutex.split)
  then have u: "undefined_call (bnd (free b) (\<lambda>_. destroy_locks p))"
    by (intro undefined_call_second) (auto simp: free_def)
  show ?thesis unfolding threadpool_free_def option.case b cptr.case
    by (rule undefined_call_second [OF _ undefined_call_first [OF u]]) (auto simp: free_def prog_basics split: cptr.split)
qed

lemma undefined_call_runs: "undefined_call m \<Longrightarrow> runs m (\<lambda>_ _. False) (\<lambda>_. True) s"
  by (cases "m s") (auto simp: undefined_call_def runs_def dest!: spec [of _ s])

lemma pthread_runs:
  "runs pthread_init (\<lambda>_ _. True) never s" "runs pthread_create (\<lambda>_ _. True) never s"
  by (auto simp: runs_def pthread_init_def pthread_create_def split: list.split answer.split)

definition locks_only :: "threadpool_t \<Rightarrow> threadpool_t \<Rightarrow> bool" where
  "locks_only p q \<longleftrightarrow> q = p\<lparr>lock := lock q, thread_counter := thread_counter q, queue_not_empty := queue_not_empty q,
     queue_not_full := queue_not_full q\<rparr>"

lemma init_locks_runs:
  assumes "lock p = No_mutex"
  shows "runs (init_locks p) (\<lambda>(g, q) _. locks_only p q \<and> lock q \<noteq> Locked \<and>
    (g \<longrightarrow> lock q = Unlocked \<and> thread_counter q = Unlocked)) never s"
  unfolding init_locks_def Let_def using assms
  by (intro runs_bnd [OF pthread_runs(1)] runs_if runs_ret) (simp_all add: locks_only_def)

lemma start_threads_runs:
  "i + k \<le> length (threads p) \<Longrightarrow>
    runs (start_threads i k p) (\<lambda>q _. \<exists>us. q = p\<lparr>threads := us\<rparr> \<and> length us = length (threads p)) never s"
proof (induction k arbitrary: i p s)
  case 0
  show ?case by (auto intro!: runs_ret exI [of _ "threads p"])
next
  case (Suc k)
  have "runs (start_threads (Suc i) k (p\<lparr>threads := (threads p)[i := tid]\<rparr>))
      (\<lambda>q _. \<exists>us. q = p\<lparr>threads := us\<rparr> \<and> length us = length (threads p)) never t" for tid t
    by (rule runs_mono [OF Suc.IH]) (use Suc.prems in auto)
  then show ?case unfolding start_threads.simps
    by (intro runs_bnd [OF pthread_runs(2)] runs_bnd_require) (use Suc.prems in auto)
qed

lemma create_failed_runs:
  assumes "task_queue_ptr p = Unset \<or> (\<exists>b. threads_ptr p = At b) \<and> lock p \<noteq> Locked"
  shows "runs (create_failed (Some p)) (\<lambda>_ _. False) (\<lambda>_. True) s"
  unfolding create_failed_def by (intro undefined_call_runs undefined_call_first threadpool_free_undefined assms)

lemma mul_size_exact:
  assumes "0 \<le> n" "n \<le> INT_MAX" "0 < k" "k \<le> 16"
  shows "mul_size k n div k = nat n"
proof -
  have "k * nat n < 2 ^ 64"
    using assms by (intro le_less_trans [OF mult_le_mono [of k 16 "nat n" 2147483647]]) (auto simp: INT_MAX_def)
  with assms show ?thesis by (simp add: mul_size_def)
qed

lemma first_malloc:
  "runs (malloc 240) (\<lambda>x t. x = None \<longrightarrow> (\<exists>e. sched s = Err e # sched t) \<and> heap t = heap s) never s"
  by (auto simp: runs_def malloc_def syscall_def ret_def heap_def PTRDIFF_MAX_def split: list.split answer.split)

lemma malloc_any: "runs (malloc n) (\<lambda>_ _. True) never s"
  by (rule runs_mono [OF malloc_runs]) auto

lemma created_upd:
  "created mn mx qm p \<Longrightarrow> length us = length (threads p) \<Longrightarrow> created mn mx qm (p\<lparr>threads := us, adjust_tid := tid\<rparr>)"
  by (auto simp: created_def tp_ok_def items_def)

text \<open>What \<^verbatim>\<open>threadpool_create\<close> may return: nothing, when its first allocation failed, or a new pool.\<close>

definition create_post :: "int \<Rightarrow> int \<Rightarrow> int \<Rightarrow> os \<Rightarrow> threadpool_t option \<Rightarrow> os \<Rightarrow> bool" where
  "create_post mn mx qm s r t \<longleftrightarrow> (case r of None \<Rightarrow> (\<exists>e. sched s = Err e # sched t) \<and> heap t = heap s | Some p \<Rightarrow> created mn mx qm p)"

lemma create_bad_runs:
  assumes "task_queue_ptr p = Unset \<or> (\<exists>b. threads_ptr p = At b) \<and> lock p \<noteq> Locked"
  shows "runs (create_failed (Some p)) R (\<lambda>_. True) t"
  by (rule runs_mono [OF create_failed_runs [OF assms]]) auto

lemma init_pool_fields [simp]: "task_queue_ptr (init_pool b mn mx qm) = Unset" "lock (init_pool b mn mx qm) = No_mutex"
  by (simp_all add: init_pool_def)

lemma create_last_runs:
  assumes "created mn mx qm p" "0 \<le> mn" "mn \<le> mx"
  shows "runs (bnd (start_threads 0 (nat mn) p) (\<lambda>p. bnd pthread_create (\<lambda>tid. ret (Some (p\<lparr>adjust_tid := tid\<rparr>)))))
    (create_post mn mx qm s) (\<lambda>_. True) t"
proof -
  have "0 + nat mn \<le> length (threads p)" using assms by (simp add: created_def)
  from start_threads_runs [OF this] show ?thesis
    by (rule runs_bnd) (auto simp: create_post_def intro!: runs_bnd [OF pthread_runs(2)] runs_ret created_upd [OF assms(1)])
qed

lemma create_locks_runs:
  assumes "0 \<le> mn" "mn \<le> mx" "0 < qm" "qm \<le> INT_MAX"
    and p: "p = (init_pool b mn mx qm)\<lparr>threads_ptr := At tb, threads := replicate (nat mx) 0, task_queue_ptr := At qb,
      task_queue := replicate (nat qm) \<lparr>task_function = Unset, task_arg = Unset\<rparr>\<rparr>"
  shows "runs (bnd (init_locks p) (\<lambda>(good, p). if \<not> good then create_failed (Some p) else
    bnd (start_threads 0 (nat mn) p) (\<lambda>p. bnd pthread_create (\<lambda>tid. ret (Some (p\<lparr>adjust_tid := tid\<rparr>))))))
    (create_post mn mx qm s) (\<lambda>_. True) t"
proof (rule runs_bnd [OF init_locks_runs], goal_cases)
  case 1
  show ?case by (simp add: p init_pool_def)
next
  case (2 r u)
  obtain g q where [simp]: "r = (g, q)" by (cases r)
  have q: "locks_only p q" "lock q \<noteq> Locked" "g \<longrightarrow> lock q = Unlocked \<and> thread_counter q = Unlocked" using 2 by auto
  have c: "created mn mx qm q" if g using q that assms(1-4)
    by (subst q(1) [unfolded locks_only_def]) (simp add: p init_pool_def created_def tp_ok_def items_def)
  have th: "threads_ptr q = At tb" by (subst q(1) [unfolded locks_only_def]) (simp add: p)
  show ?case
  proof (cases g)
    case True
    then show ?thesis using create_last_runs [OF c [OF True] assms(1,2)] by simp
  next
    case False
    then show ?thesis using create_bad_runs [of q] q(2) th by simp
  qed
qed simp

text \<open>The allocation of an array, which the failure path may follow.\<close>

lemma runs_alloc:
  assumes "\<And>b u. runs (f (Some b)) R (\<lambda>_. True) u" "\<And>u. runs (f None) R (\<lambda>_. True) u"
  shows "runs (bnd (malloc n) f) R (\<lambda>_. True) t"
proof (rule runs_bnd [OF malloc_any])
  show "runs (f x) R (\<lambda>_. True) u" for x u by (cases x) (simp_all add: assms)
qed simp

lemma threadpool_create_runs:
  assumes "0 \<le> mn" "mn \<le> mx" "mx \<le> INT_MAX" "0 < qm" "qm \<le> INT_MAX"
  shows "runs (threadpool_create mn mx qm) (create_post mn mx qm s) (\<lambda>_. True) s"
proof -
  have mx: "mul_size 8 mx div 8 = nat mx" "mul_size 16 qm div 16 = nat qm"
    using assms by (simp_all add: mul_size_exact)
  show ?thesis unfolding threadpool_create_def Let_def mx
  proof (rule runs_bnd [OF first_malloc], goal_cases)
    case (1 x t)
    show ?case
    proof (cases x)
      case None
      with 1 show ?thesis by (simp add: create_failed_def threadpool_free_def runs_ret create_post_def)
    next
      case (Some b)
      then show ?thesis
        by (auto intro!: runs_alloc create_locks_runs [OF assms(1,2,4,5) HOL.refl] create_bad_runs)
    qed
  qed simp
qed

lemma crew_start_inv:
  assumes "created mn mx qm p" "0 \<le> mn" "mn \<le> mx" "distinct (take (nat mn) (threads p))"
  shows "crew_inv (crew_start p)"
proof -
  let ?ts = "take (nat mn) (threads p)"
  have "card (set ?ts) = nat mn" using assms by (auto simp: distinct_card created_def min_def)
  moreover have "{t. pcs (crew_start p) t \<noteq> C_none} = set ?ts" "{t. is_busy (pcs (crew_start p) t)} = {}"
    using assms(1) by (auto simp: crew_start_def created_def split: if_splits)
  ultimately have "counts_ok p (pcs (crew_start p))"
    using assms by (simp add: counts_ok_def created_def)
  with assms show ?thesis by (simp add: crew_inv_def created_def) (simp add: crew_start_def)
qed

end
