(* ===== verification/Threadpool_Adjust.thy ===== *)
theory Threadpool_Adjust
  imports Threadpool_Crew
begin

text \<open>
  What the self-adjusting pool guarantees while it is open, what its creation can return,
  and why releasing it is undefined.
\<close>

section \<open>A small pool\<close>

definition small_os :: os where
  "small_os = demo_os (map ok [0, 0, 0, 0, 0, 0, 0, 6, 8]) []"

definition small_pool :: threadpool_t where
  "small_pool = \<lparr>self = 0, lock = Unlocked, thread_counter = Unlocked, queue_not_full = True, queue_not_empty = True,
     threads_ptr = At 1, threads = [7, 0], adjust_tid = 9, task_queue_ptr = At 2,
     task_queue = [\<lparr>task_function = Unset, task_arg = Unset\<rparr>], min_thr_num = 1, max_thr_num = 2, live_thr_num = 1,
     busy_thr_num = 0, wait_exit_thr_num = 0, queue_front = 0, queue_rear = 0, queue_size = 0, queue_max_size = 1, shutdown = 0\<rparr>"

lemma replicate_two: "replicate 2 x = [x, x]"
  by (simp add: numeral_2_eq_2)

lemma small_create: "fst (threadpool_create 1 2 1 small_os) = Ret (Some small_pool)"
  by (simp add: threadpool_create_def small_os_def demo_os_def small_pool_def malloc_def syscall_def init_pool_def init_locks_def
      pthread_init_def pthread_create_def bnd_def prog_basics mul_size_def PTRDIFF_MAX_def Let_def c_size_def
      replicate_two)

text \<open>A task is added and the one worker takes it.\<close>

definition small_task :: threadpool_task_t where
  "small_task = \<lparr>task_function = At 5, task_arg = At 6\<rparr>"

lemma small_run:
  "\<exists>s. crew_reach (crew_start small_pool) s \<and> added s = [small_task] \<and> taken s = [small_task] \<and> busy_thr_num (cpool s) = 1"
proof -
  define s0 where "s0 = crew_start small_pool"
  define p1 where "p1 = small_pool\<lparr>task_queue := [small_task], queue_size := 1\<rparr>"
  define s1 where "s1 = s0\<lparr>cpool := p1, added := added s0 @ [\<lparr>task_function = At 5, task_arg = At 6\<rparr>]\<rparr>"
  define p2 where "p2 = p1\<lparr>queue_size := 0\<rparr>"
  define s2 where "s2 = s1\<lparr>cpool := p2, pcs := (pcs s1)(7 := after (T_run small_task)), taken := taken s1 @ got (T_run small_task)\<rparr>"
  define s3 where "s3 = s2\<lparr>cpool := p2\<lparr>busy_thr_num := 1\<rparr>, pcs := (pcs s2)(7 := C_busy small_task)\<rparr>"
  note d = s0_def s1_def s2_def s3_def p1_def p2_def crew_start_def small_pool_def small_task_def
  note e = bnd_def prog_basics c_rem_def INT_MAX_def INT_MIN_def
  have "crew_step s0 s1" unfolding s1_def
    by (rule crew_step.u_add) (simp_all add: d e add_waits_def threadpool_add_def put_slot_def fill_slot_def Let_def)
  moreover have "crew_step s1 s2" unfolding s2_def
    by (rule crew_step.t_lock) (simp_all add: d e threadpool_thread_def thread_test_def take_slot_def)
  moreover have "crew_step s2 s3" unfolding s3_def
    by (rule crew_step.t_busy [where k = small_task]) (simp_all add: d e after_def busy_add_def)
  ultimately have "crew_reach s0 s3" by (meson crew_reach.intros)
  then show ?thesis unfolding s0_def by (intro exI [of _ s3]) (simp add: d got_def)
qed

lemma createdI:
  assumes "threadpool_create mn mx qm z = (Ret (Some p), t)" "0 \<le> mn" "mn \<le> mx" "mx \<le> INT_MAX" "0 < qm" "qm \<le> INT_MAX"
  shows "created mn mx qm p"
  using runs_Ret [OF threadpool_create_runs [OF assms(2-6)] assms(1)] by (simp add: create_post_def)

section \<open>The open pool\<close>



text \<open>
  C14: The pool runs its tasks first in, first out: the tasks added are the tasks taken by
  workers, in order, followed by those in the queue; none is lost, doubled or altered.
\<close>

theorem crew_fifo:
  assumes "threadpool_create mn mx qm z = (Ret (Some p), t)" "0 \<le> mn" "mn \<le> mx" "mx \<le> INT_MAX" "0 < qm" "qm \<le> INT_MAX"
    "distinct (take (nat mn) (threads p))" "crew_reach (crew_start p) s"
  shows "added s = taken s @ items (cpool s)"
  using crew_reach_inv [OF assms(8) crew_start_inv [OF createdI [OF assms(1-6)] assms(2,3,7)]]
  by (simp add: crew_inv_def)

theorem crew_fifo_witness:
  "\<exists>s. crew_reach (crew_start small_pool) s \<and> taken s = [small_task] \<and> added s = taken s @ items (cpool s)"
proof -
  obtain t where c: "threadpool_create 1 2 1 small_os = (Ret (Some small_pool), t)"
    using small_create by (metis prod.collapse)
  obtain s where s: "crew_reach (crew_start small_pool) s" "taken s = [small_task]" using small_run by blast
  from crew_fifo [OF c _ _ _ _ _ _ s(1)] s show ?thesis by (auto simp: INT_MAX_def small_pool_def)
qed



section \<open>Creation and release\<close>

text \<open>
  C28: \<^verbatim>\<open>threadpool_create\<close> returns \<^verbatim>\<open>NULL\<close> only when its very first allocation fails; a pool it
  returns is empty, open and has its two mutexes ready. Every later failure reaches
  \<^verbatim>\<open>threadpool_free\<close> with a pointer or a mutex that was never set, and is undefined.
\<close>

theorem threadpool_create_outcome:
  assumes "0 \<le> mn" "mn \<le> mx" "mx \<le> INT_MAX" "0 < qm" "qm \<le> INT_MAX"
  shows "case threadpool_create mn mx qm s of
      (Ret None, t) \<Rightarrow> (\<exists>e. sched s = Err e # sched t) \<and> heap t = heap s
    | (Ret (Some p), t) \<Rightarrow> created mn mx qm p
    | (Exit c, t) \<Rightarrow> False | (Block, t) \<Rightarrow> True | (Fault, t) \<Rightarrow> True"
  using threadpool_create_runs [OF assms, of s]
  by (auto simp: runs_def create_post_def split: prod.splits res.splits option.splits)

theorem threadpool_create_outcome_witness: "created 1 2 1 small_pool"
  using threadpool_create_outcome [of 1 2 1 small_os] small_create
  by (auto simp: INT_MAX_def split: prod.splits)

text \<open>
  Destroying a pool that was created is undefined, in every state: \<^verbatim>\<open>threadpool_free\<close>
  destroys a mutex that it has locked itself, with no unlock in between.
\<close>

theorem threadpool_destroy_undefined:
  assumes "threadpool_create mn mx qm z = (Ret (Some p), t)" "0 \<le> mn" "mn \<le> mx" "mx \<le> INT_MAX" "0 < qm" "qm \<le> INT_MAX"
  shows "fst (threadpool_destroy (Some p) u) = Fault"
proof -
  have "undefined_call (threadpool_free (Some (p\<lparr>shutdown := 1\<rparr>)))"
    using createdI [OF assms] by (intro threadpool_free_undefined) (simp add: created_def)
  then have "undefined_call (threadpool_destroy (Some p))"
    by (simp add: threadpool_destroy_def undefined_call_first)
  then show ?thesis by (simp add: undefined_call_def)
qed

theorem threadpool_destroy_undefined_witness: "fst (threadpool_destroy (Some small_pool) small_os) = Fault"
proof -
  obtain t where c: "threadpool_create 1 2 1 small_os = (Ret (Some small_pool), t)"
    using small_create by (metis prod.collapse)
  show ?thesis by (rule threadpool_destroy_undefined [OF c]) (simp_all add: INT_MAX_def)
qed

end
