(* ===== verification/Epoll_Host.thy ===== *)
theory Epoll_Host
  imports Wrap
begin

unbundle bit_operations_syntax

text \<open>
  What the event-driven servers share: a program's variables with the kernel it runs on, the
  calls on that kernel, and one epoll instance.
\<close>

section \<open>State and calls\<close>

text \<open>A program extends the record by its own variables.\<close>

record host =
  kernel :: os

definition call :: "'b call \<Rightarrow> ('a host_scheme, 'b) prog" where
  "call m r = (case m (kernel r) of (x, t) \<Rightarrow> (x, r\<lparr>kernel := t\<rparr>))"

text \<open>
  The interest list maps a registered descriptor to the user data (\<^verbatim>\<open>epoll_data_t\<close>, whose type a
  program chooses) and the events it is registered with.
\<close>

record 'd epoll_host = host +
  tree :: "int \<Rightarrow> ('d \<times> int) option"

definition EPOLLIN :: int where "EPOLLIN = 1"
definition EPOLLOUT :: int where "EPOLLOUT = 4"

text \<open>
  \<^verbatim>\<open>epoll_ctl\<close>: adding fails for a descriptor that is not open or is registered, or for lack of
  resources; changing and removing fail for one that is not registered. Closing a descriptor
  removes it.
\<close>

definition epoll_add :: "int \<Rightarrow> 'd \<Rightarrow> int \<Rightarrow> (('d, 'a) epoll_host_scheme, int) prog" where
  "epoll_add f i evs = bnd (call (syscall (ret (-1 :: int)) (\<lambda>_ _ _. ret 0))) (\<lambda>n r.
     if n < 0 \<or> fds (kernel r) f = None \<or> tree r f \<noteq> None then (Ret (-1), r)
     else (Ret 0, r\<lparr>tree := (tree r)(f := Some (i, evs))\<rparr>))"

definition epoll_mod :: "int \<Rightarrow> 'd \<Rightarrow> int \<Rightarrow> (('d, 'a) epoll_host_scheme, int) prog" where
  "epoll_mod f i evs r = (if tree r f = None then (Ret (-1), r) else (Ret 0, r\<lparr>tree := (tree r)(f := Some (i, evs))\<rparr>))"

definition epoll_del :: "int \<Rightarrow> (('d, 'a) epoll_host_scheme, int) prog" where
  "epoll_del f r = (if tree r f = None then (Ret (-1), r) else (Ret 0, r\<lparr>tree := (tree r)(f := None)\<rparr>))"

definition close_fd :: "int \<Rightarrow> (('d, 'a) epoll_host_scheme, int) prog" where
  "close_fd f = bnd (call (sys_close f)) (\<lambda>n. bnd (modify (\<lambda>r. r\<lparr>tree := (tree r)(f := None)\<rparr>)) (\<lambda>_. ret n))"

section \<open>What the calls do\<close>

lemma runs_call:
  "runs m (\<lambda>a k. R a (r\<lparr>kernel := k\<rparr>)) (\<lambda>k. F (r\<lparr>kernel := k\<rparr>)) (kernel r) \<Longrightarrow> runs (call m) R F r"
  by (auto simp: runs_def call_def split: prod.splits res.splits)

lemma runs_bnd_call:
  assumes "runs m P never (kernel r)" "\<And>a k. P a k \<Longrightarrow> runs (f a) R F (r\<lparr>kernel := k\<rparr>)"
  shows "runs (bnd (call m) f) R F r"
proof (rule runs_bnd [OF runs_call])
  show "runs m (\<lambda>a k. (\<lambda>a t. \<exists>k. P a k \<and> t = r\<lparr>kernel := k\<rparr>) a (r\<lparr>kernel := k\<rparr>)) (\<lambda>k. never (r\<lparr>kernel := k\<rparr>)) (kernel r)"
    by (rule runs_mono [OF assms(1)]) auto
qed (use assms(2) in auto)

lemma sys_read_runs:
  "runs (sys_read f n) (\<lambda>(m, bs) k. (m \<le> 0 \<and> bs = [] \<and> fds k = fds s) \<or>
     (\<exists>c. 0 < m \<and> fds s f = Some c \<and> nat m \<le> n \<and> nat m \<le> length (rcvq c) \<and> bs = take (nat m) (rcvq c) \<and>
       fds k = (fds s)(f \<mapsto> c\<lparr>rcvq := drop (nat m) (rcvq c)\<rparr>))) never s"
  by (auto simp: runs_def sys_defs Let_def split: sys_splits)

lemma sys_write_runs:
  "runs (sys_write f bs) (\<lambda>m k. (m \<le> 0 \<and> fds k = fds s) \<or>
     (\<exists>c. 0 < m \<and> fds s f = Some c \<and> nat m \<le> length bs \<and>
       fds k = (fds s)(f \<mapsto> c\<lparr>sndq := sndq c @ take (nat m) bs\<rparr>))) never s"
  by (auto simp: runs_def sys_defs Let_def fun_upd_idem split: sys_splits)

lemma sys_close_runs: "runs (sys_close f) (\<lambda>_ k. fds k = (fds s)(f := None)) never s"
  by (auto simp: runs_def sys_defs split: sys_splits)

lemma sys_setfl_runs:
  "runs (sys_fcntl_setfl f v) (\<lambda>n k. \<forall>g. (fds k g = None) = (fds s g = None)) never s"
  by (auto simp: runs_def sys_defs split: sys_splits)

lemma host_close_runs:
  assumes "\<And>t. fds (kernel t) = (fds (kernel r))(f := None) \<Longrightarrow> tree t = (tree r)(f := None) \<Longrightarrow> epoll_host.more t = epoll_host.more r \<Longrightarrow>
    runs (h ()) R F t"
  shows "runs (bnd (close_fd f) (\<lambda>_. h ())) R F r"
  unfolding close_fd_def bnd_assoc
  by (rule runs_bnd_call [OF sys_close_runs]) (simp add: runs_bnd_modify assms)

section \<open>Runs that may end the process\<close>

text \<open>
  The wrappers end the process when a call fails. \<open>may_exit m R s\<close>: from \<open>s\<close> the program \<open>m\<close> has no
  undefined behaviour, and a value it returns satisfies \<open>R\<close> with the state it leaves.
\<close>

definition may_exit :: "('s, 'a) prog \<Rightarrow> ('a \<Rightarrow> 's \<Rightarrow> bool) \<Rightarrow> 's \<Rightarrow> bool" where
  "may_exit m R s = (case m s of
      (Ret a, t) \<Rightarrow> R a t
    | (Exit c, t) \<Rightarrow> True
    | (Block, t) \<Rightarrow> True
    | (Fault, t) \<Rightarrow> False)"

named_theorems may_exit_intros \<open>runs that may end the process\<close>

lemma may_exit_basics [may_exit_intros]:
  "P a s \<Longrightarrow> may_exit (ret a) P s"
  "R (f s) s \<Longrightarrow> may_exit (gets f) R s"
  "Q () (g s) \<Longrightarrow> may_exit (modify g) Q s"
  "may_exit (exit_with c) S s"
  by (simp_all add: may_exit_def prog_basics)

lemma may_exit_bnd:
  assumes "may_exit m P s" "\<And>a t. P a t \<Longrightarrow> may_exit (f a) R t"
  shows "may_exit (bnd m f) R s"
proof (cases "m s")
  case (Pair x t)
  with assms show ?thesis by (cases x) (auto simp: may_exit_def bnd_def)
qed

lemma may_exit_mono: "may_exit m P s \<Longrightarrow> (\<And>a t. P a t \<Longrightarrow> R a t) \<Longrightarrow> may_exit m R s"
  by (auto simp: may_exit_def split: prod.splits res.splits)

lemma may_exit_bnd_basics [may_exit_intros]:
  "may_exit (k (g s)) R s \<Longrightarrow> may_exit (bnd (gets g) k) R s"
  "may_exit (m ()) R (h s) \<Longrightarrow> may_exit (bnd (modify h) m) R s"
  "b \<Longrightarrow> may_exit (m ()) R s \<Longrightarrow> may_exit (bnd (require b) m) R s"
  by (simp_all add: may_exit_def bnd_def prog_basics)

lemma may_exit_if [may_exit_intros]:
  "(b \<Longrightarrow> may_exit m R s) \<Longrightarrow> (\<not> b \<Longrightarrow> may_exit n R s) \<Longrightarrow> may_exit (if b then m else n) R s"
  by simp

lemma may_exit_runs: "runs m R never s \<Longrightarrow> may_exit m R s"
  by (auto simp: runs_def may_exit_def split: prod.splits res.splits)

lemma may_exit_Ret: "may_exit m R s \<Longrightarrow> m s = (Ret a, t) \<Longrightarrow> R a t"
  by (simp add: may_exit_def)

lemma may_exit_bnd_call:
  assumes "may_exit m P (kernel r)" "\<And>a k. P a k \<Longrightarrow> may_exit (f a) R (r\<lparr>kernel := k\<rparr>)"
  shows "may_exit (bnd (call m) f) R r"
proof (cases "m (kernel r)")
  case (Pair x k)
  with assms show ?thesis by (cases x) (auto simp: may_exit_def bnd_def call_def)
qed

section \<open>The wrappers\<close>

definition read_got :: "int \<Rightarrow> nat \<Rightarrow> os \<Rightarrow> int \<times> byte list \<Rightarrow> os \<Rightarrow> bool" where
  "read_got f n s x k \<longleftrightarrow> (case x of (m, bs) \<Rightarrow> (m \<le> 0 \<and> bs = [] \<and> fds k = fds s) \<or>
     (\<exists>c. 0 < m \<and> fds s f = Some c \<and> nat m \<le> n \<and> nat m \<le> length (rcvq c) \<and> bs = take (nat m) (rcvq c) \<and>
       fds k = (fds s)(f \<mapsto> c\<lparr>rcvq := drop (nat m) (rcvq c)\<rparr>)))"

definition write_put :: "int \<Rightarrow> byte list \<Rightarrow> os \<Rightarrow> int \<Rightarrow> os \<Rightarrow> bool" where
  "write_put f bs s m k \<longleftrightarrow> (m \<le> 0 \<and> fds k = fds s) \<or>
     (\<exists>c. 0 < m \<and> fds s f = Some c \<and> nat m \<le> length bs \<and>
       fds k = (fds s)(f \<mapsto> c\<lparr>sndq := sndq c @ take (nat m) bs\<rparr>))"

lemma Read_runs: "may_exit (Read f n) (read_got f n s) s"
proof -
  obtain x k where x: "Read f n s = (x, k)" by fastforce
  have keep: "fds v = fds u" if "sys_read f n u = (Ret a, v)" "fst a = -1" for u a v
    using that by (auto simp: sys_read_def syscall_def ret_def fail_with_def Let_def split: sys_splits)
  obtain u where u: "fds u = fds s" "bnd (sys_read f n) ret u = (x, k)"
    using Read.outcome [OF x, of "\<lambda>u. fds u = fds s"] keep by (fastforce split: prod.splits)
  with sys_read_runs [of f n u] x show ?thesis
    by (auto simp: may_exit_def runs_def bnd_def ret_def read_got_def split: prod.splits res.splits)
qed

lemma Write_runs: "may_exit (Write f bs) (write_put f bs s) s"
proof -
  obtain x k where x: "Write f bs s = (x, k)" by fastforce
  have keep: "fds v = fds u" if "sys_write f bs u = (Ret (-1), v)" for u v
    using that by (auto simp: sys_write_def syscall_def ret_def fail_with_def Let_def split: sys_splits)
  obtain u where u: "fds u = fds s" "bnd (sys_write f bs) ret u = (x, k)"
    using Write.outcome [OF x, of "\<lambda>u. fds u = fds s"] keep by fastforce
  with sys_write_runs [of f bs u] x show ?thesis
    by (auto simp: may_exit_def runs_def bnd_def ret_def write_put_def split: prod.splits res.splits)
qed

lemma Accept_runs: "may_exit (Accept f) (accepted s) s"
  using Accept_outcome [where fd = f and s = s] by (auto simp: may_exit_def split: res.splits prod.splits)

text \<open>\<^verbatim>\<open>Read\<close> and \<^verbatim>\<open>Write\<close> never end the process and leave the heap alone.\<close>

lemma keeps_RW [keeps_intros]: "keeps heap (Read f n)" "keeps heap (Write f bs)"
  by (rule Read.keeps_loop Write.keeps_loop; intro keeps_intros)+

lemma Read_post:
  "runs (Read f n) (\<lambda>x k. read_got f n s x k \<and> heap k = heap s) never s"
proof -
  obtain x k where x: "Read f n s = (x, k)" by fastforce
  have "\<not> (\<exists>c. x = Exit c)"
  proof
    assume "\<exists>c. x = Exit c"
    then obtain c where "Read f n s = (Exit c, k)" using x by blast
    then show False
    proof (induction f n s rule: Read.induct)
      case (1 f n s)
      have "sys_read f n s \<noteq> (Exit c, v)" for v
        by (auto simp: sys_read_def syscall_def ret_def fail_with_def Let_def split: sys_splits)
      with 1 show ?case
        by (subst (asm) Read.simps) (auto simp: bnd_def ret_def split: prod.splits res.splits if_splits)
    qed
  qed
  with Read_runs [of f n s] x keepsD [OF keeps_RW(1) x] show ?thesis
    by (auto simp: runs_def may_exit_def split: res.splits)
qed

lemma Write_post:
  "runs (Write f bs) (\<lambda>m k. write_put f bs s m k \<and> heap k = heap s) never s"
proof -
  obtain x k where x: "Write f bs s = (x, k)" by fastforce
  have "\<not> (\<exists>c. x = Exit c)"
  proof
    assume "\<exists>c. x = Exit c"
    then obtain c where "Write f bs s = (Exit c, k)" using x by blast
    then show False
    proof (induction f bs s rule: Write.induct)
      case (1 f bs s)
      have "sys_write f bs s \<noteq> (Exit c, v)" for v
        by (auto simp: sys_write_def syscall_def ret_def fail_with_def Let_def split: sys_splits)
      with 1 show ?case
        by (subst (asm) Write.simps) (auto simp: bnd_def ret_def split: prod.splits res.splits if_splits)
    qed
  qed
  with Write_runs [of f bs s] x keepsD [OF keeps_RW(2) x] show ?thesis
    by (auto simp: runs_def may_exit_def split: res.splits)
qed

text \<open>
  \<^verbatim>\<open>printf("%s\\n", buf)\<close> for a buffer of \<open>n\<close> bytes, cleared before \<open>bs\<close> was read into it: it reads
  behind the end of the buffer when no 0 byte is in it.
\<close>

definition print_string :: "nat \<Rightarrow> byte list \<Rightarrow> ('s, unit) prog" where
  "print_string n bs = require (length bs < n \<or> 0 \<in> set bs)"

lemma print_string_fits: "length bs < n \<Longrightarrow> print_string n bs = ret ()"
  by (simp add: print_string_def require_def)

text \<open>\<^verbatim>\<open>Close\<close> takes the descriptor out of the interest list.\<close>

definition Close_fd :: "int \<Rightarrow> (('d, 'a) epoll_host_scheme, int) prog" where
  "Close_fd f = bnd (call (Close f)) (\<lambda>n. bnd (modify (\<lambda>r. r\<lparr>tree := (tree r)(f := None)\<rparr>)) (\<lambda>_. ret n))"

lemma Close_runs: "may_exit (Close f) (\<lambda>_ k. fds k = (fds s)(f := None)) s"
  unfolding Close_def perr_exit_def
  by (rule may_exit_bnd [OF may_exit_runs [OF sys_close_runs]]) (auto intro!: may_exit_intros)

lemma may_exit_Close_fd:
  assumes "\<And>k. fds k = (fds (kernel r))(f := None) \<Longrightarrow> may_exit h R (r\<lparr>kernel := k, tree := (tree r)(f := None)\<rparr>)"
  shows "may_exit (bnd (Close_fd f) (\<lambda>_. h)) R r"
  unfolding Close_fd_def bnd_assoc
  by (rule may_exit_bnd_call [OF Close_runs]) (simp add: assms may_exit_intros)

text \<open>
  How a main thread takes a connection that is to be served edge triggered: the descriptor is made
  non-blocking, without a look at the results of \<^verbatim>\<open>fcntl\<close>, and registered.
\<close>

definition EPOLLET :: int where "EPOLLET = 2147483648"

definition accept_edge :: "int \<Rightarrow> ((int, 'a) epoll_host_scheme, unit) prog" where
  "accept_edge lfd =
     bnd (call (Accept lfd)) (\<lambda>cfd.
     bnd (call (sys_fcntl_getfl cfd)) (\<lambda>flag.
     bnd (call (sys_fcntl_setfl cfd (flag OR O_NONBLOCK))) (\<lambda>_.
     bnd (epoll_add cfd cfd (EPOLLIN OR EPOLLET)) (\<lambda>_. ret ()))))"

section \<open>Progress\<close>

text \<open>A call that returns has used up an answer of the kernel.\<close>

lemma Read_shorter: "Read f n s = (Ret x, t) \<Longrightarrow> length (sched t) < length (sched s)"
proof (induction f n s rule: Read.induct)
  case (1 f n s)
  from "1.prems" obtain y u where y: "sys_read f n s = (Ret y, u)"
    "(case y of (m, bs) \<Rightarrow> if m = -1 then if errno u = EINTR then Read f n u else ret (-1, bs) u else ret (m, bs) u) = (Ret x, t)"
    by (subst (asm) Read.simps) (auto elim!: bnd_RetE)
  with "1.IH" [OF y(1) prod.collapse] rd.shorter [OF y(1)] show ?case
    by (auto simp: ret_def split: prod.splits if_splits dest: less_trans)
qed

lemma Write_shorter: "Write f bs s = (Ret m, t) \<Longrightarrow> length (sched t) < length (sched s)"
proof (induction f bs s rule: Write.induct)
  case (1 f bs s)
  from "1.prems" obtain m' u where y: "sys_write f bs s = (Ret m', u)"
    "(if m' = -1 then if errno u = EINTR then Write f bs u else ret (-1) u else ret m' u) = (Ret m, t)"
    by (subst (asm) Write.simps) (auto elim!: bnd_RetE)
  with "1.IH" [OF y(1)] wr.shorter [OF y(1)] show ?case
    by (auto simp: ret_def split: if_splits dest: less_trans)
qed

lemma close_fd_sched: "close_fd f r = (x, t) \<Longrightarrow> length (sched (kernel t)) \<le> length (sched (kernel r))"
  by (auto simp: close_fd_def call_def bnd_def prog_basics sys_close_def syscall_def fail_with_def split: sys_splits res.splits)

section \<open>Starting a server\<close>

text \<open>
  The part of \<^verbatim>\<open>main\<close> that the servers have in common: a socket bound to a port of every local
  address, with the address reusable, that listens.
\<close>

definition listen_on :: "16 word \<Rightarrow> ('a host_scheme, int) prog" where
  "listen_on port =
     bnd (call Socket) (\<lambda>lfd.
     bnd (call (sys_setsockopt lfd)) (\<lambda>_.
     bnd (gets (\<lambda>r. (htonl (le (kernel r)) INADDR_ANY, htons (le (kernel r)) port))) (\<lambda>(a, p).
     bnd (call (Bind lfd a p)) (\<lambda>_.
     bnd (call (Listen lfd)) (\<lambda>_. ret lfd)))))"

definition listener_up :: "int \<Rightarrow> os \<Rightarrow> os \<Rightarrow> bool" where
  "listener_up lfd k t \<longleftrightarrow> fds k lfd = None \<and> fds t lfd \<noteq> None \<and> (\<forall>g. g \<noteq> lfd \<longrightarrow> fds t g = fds k g)"

lemma Socket_up: "may_exit Socket (\<lambda>lfd. listener_up lfd s) s"
  by (auto simp: may_exit_def Socket_def bnd_def sys_socket_def syscall_def open_fd_def fail_with_def ret_def listener_up_def
      perr_exit_def exit_with_def split: sys_splits)

lemma sys_on_fd_up:
  assumes "listener_up lfd k s"
  shows "may_exit (sys_on_fd lfd g) (\<lambda>_. listener_up lfd k) s"
  using assms by (auto simp: may_exit_def sys_on_fd_def syscall_def ret_def fail_with_def listener_up_def split: sys_splits)

lemma setup_up:
  assumes "listener_up lfd k s"
  shows "may_exit (sys_setsockopt lfd) (\<lambda>_. listener_up lfd k) s"
    "may_exit (Bind lfd a p) (\<lambda>_. listener_up lfd k) s" "may_exit (Listen lfd) (\<lambda>_. listener_up lfd k) s"
    "may_exit (syscall (ret (-1 :: int)) (\<lambda>_ _ _. ret 0)) (\<lambda>_. listener_up lfd k) s"
  using assms unfolding sys_setsockopt_def Bind_def Listen_def sys_bind_def sys_listen_def perr_exit_def
  by (auto intro!: sys_on_fd_up may_exit_bnd [OF sys_on_fd_up] may_exit_intros)
    (auto simp: may_exit_def syscall_def ret_def listener_up_def split: sys_splits)

lemma may_exit_listen_on:
  assumes "\<And>lfd k. listener_up lfd (kernel r) k \<Longrightarrow> may_exit (f lfd) R (r\<lparr>kernel := k\<rparr>)"
  shows "may_exit (bnd (listen_on p) f) R r"
  unfolding listen_on_def bnd_assoc
  apply (rule may_exit_bnd_call [OF Socket_up])
  apply (rule may_exit_bnd_call, simp, rule setup_up(1), assumption)
  apply (simp only: bnd_assoc prod.case split_def, rule may_exit_bnd_basics(1))
  apply (rule may_exit_bnd_call, simp, rule setup_up(2), assumption)
  apply (rule may_exit_bnd_call, simp, rule setup_up(3), assumption)
  apply (simp add: assms)
  done

text \<open>A start without failures.\<close>

lemma listen_on_good:
  assumes "sched (kernel r) = ok n # ok 0 # ok 0 # ok 0 # xs" "fds (kernel r) (int n) = None"
  shows "\<exists>c. listening c \<and> listen_on p r = (Ret (int n), r\<lparr>kernel := (kernel r)\<lparr>sched := xs, fds := (fds (kernel r))(int n \<mapsto> c)\<rparr>\<rparr>)"
  using assms
  by (simp add: listen_on_def Socket_def sys_socket_def syscall_def open_fd_def set_fd_def bnd_def call_def prog_basics
      sys_setsockopt_def sys_on_fd_def Bind_def sys_bind_def Listen_def sys_listen_def)
    (intro exI conjI, auto)

end
