(* ===== verification/Epoll_Loop.thy ===== *)
theory Epoll_Loop
  imports Epoll_Host
begin

unbundle bit_operations_syntax

text \<open>
  The reactor, \<^verbatim>\<open>epoll_loop.c\<close> under \<^verbatim>\<open>src/Csocket\<close>: a table of event records, the epoll instance
  that points into it, the callbacks that accept, receive and send back, and the scan for idle
  connections. Every callback is modelled with the system calls it makes, each of which may
  fail.
\<close>

section \<open>State\<close>

definition MAX_EVENTS :: nat where "MAX_EVENTS = 1024"
definition BUFLEN :: nat where "BUFLEN = 4096"
datatype callback = Cb_none | Cb_acceptconn | Cb_recvdata | Cb_senddata

record myevent_s =
  fd :: int
  events :: int
  arg :: nat
  call_back :: callback
  status :: int
  buf :: "byte list"
  len :: int
  last_active :: int

text \<open>
  The global variables with the kernel; the user data in the interest list is a pointer to a
  record. \<open>clock\<close> is \<^verbatim>\<open>time(NULL)\<close>, constant during
  a callback; a pointer to a record of the table is its index.
\<close>

record reactor = "nat epoll_host" +
  g_events :: "myevent_s list"
  clock :: int
  checkpos :: nat

type_synonym 'a act = "(reactor, 'a) prog"

definition get_ev :: "nat \<Rightarrow> myevent_s act" where
  "get_ev i = bnd (gets g_events) (\<lambda>g. bnd (require (i < length g)) (\<lambda>_. ret (g ! i)))"

definition set_ev :: "nat \<Rightarrow> (myevent_s \<Rightarrow> myevent_s) \<Rightarrow> unit act" where
  "set_ev i h = bnd (get_ev i) (\<lambda>_. modify (\<lambda>r. r\<lparr>g_events := (g_events r)[i := h (g_events r ! i)]\<rparr>))"

section \<open>The functions\<close>

definition eventset :: "nat \<Rightarrow> int \<Rightarrow> callback \<Rightarrow> nat \<Rightarrow> unit act" where
  "eventset i f cb a = bnd (gets clock) (\<lambda>now.
     set_ev i (\<lambda>ev. ev\<lparr>fd := f, call_back := cb, events := 0, arg := a, status := 0, last_active := now\<rparr>))"

definition eventadd :: "int \<Rightarrow> nat \<Rightarrow> unit act" where
  "eventadd evs i =
     bnd (set_ev i (\<lambda>ev. ev\<lparr>events := evs\<rparr>)) (\<lambda>_.
     bnd (get_ev i) (\<lambda>ev.
     if status ev = 1 then bnd (epoll_mod (fd ev) i evs) (\<lambda>_. ret ())
     else bnd (set_ev i (\<lambda>ev. ev\<lparr>status := 1\<rparr>)) (\<lambda>_. bnd (epoll_add (fd ev) i evs) (\<lambda>_. ret ()))))"

definition eventdel :: "nat \<Rightarrow> unit act" where
  "eventdel i =
     bnd (get_ev i) (\<lambda>ev.
     if status ev \<noteq> 1 then ret ()
     else bnd (set_ev i (\<lambda>ev. ev\<lparr>status := 0\<rparr>)) (\<lambda>_. bnd (epoll_del (fd ev)) (\<lambda>_. ret ())))"

definition free_slot :: "reactor \<Rightarrow> nat" where
  "free_slot r = length (takeWhile (\<lambda>ev. status ev \<noteq> 0) (take MAX_EVENTS (g_events r)))"

definition acceptconn :: "int \<Rightarrow> unit act" where
  "acceptconn lfd =
     bnd (call (sys_accept lfd)) (\<lambda>cfd.
     if cfd = -1 then ret ()
     else bnd (gets free_slot) (\<lambda>i.
     if i = MAX_EVENTS then ret ()
     else bnd (call (sys_fcntl_setfl cfd O_NONBLOCK)) (\<lambda>flag.
     if flag < 0 then ret ()
     else bnd (eventset i cfd Cb_recvdata i) (\<lambda>_. eventadd EPOLLIN i))))"

definition recvdata :: "int \<Rightarrow> nat \<Rightarrow> unit act" where
  "recvdata f i =
     bnd (call (sys_read f BUFLEN)) (\<lambda>(n, bs).
     bnd (set_ev i (\<lambda>ev. ev\<lparr>buf := bs @ drop (length bs) (buf ev)\<rparr>)) (\<lambda>_.
     bnd (eventdel i) (\<lambda>_.
     if n > 0 then
       bnd (set_ev i (\<lambda>ev. ev\<lparr>len := n\<rparr>)) (\<lambda>_.
       bnd (require (n < int BUFLEN)) (\<lambda>_.
       bnd (set_ev i (\<lambda>ev. ev\<lparr>buf := (buf ev)[nat n := 0]\<rparr>)) (\<lambda>_.
       bnd (eventset i f Cb_senddata i) (\<lambda>_. eventadd EPOLLOUT i))))
     else bnd (get_ev i) (\<lambda>ev. bnd (close_fd (fd ev)) (\<lambda>_. ret ())))))"

definition senddata :: "int \<Rightarrow> nat \<Rightarrow> unit act" where
  "senddata f i =
     bnd (get_ev i) (\<lambda>ev.
     bnd (require (0 \<le> len ev \<and> len ev \<le> int (length (buf ev)))) (\<lambda>_.
     bnd (call (sys_write f (take (nat (len ev)) (buf ev)))) (\<lambda>n.
     if n > 0 then
       bnd (eventdel i) (\<lambda>_. bnd (eventset i f Cb_recvdata i) (\<lambda>_. eventadd EPOLLIN i))
     else bnd (close_fd (fd ev)) (\<lambda>_. eventdel i))))"

definition initlistensocket :: "16 word \<Rightarrow> unit act" where
  "initlistensocket port =
     bnd (call sys_socket) (\<lambda>lfd.
     bnd (call (sys_fcntl_setfl lfd O_NONBLOCK)) (\<lambda>_.
     bnd (eventset MAX_EVENTS lfd Cb_acceptconn MAX_EVENTS) (\<lambda>_.
     bnd (eventadd EPOLLIN MAX_EVENTS) (\<lambda>_.
     bnd (gets (\<lambda>r. htons (le (kernel r)) port)) (\<lambda>p.
     bnd (call (sys_bind lfd INADDR_ANY p)) (\<lambda>_.
     bnd (call (sys_listen lfd)) (\<lambda>_. ret ())))))))"

text \<open>
  The body of the scan loop, the scan, the call of a callback through a record of the table,
  what the loop does with one event, and one round of the main loop, with the events that
  \<^verbatim>\<open>epoll_wait\<close> reports as its argument.
\<close>

definition check_one :: "unit act" where
  "check_one =
     bnd (gets (\<lambda>r. (if checkpos r = MAX_EVENTS then 0 else checkpos r, clock r))) (\<lambda>(c, now).
     bnd (get_ev c) (\<lambda>ev.
     bnd (if status ev = 1 \<and> now - last_active ev \<ge> 60
          then bnd (close_fd (fd ev)) (\<lambda>_. eventdel c) else ret ()) (\<lambda>_.
     modify (\<lambda>r. r\<lparr>checkpos := Suc c\<rparr>))))"

primrec check_loop :: "nat \<Rightarrow> unit act" where
  "check_loop 0 = ret ()"
| "check_loop (Suc k) = bnd check_one (\<lambda>_. check_loop k)"

definition invoke :: "nat \<Rightarrow> unit act" where
  "invoke i = bnd (get_ev i) (\<lambda>ev. case call_back ev of
      Cb_none \<Rightarrow> fault
    | Cb_acceptconn \<Rightarrow> acceptconn (fd ev)
    | Cb_recvdata \<Rightarrow> recvdata (fd ev) (arg ev)
    | Cb_senddata \<Rightarrow> senddata (fd ev) (arg ev))"

definition dispatch :: "nat \<times> int \<Rightarrow> unit act" where
  "dispatch e = (case e of (i, evs) \<Rightarrow>
     bnd (get_ev i) (\<lambda>ev.
     bnd (if evs AND EPOLLIN \<noteq> 0 \<and> events ev AND EPOLLIN \<noteq> 0 then invoke i else ret ()) (\<lambda>_.
     bnd (get_ev i) (\<lambda>ev.
     if evs AND EPOLLOUT \<noteq> 0 \<and> events ev AND EPOLLOUT \<noteq> 0 then invoke i else ret ()))))"

primrec dispatch_all :: "(nat \<times> int) list \<Rightarrow> unit act" where
  "dispatch_all [] = ret ()"
| "dispatch_all (e # es) = bnd (dispatch e) (\<lambda>_. dispatch_all es)"

definition loop_round :: "(nat \<times> int) list \<Rightarrow> unit act" where
  "loop_round ready = bnd (check_loop 100) (\<lambda>_. dispatch_all ready)"

end
