(* ===== verification/Epoll_Inv.thy ===== *)
theory Epoll_Inv
  imports Epoll_Loop
begin

text \<open>
  The invariant of the reactor: the interest list points at records that describe the
  descriptor they are registered for, no two connections share a record or a descriptor, and
  every callback is registered for the event it handles.
\<close>

section \<open>What the functions do\<close>

lemma get_ev_eq [simp]: "i < length (g_events r) \<Longrightarrow> bnd (get_ev i) h r = h (g_events r ! i) r"
  by (simp add: get_ev_def bnd_def prog_basics)

lemma set_ev_eq [simp]:
  "i < length (g_events r) \<Longrightarrow> bnd (set_ev i h) m r = m () (r\<lparr>g_events := (g_events r)[i := h (g_events r ! i)]\<rparr>)"
  by (simp add: set_ev_def bnd_assoc) (simp add: bnd_def prog_basics)

lemma eventset_eq [simp]:
  "i < length (g_events r) \<Longrightarrow> bnd (eventset i f cb a) m r = m () (r\<lparr>g_events := (g_events r)[i := (g_events r ! i)
     \<lparr>fd := f, call_back := cb, events := 0, arg := a, status := 0, last_active := clock r\<rparr>]\<rparr>)"
  by (simp add: eventset_def bnd_assoc) (simp add: bnd_def prog_basics set_ev_def get_ev_def)

lemma eventdel_eq:
  assumes "i < length (g_events r)"
  shows "eventdel i r = (Ret (), if status (g_events r ! i) \<noteq> 1 then r
     else r\<lparr>g_events := (g_events r)[i := (g_events r ! i)\<lparr>status := 0\<rparr>], tree := (tree r)(fd (g_events r ! i) := None)\<rparr>)"
  using assms by (simp add: eventdel_def ret_def) (simp add: bnd_def epoll_del_def fun_upd_idem ret_def)

lemma eventdel_bnd [simp]:
  "i < length (g_events r) \<Longrightarrow> bnd (eventdel i) m r = m () (if status (g_events r ! i) \<noteq> 1 then r
     else r\<lparr>g_events := (g_events r)[i := (g_events r ! i)\<lparr>status := 0\<rparr>], tree := (tree r)(fd (g_events r ! i) := None)\<rparr>)"
  by (simp add: bnd_def eventdel_eq)

lemma eventadd_runs:
  assumes "i < length (g_events r)" "status (g_events r ! i) \<noteq> 1"
    "\<And>t e. e = (g_events r ! i)\<lparr>events := evs, status := 1\<rparr> \<Longrightarrow> fds (kernel t) = fds (kernel r) \<Longrightarrow>
       g_events t = (g_events r)[i := e] \<Longrightarrow> clock t = clock r \<Longrightarrow> checkpos t = checkpos r \<Longrightarrow>
       tree t = tree r \<or> tree t = (tree r)(fd e := Some (i, evs)) \<Longrightarrow> R () t"
  shows "runs (eventadd evs i) R never r"
proof -
  let ?t = "r\<lparr>g_events := (g_events r)[i := (g_events r ! i)\<lparr>events := evs, status := 1\<rparr>]\<rparr>"
  have "runs (bnd (epoll_add (fd (g_events r ! i)) i evs) (\<lambda>_. ret ())) R never ?t"
    by (auto simp: epoll_add_def call_def syscall_def runs_def bnd_def ret_def intro!: assms(3) split: list.splits answer.splits)
  with assms(1,2) show ?thesis unfolding eventadd_def by (simp add: runs_def)
qed

lemma close_fd_runs:
  assumes "\<And>t. fds (kernel t) = (fds (kernel r))(f := None) \<Longrightarrow> tree t = (tree r)(f := None) \<Longrightarrow> g_events t = g_events r \<Longrightarrow>
    clock t = clock r \<Longrightarrow> checkpos t = checkpos r \<Longrightarrow> runs (h ()) R F (t :: reactor)"
  shows "runs (bnd (close_fd f) (\<lambda>_. h ())) R F r"
proof (rule host_close_runs)
  fix t assume t: "fds (kernel t) = (fds (kernel r))(f := None)" "tree t = (tree r)(f := None)"
    "epoll_host.more t = epoll_host.more r"
  show "runs (h ()) R F t"
    by (rule assms [OF t(1,2)]) (use t(3) in \<open>cases t; cases r; simp\<close>)+
qed

section \<open>The invariant\<close>

abbreviation ev_at :: "reactor \<Rightarrow> nat \<Rightarrow> myevent_s" where
  "ev_at r i \<equiv> g_events r ! i"

abbreviation active :: "reactor \<Rightarrow> nat \<Rightarrow> bool" where
  "active r i \<equiv> status (ev_at r i) = 1"

definition ev_ok :: "nat \<Rightarrow> myevent_s \<Rightarrow> bool" where
  "ev_ok i e \<longleftrightarrow> arg e = i \<and> (call_back e = Cb_recvdata \<and> events e = EPOLLIN \<or>
     call_back e = Cb_senddata \<and> events e = EPOLLOUT \<and> 0 < len e \<and> len e < int BUFLEN)"

definition listener_ok :: "myevent_s \<Rightarrow> bool" where
  "listener_ok e \<longleftrightarrow> call_back e = Cb_acceptconn \<and> arg e = MAX_EVENTS \<and> events e = EPOLLIN \<and> status e = 1"

definition loop_inv :: "reactor \<Rightarrow> bool" where
  "loop_inv r \<longleftrightarrow> length (g_events r) = Suc MAX_EVENTS \<and> (\<forall>e \<in> set (g_events r). length (buf e) = BUFLEN) \<and>
     (\<forall>i < MAX_EVENTS. active r i \<longrightarrow> ev_ok i (ev_at r i) \<and> fd (ev_at r i) \<noteq> fd (ev_at r MAX_EVENTS)) \<and>
     (\<forall>i \<le> MAX_EVENTS. active r i \<longrightarrow> fds (kernel r) (fd (ev_at r i)) \<noteq> None) \<and>
     (\<forall>i < MAX_EVENTS. \<forall>j < MAX_EVENTS. active r i \<longrightarrow> active r j \<longrightarrow> fd (ev_at r i) = fd (ev_at r j) \<longrightarrow> i = j) \<and>
     (\<forall>f i evs. tree r f = Some (i, evs) \<longrightarrow> i \<le> MAX_EVENTS \<and> active r i \<and> fd (ev_at r i) = f \<and> events (ev_at r i) = evs) \<and>
     listener_ok (ev_at r MAX_EVENTS)"

lemma loop_invD:
  assumes "loop_inv r"
  shows "length (g_events r) = Suc MAX_EVENTS" "\<And>i. i \<le> MAX_EVENTS \<Longrightarrow> length (buf (ev_at r i)) = BUFLEN"
    "\<And>i. i < MAX_EVENTS \<Longrightarrow> active r i \<Longrightarrow> ev_ok i (ev_at r i)"
    "\<And>i. i < MAX_EVENTS \<Longrightarrow> active r i \<Longrightarrow> fd (ev_at r i) \<noteq> fd (ev_at r MAX_EVENTS)"
    "\<And>i. i \<le> MAX_EVENTS \<Longrightarrow> active r i \<Longrightarrow> fds (kernel r) (fd (ev_at r i)) \<noteq> None"
    "\<And>i j. i < MAX_EVENTS \<Longrightarrow> j < MAX_EVENTS \<Longrightarrow> active r i \<Longrightarrow> active r j \<Longrightarrow> fd (ev_at r i) = fd (ev_at r j) \<Longrightarrow> i = j"
    "\<And>f i evs. tree r f = Some (i, evs) \<Longrightarrow> i \<le> MAX_EVENTS \<and> active r i \<and> fd (ev_at r i) = f \<and> events (ev_at r i) = evs"
    "listener_ok (ev_at r MAX_EVENTS)"
  using assms by (auto simp: loop_inv_def)

text \<open>No two live records, the listener's included, have the same descriptor.\<close>

lemma fd_inj:
  assumes "loop_inv r" "i \<le> MAX_EVENTS" "j \<le> MAX_EVENTS" "active r i" "active r j" "fd (ev_at r i) = fd (ev_at r j)"
  shows "i = j"
  using assms loop_invD(4,6) [OF assms(1)] by (metis le_neq_implies_less)

text \<open>
  A step that rewrites one record of a connection, changes the registration of its descriptor
  and closes no other.
\<close>

definition touch :: "nat \<Rightarrow> reactor \<Rightarrow> reactor \<Rightarrow> bool" where
  "touch i r t \<longleftrightarrow> (\<exists>e x y. g_events t = (g_events r)[i := e] \<and> length (buf e) = BUFLEN \<and> tree t = (tree r)(x := y) \<and>
     (\<forall>j \<le> MAX_EVENTS. j \<noteq> i \<longrightarrow> active r j \<longrightarrow> fd (ev_at r j) \<noteq> x \<and> fds (kernel t) (fd (ev_at r j)) \<noteq> None) \<and>
     (active r i \<longrightarrow> fd (ev_at r i) = x) \<and> (y = None \<or> y = Some (i, events e) \<and> status e = 1) \<and>
     (status e = 1 \<longrightarrow> fd e = x \<and> ev_ok i e \<and> fds (kernel t) x \<noteq> None))"

lemma touch_inv:
  assumes "loop_inv r" "i < MAX_EVENTS" "touch i r t"
  shows "loop_inv t" "\<And>f j evs. j \<noteq> i \<Longrightarrow> tree r f = Some (j, evs) \<Longrightarrow> tree t f = Some (j, evs)"
proof -
  note inv = loop_invD [OF assms(1)]
  from assms(3) obtain e x y where
    t: "g_events t = (g_events r)[i := e]" "length (buf e) = BUFLEN" "tree t = (tree r)(x := y)" and
    others: "\<And>j. j \<le> MAX_EVENTS \<Longrightarrow> j \<noteq> i \<Longrightarrow> active r j \<Longrightarrow> fd (ev_at r j) \<noteq> x \<and> fds (kernel t) (fd (ev_at r j)) \<noteq> None" and
    me: "active r i \<Longrightarrow> fd (ev_at r i) = x" "y = None \<or> y = Some (i, events e) \<and> status e = 1"
      "status e = 1 \<Longrightarrow> fd e = x \<and> ev_ok i e \<and> fds (kernel t) x \<noteq> None"
    unfolding touch_def by blast
  have at: "ev_at t j = (if j = i then e else ev_at r j)" if "j \<le> MAX_EVENTS" for j
    using t(1) inv(1) assms(2) by (simp add: nth_list_update)
  have ls: "status (ev_at r MAX_EVENTS) = 1" "ev_at t MAX_EVENTS = ev_at r MAX_EVENTS"
    using inv(8) at [of MAX_EVENTS] assms(2) by (auto simp: listener_ok_def)
  show "tree t f = Some (j, evs)" if "j \<noteq> i" "tree r f = Some (j, evs)" for f j evs
    using inv(7) [OF that(2)] others [of j] that t(3) by auto
  have "\<forall>f j evs. tree t f = Some (j, evs) \<longrightarrow> j \<le> MAX_EVENTS \<and> active t j \<and> fd (ev_at t j) = f \<and> events (ev_at t j) = evs"
  proof (intro allI impI)
    fix f j evs assume a: "tree t f = Some (j, evs)"
    show "j \<le> MAX_EVENTS \<and> active t j \<and> fd (ev_at t j) = f \<and> events (ev_at t j) = evs"
    proof (cases "f = x")
      case True
      with a t(3) me(2,3) have "j = i" "status e = 1" "fd e = f" "events e = evs" by auto
      with at [of i] assms(2) show ?thesis by simp
    next
      case False
      with a t(3) have "tree r f = Some (j, evs)" by simp
      with inv(7) [OF this] me(1) False at [of j] show ?thesis by auto
    qed
  qed
  moreover have "\<forall>e \<in> set (g_events t). length (buf e) = BUFLEN"
    using assms(1) t(1,2) set_update_subset_insert [of "g_events r" i e] by (auto simp: loop_inv_def)
  moreover have "\<forall>j < MAX_EVENTS. active t j \<longrightarrow> ev_ok j (ev_at t j) \<and> fd (ev_at t j) \<noteq> fd (ev_at t MAX_EVENTS)"
    using at me(3) inv(3,4) ls others [of MAX_EVENTS] assms(2) by (auto split: if_splits)
  moreover have "\<forall>j \<le> MAX_EVENTS. active t j \<longrightarrow> fds (kernel t) (fd (ev_at t j)) \<noteq> None"
    using at me(3) others by auto
  moreover have "\<forall>j < MAX_EVENTS. \<forall>k < MAX_EVENTS. active t j \<longrightarrow> active t k \<longrightarrow> fd (ev_at t j) = fd (ev_at t k) \<longrightarrow> j = k"
  proof (intro allI impI, rule ccontr)
    fix j k assume "j < MAX_EVENTS" "k < MAX_EVENTS" "active t j" "active t k" "fd (ev_at t j) = fd (ev_at t k)" "j \<noteq> k"
    then show False using at [of j] at [of k] me(3) others [of j] others [of k] inv(6) [of j k] by (auto split: if_splits)
  qed
  ultimately show "loop_inv t" using t(1) inv(1,8) ls(2) by (auto simp: loop_inv_def)
qed

section \<open>The callbacks\<close>

lemma touchI:
  assumes "loop_inv r" "i < MAX_EVENTS" "active r i" "fd (ev_at r i) = f"
    "g_events t = (g_events r)[i := e]" "length (buf e) = BUFLEN" "tree t = (tree r)(f := y)"
    "\<And>g. g \<noteq> f \<Longrightarrow> fds (kernel t) g = fds (kernel r) g"
    "y = None \<or> y = Some (i, events e) \<and> status e = 1"
    "status e = 1 \<Longrightarrow> fd e = f \<and> ev_ok i e \<and> fds (kernel t) f \<noteq> None"
  shows "touch i r t"
proof -
  have "fd (ev_at r j) \<noteq> f \<and> fds (kernel t) (fd (ev_at r j)) \<noteq> None" if "j \<le> MAX_EVENTS" "j \<noteq> i" "active r j" for j
  proof -
    have "fd (ev_at r j) \<noteq> f" using fd_inj [OF assms(1), of i j] that assms(2,3,4) by auto
    then show ?thesis using loop_invD(5) [OF assms(1) that(1,3)] assms(8) by simp
  qed
  with assms(4-7,9,10) show ?thesis unfolding touch_def by blast
qed

lemma runs_table:
  assumes "i < length (g_events r)"
  shows "runs (h (ev_at r i)) R F r \<Longrightarrow> runs (bnd (get_ev i) h) R F r"
    "runs (m ()) R F (r\<lparr>g_events := (g_events r)[i := g (ev_at r i)]\<rparr>) \<Longrightarrow> runs (bnd (set_ev i g) m) R F r"
    "runs (m ()) R F (r\<lparr>g_events := (g_events r)[i := (ev_at r i)
      \<lparr>fd := f, call_back := cb, events := 0, arg := a, status := 0, last_active := clock r\<rparr>]\<rparr>) \<Longrightarrow>
     runs (bnd (eventset i f cb a) m) R F r"
    "active r i \<Longrightarrow> runs (m ()) R F (r\<lparr>g_events := (g_events r)[i := (ev_at r i)\<lparr>status := 0\<rparr>],
      tree := (tree r)(fd (ev_at r i) := None)\<rparr>) \<Longrightarrow> runs (bnd (eventdel i) m) R F r"
  using assms by (auto intro: runs_eq simp: runs_def)

text \<open>The end of both data callbacks: the record is set up again and registered for the other event.\<close>

lemma rearm_runs:
  assumes "loop_inv r" "i < MAX_EVENTS" "active r i" "fd (ev_at r i) = f"
    "g_events u = (g_events r)[i := e]" "length (buf e) = BUFLEN" "tree u = (tree r)(f := None)"
    "\<And>g. g \<noteq> f \<Longrightarrow> fds (kernel u) g = fds (kernel r) g" "fds (kernel u) f \<noteq> None"
    "cb = Cb_recvdata \<and> evs = EPOLLIN \<or> cb = Cb_senddata \<and> evs = EPOLLOUT \<and> 0 < len e \<and> len e < int BUFLEN"
  shows "runs (bnd (eventset i f cb i) (\<lambda>_. eventadd evs i)) (\<lambda>_ t. touch i r t) never u"
proof (rule runs_table(3))
  let ?e = "e\<lparr>fd := f, call_back := cb, arg := i, last_active := clock u, events := evs, status := 1\<rparr>"
  have i: "i < length (g_events r)" "i < length (g_events u)" "ev_at u i = e"
    using loop_invD(1) [OF assms(1)] assms(2,5) by auto
  then show "i < length (g_events u)" by simp
  have ok: "ev_ok i ?e" using assms(10) by (auto simp: ev_ok_def)
  show "runs (eventadd evs i) (\<lambda>_ t. touch i r t) never (u\<lparr>g_events := (g_events u)[i := (ev_at u i)
      \<lparr>fd := f, call_back := cb, events := 0, arg := i, status := 0, last_active := clock u\<rparr>]\<rparr>)"
  proof (rule eventadd_runs, goal_cases)
    case (3 t e')
    then have t: "g_events t = (g_events r)[i := ?e]" "fds (kernel t) = fds (kernel u)"
      "tree t = (tree r)(f := None) \<or> tree t = (tree r)(f := Some (i, events ?e))"
      using i assms(5,7) by auto
    from t(3) show ?case
    proof
      assume "tree t = (tree r)(f := None)"
      with t(1,2) ok assms show ?thesis by (intro touchI [where e = ?e and y = None and f = f]) auto
    next
      assume "tree t = (tree r)(f := Some (i, events ?e))"
      with t(1,2) ok assms show ?thesis by (intro touchI [where e = ?e and y = "Some (i, events ?e)" and f = f]) auto
    qed
  qed (use i in simp_all)
qed

lemma recvdata_runs:
  assumes "loop_inv r" "i < MAX_EVENTS" "active r i" "fd (ev_at r i) = f"
  shows "runs (recvdata f i) (\<lambda>_ t. touch i r t)
    (\<lambda>_. \<exists>c. fds (kernel r) f = Some c \<and> BUFLEN \<le> length (rcvq c)) r"
proof -
  have i: "i < length (g_events r)" "length (buf (ev_at r i)) = BUFLEN" "fds (kernel r) f \<noteq> None"
    using loop_invD(1) [OF assms(1)] loop_invD(2,5) [OF assms(1), of i] assms(2-4) by auto
  show ?thesis unfolding recvdata_def
  proof (rule runs_bnd_call [OF sys_read_runs], goal_cases)
    case (1 x k)
    obtain n bs where x: "x = (n, bs)" by (cases x)
    show ?case
    proof (cases "0 < n")
      case False
      with 1 x have k: "bs = []" "fds k = fds (kernel r)" by auto
      show ?thesis unfolding x prod.case
        apply (rule runs_table(2), simp add: i)
        apply (rule runs_table(4), simp add: i, simp add: i assms)
        apply (simp only: False if_False)
        apply (rule runs_table(1), simp add: i)
        apply (rule close_fd_runs, rule runs_ret)
        apply (rule touchI [OF assms, where y = None and e = "(ev_at r i)\<lparr>status := 0\<rparr>"])
             apply (simp_all add: i k assms)
        done
    next
      case True
      with 1 x obtain c where c: "fds (kernel r) f = Some c" "nat n \<le> BUFLEN" "nat n \<le> length (rcvq c)" "bs = take (nat n) (rcvq c)"
        "fds k = (fds (kernel r))(f \<mapsto> c\<lparr>rcvq := drop (nat n) (rcvq c)\<rparr>)" by auto
      show ?thesis unfolding x prod.case
        apply (rule runs_table(2), simp add: i)
        apply (rule runs_table(4), simp add: i, simp add: i assms)
        apply (simp only: True if_True)
        apply (rule runs_table(2), simp add: i)
        apply (rule runs_bnd_require)
         apply (rule runs_table(2), simp add: i)
         apply (rule runs_mono [OF rearm_runs [OF assms, where
           e = "(ev_at r i)\<lparr>status := 0, len := n, buf := (bs @ drop (length bs) (buf (ev_at r i)))[nat n := 0]\<rparr>"]])
                apply (use i c True assms in auto)
        done
    qed
  qed
qed

lemma senddata_runs:
  assumes "loop_inv r" "i < MAX_EVENTS" "active r i" "fd (ev_at r i) = f" "call_back (ev_at r i) = Cb_senddata"
  shows "runs (senddata f i) (\<lambda>_ t. touch i r t) never r"
proof -
  have i: "i < length (g_events r)" "length (buf (ev_at r i)) = BUFLEN" "fds (kernel r) f \<noteq> None"
    "0 < len (ev_at r i)" "len (ev_at r i) < int BUFLEN"
    using loop_invD(1) [OF assms(1)] loop_invD(2,3,5) [OF assms(1), of i] assms(2-5) by (auto simp: ev_ok_def)
  show ?thesis unfolding senddata_def
  proof (rule runs_table(1) [OF i(1)], rule runs_bnd_require, rule runs_bnd_call [OF sys_write_runs], goal_cases)
    case (1 n k)
    show ?case
    proof (cases "0 < n")
      case False
      with 1 have k: "fds k = fds (kernel r)" by auto
      show ?thesis
        apply (simp only: False if_False)
        apply (rule close_fd_runs)
        apply (simp add: runs_def eventdel_eq i assms)
        apply (rule touchI [OF assms(1-4), where y = None and e = "(ev_at r i)\<lparr>status := 0\<rparr>"])
             apply (simp_all add: i k assms)
        done
    next
      case True
      with 1 obtain c where c: "fds (kernel r) f = Some c"
        "fds k = (fds (kernel r))(f \<mapsto> c\<lparr>sndq := sndq c @ take (nat n) (take (nat (len (ev_at r i))) (buf (ev_at r i)))\<rparr>)" by auto
      show ?thesis
        apply (simp only: True if_True)
        apply (rule runs_table(4), simp add: i, simp add: i assms)
        apply (rule runs_mono [OF rearm_runs [OF assms(1-4), where e = "(ev_at r i)\<lparr>status := 0\<rparr>"]])
               apply (use i c True assms in auto)
        done
    qed
  qed (use i in auto)
qed

text \<open>A step that touches neither the table nor the interest list nor closes a descriptor.\<close>

lemma inv_kernel:
  assumes "loop_inv r" "g_events t = g_events r" "tree t = tree r"
    "\<And>g. fds (kernel r) g \<noteq> None \<Longrightarrow> fds (kernel t) g \<noteq> None"
  shows "loop_inv t"
  using assms by (auto simp: loop_inv_def)

lemma free_slot_free:
  assumes "loop_inv r" "free_slot r \<noteq> MAX_EVENTS"
  shows "free_slot r < MAX_EVENTS" "status (ev_at r (free_slot r)) = 0"
proof -
  let ?g = "take MAX_EVENTS (g_events r)" and ?P = "\<lambda>ev. status ev \<noteq> 0"
  have "length ?g = MAX_EVENTS" using loop_invD(1) [OF assms(1)] by simp
  then show lt: "free_slot r < MAX_EVENTS"
    using length_takeWhile_le [of ?P ?g] assms(2) by (simp add: free_slot_def)
  with nth_length_takeWhile [of ?P ?g] \<open>length ?g = MAX_EVENTS\<close> show "status (ev_at r (free_slot r)) = 0"
    by (simp add: free_slot_def)
qed

lemma register_runs:
  assumes "loop_inv r" "i < MAX_EVENTS" "status (ev_at r i) = 0" "fds (kernel r) f = None"
    "g_events u = g_events r" "tree u = tree r" "fds (kernel u) f \<noteq> None"
    "\<And>g. fds (kernel r) g \<noteq> None \<Longrightarrow> fds (kernel u) g \<noteq> None"
  shows "runs (bnd (eventset i f Cb_recvdata i) (\<lambda>_. eventadd EPOLLIN i)) (\<lambda>_ t. touch i r t) never u"
proof (rule runs_table(3))
  let ?e = "(ev_at r i)\<lparr>fd := f, call_back := Cb_recvdata, arg := i, last_active := clock u, events := EPOLLIN, status := 1\<rparr>"
  have i: "i < length (g_events r)" "i < length (g_events u)" "length (buf (ev_at r i)) = BUFLEN"
    using loop_invD(1) [OF assms(1)] loop_invD(2) [OF assms(1), of i] assms(2,5) by auto
  then show "i < length (g_events u)" by simp
  have ok: "ev_ok i ?e" by (simp add: ev_ok_def)
  have none: "tree r f = None" using loop_invD(5,7) [OF assms(1)] assms(4) by (metis not_None_eq prod.exhaust)
  have others: "fd (ev_at r j) \<noteq> f \<and> fds (kernel r) (fd (ev_at r j)) \<noteq> None" if "j \<le> MAX_EVENTS" "active r j" for j
    using loop_invD(5) [OF assms(1) that] assms(4) by auto
  show "runs (eventadd EPOLLIN i) (\<lambda>_ t. touch i r t) never (u\<lparr>g_events := (g_events u)[i := (ev_at u i)
      \<lparr>fd := f, call_back := Cb_recvdata, events := 0, arg := i, status := 0, last_active := clock u\<rparr>]\<rparr>)"
  proof (rule eventadd_runs, goal_cases)
    case (3 t e')
    then have t: "g_events t = (g_events r)[i := ?e]" "fds (kernel t) = fds (kernel u)"
      "tree t = (tree r)(f := None) \<or> tree t = (tree r)(f := Some (i, events ?e))"
      using i assms(5,6) none by (auto simp: fun_upd_idem)
    then obtain y where "tree t = (tree r)(f := y)" "y = None \<or> y = Some (i, events ?e)" by blast
    moreover have "\<forall>j \<le> MAX_EVENTS. j \<noteq> i \<longrightarrow> active r j \<longrightarrow> fd (ev_at r j) \<noteq> f \<and> fds (kernel t) (fd (ev_at r j)) \<noteq> None"
      using others assms(8) t(2) by auto
    ultimately show ?case using t(1,2) ok assms(3,7) i(3) unfolding touch_def
      by (intro exI [of _ ?e] exI [of _ f] exI [of _ y]) auto
  qed (use i assms(5) in simp_all)
qed

definition keeps_others :: "nat \<Rightarrow> reactor \<Rightarrow> reactor \<Rightarrow> bool" where
  "keeps_others i r t \<longleftrightarrow> (\<forall>f j evs. j \<noteq> i \<longrightarrow> tree r f = Some (j, evs) \<longrightarrow> tree t f = Some (j, evs))"

lemma acceptconn_runs:
  assumes "loop_inv r"
  shows "runs (acceptconn lfd) (\<lambda>_ t. loop_inv t \<and> keeps_others MAX_EVENTS r t) never r"
  unfolding acceptconn_def
proof (rule runs_bnd_call [OF sys_accept_runs], goal_cases)
  case (1 cfd k)
  have same: "loop_inv t \<and> keeps_others MAX_EVENTS r t" if "g_events t = g_events r" "tree t = tree r"
    "\<And>g. fds (kernel r) g \<noteq> None \<Longrightarrow> fds (kernel t) g \<noteq> None" for t
    using inv_kernel [OF assms that] that(2) by (simp add: keeps_others_def)
  have new: "cfd \<noteq> -1 \<Longrightarrow> fds (kernel r) cfd = None \<and> fds k cfd \<noteq> None" and
    open': "\<And>g. fds (kernel r) g \<noteq> None \<Longrightarrow> fds k g \<noteq> None"
    using 1 by (auto simp: accepted_def)
  show ?case
  proof (intro runs_if runs_bnd_gets, goal_cases)
    case 1
    show ?case by (rule runs_ret, rule same) (use open' in auto)
  next
    case 2
    show ?case by (rule runs_ret, rule same) (use open' in auto)
  next
    case 3
    show ?case
    proof (rule runs_bnd_call [OF sys_setfl_runs], goal_cases)
      case (1 flag k')
      let ?i = "free_slot r"
      have slot: "free_slot (r\<lparr>kernel := k\<rparr>) = ?i" by (simp add: free_slot_def)
      have i: "?i < MAX_EVENTS" "status (ev_at r ?i) = 0" using free_slot_free [OF assms] 3(2) slot by auto
      have k': "\<And>g. fds (kernel r) g \<noteq> None \<Longrightarrow> fds k' g \<noteq> None" "fds k' cfd \<noteq> None" "fds (kernel r) cfd = None"
        using 1 open' new 3(1) by auto
      have "runs (bnd (eventset ?i cfd Cb_recvdata ?i) (\<lambda>_. eventadd EPOLLIN ?i)) (\<lambda>_ t. touch ?i r t) never (r\<lparr>kernel := k'\<rparr>)"
        by (rule register_runs [OF assms i]) (use k' in auto)
      then have "runs (bnd (eventset ?i cfd Cb_recvdata ?i) (\<lambda>_. eventadd EPOLLIN ?i))
          (\<lambda>_ t. loop_inv t \<and> keeps_others MAX_EVENTS r t) never (r\<lparr>kernel := k'\<rparr>)"
        by (rule runs_mono)
          (use touch_inv [OF assms i(1)] loop_invD(7) [OF assms] i(2) in \<open>auto simp: keeps_others_def, metis zero_neq_one\<close>)
      moreover have "runs (ret ()) (\<lambda>_ t. loop_inv t \<and> keeps_others MAX_EVENTS r t) never (r\<lparr>kernel := k'\<rparr>)"
        by (rule runs_ret, rule same) (use k' in auto)
      ultimately show ?case by (simp add: slot runs_if)
    qed
  qed
qed

section \<open>Events and the scan\<close>

text \<open>
  An event as \<^verbatim>\<open>epoll_wait\<close> reports it: for a registered descriptor, readable or writable only
  when that was asked for.
\<close>

definition reported :: "reactor \<Rightarrow> int \<Rightarrow> nat \<times> int \<Rightarrow> bool" where
  "reported r f e \<longleftrightarrow> (case e of (i, evs) \<Rightarrow> \<exists>reg. tree r f = Some (i, reg) \<and>
     (evs AND EPOLLIN \<noteq> 0 \<longrightarrow> reg AND EPOLLIN \<noteq> 0) \<and> (evs AND EPOLLOUT \<noteq> 0 \<longrightarrow> reg AND EPOLLOUT \<noteq> 0))"

definition too_long :: "reactor \<Rightarrow> int \<Rightarrow> bool" where
  "too_long r f \<longleftrightarrow> (\<exists>c. fds (kernel r) f = Some c \<and> BUFLEN \<le> length (rcvq c))"

lemma epoll_bits [simp]: "EPOLLIN AND EPOLLOUT = 0" "EPOLLOUT AND EPOLLIN = 0" "EPOLLIN AND EPOLLIN \<noteq> 0" "EPOLLOUT AND EPOLLOUT \<noteq> 0"
  by (simp_all add: EPOLLIN_def EPOLLOUT_def)

lemma invoke_runs:
  assumes "loop_inv r" "i \<le> MAX_EVENTS" "active r i" "fd (ev_at r i) = f"
  shows "runs (invoke i) (\<lambda>_ t. loop_inv t \<and> keeps_others i r t) (\<lambda>_. too_long r f) r"
proof -
  have i: "i < length (g_events r)" using loop_invD(1) [OF assms(1)] assms(2) by simp
  have post: "runs m (\<lambda>_ t. loop_inv t \<and> keeps_others i r t) F r" if "i < MAX_EVENTS" "runs m (\<lambda>_ t. touch i r t) F r" for m :: "unit act" and F
    using runs_mono [OF that(2)] touch_inv [OF assms(1) that(1)] by (simp add: keeps_others_def)
  show ?thesis unfolding invoke_def
  proof (rule runs_table(1) [OF i], cases "i = MAX_EVENTS")
    case True
    with loop_invD(8) [OF assms(1)] have "call_back (ev_at r i) = Cb_acceptconn" by (simp add: listener_ok_def)
    then show "runs (case call_back (ev_at r i) of Cb_none \<Rightarrow> fault | Cb_acceptconn \<Rightarrow> acceptconn (fd (ev_at r i))
        | Cb_recvdata \<Rightarrow> recvdata (fd (ev_at r i)) (arg (ev_at r i)) | Cb_senddata \<Rightarrow> senddata (fd (ev_at r i)) (arg (ev_at r i)))
        (\<lambda>_ t. loop_inv t \<and> keeps_others i r t) (\<lambda>_. too_long r f) r"
      using runs_mono [OF acceptconn_runs [OF assms(1)]] True by simp
  next
    case False
    then have lt: "i < MAX_EVENTS" using assms(2) by simp
    from loop_invD(3) [OF assms(1) lt assms(3)] consider
      "arg (ev_at r i) = i" "call_back (ev_at r i) = Cb_recvdata" | "arg (ev_at r i) = i" "call_back (ev_at r i) = Cb_senddata"
      by (auto simp: ev_ok_def)
    then show "runs (case call_back (ev_at r i) of Cb_none \<Rightarrow> fault | Cb_acceptconn \<Rightarrow> acceptconn (fd (ev_at r i))
        | Cb_recvdata \<Rightarrow> recvdata (fd (ev_at r i)) (arg (ev_at r i)) | Cb_senddata \<Rightarrow> senddata (fd (ev_at r i)) (arg (ev_at r i)))
        (\<lambda>_ t. loop_inv t \<and> keeps_others i r t) (\<lambda>_. too_long r f) r"
    proof cases
      case 1
      then show ?thesis using post [OF lt recvdata_runs [OF assms(1) lt assms(3,4)]] assms(4) by (simp add: too_long_def)
    next
      case 2
      then show ?thesis using runs_mono [OF post [OF lt senddata_runs [OF assms(1) lt assms(3,4)]]] assms(4) by simp
    qed
  qed
qed

lemma dispatch_runs:
  assumes "loop_inv r" "reported r f e"
  shows "runs (dispatch e) (\<lambda>_ t. loop_inv t \<and> keeps_others (fst e) r t) (\<lambda>_. too_long r f) r"
proof -
  obtain i evs where e: "e = (i, evs)" by (cases e)
  obtain reg where reg: "tree r f = Some (i, reg)" "evs AND EPOLLIN \<noteq> 0 \<Longrightarrow> reg AND EPOLLIN \<noteq> 0"
    "evs AND EPOLLOUT \<noteq> 0 \<Longrightarrow> reg AND EPOLLOUT \<noteq> 0" using assms(2) by (auto simp: reported_def e)
  have ev: "i \<le> MAX_EVENTS" "active r i" "fd (ev_at r i) = f" "events (ev_at r i) = reg"
    using loop_invD(7) [OF assms(1) reg(1)] by auto
  have len: "i < length (g_events t)" if "loop_inv t" for t using loop_invD(1) [OF that] ev(1) by simp
  note inv = invoke_runs [OF assms(1) ev(1-3)]
  have stay: "runs (ret ()) (\<lambda>_ t. loop_inv t \<and> keeps_others i r t) F t" if "loop_inv t" "keeps_others i r t" for t F
    using that by (simp add: runs_ret)
  consider (inn) "reg = EPOLLIN" | (out) "reg = EPOLLOUT"
    using ev loop_invD(3) [OF assms(1), of i] loop_invD(8) [OF assms(1)] by (cases "i = MAX_EVENTS") (auto simp: ev_ok_def listener_ok_def)
  then show ?thesis unfolding e dispatch_def prod.case fst_conv
  proof (cases, goal_cases)
    case 1
    then have no: "\<not> (evs AND EPOLLOUT \<noteq> 0 \<and> x AND EPOLLOUT \<noteq> 0)" for x using reg(3) by auto
    show ?case
    proof (rule runs_table(1) [OF len [OF assms(1)]], rule runs_bnd [where P = "\<lambda>_ t. loop_inv t \<and> keeps_others i r t"])
      show "runs (if evs AND EPOLLIN \<noteq> 0 \<and> events (ev_at r i) AND EPOLLIN \<noteq> 0 then invoke i else ret ())
          (\<lambda>_ t. loop_inv t \<and> keeps_others i r t) (\<lambda>_. too_long r f) r"
        using inv stay [OF assms(1)] by (simp add: keeps_others_def)
    qed (auto intro!: runs_table(1) len stay simp: no)
  next
    case 2
    then have no: "\<not> (evs AND EPOLLIN \<noteq> 0 \<and> events (ev_at r i) AND EPOLLIN \<noteq> 0)" using reg(2) by auto
    show ?case
      by (rule runs_table(1) [OF len [OF assms(1)]], simp only: no if_False bnd_ret, rule runs_table(1) [OF len [OF assms(1)]])
        (use inv stay [OF assms(1)] in \<open>simp add: keeps_others_def\<close>)
  qed
qed

end
