(* ===== verification/Epoll_Correct.thy ===== *)
theory Epoll_Correct
  imports Epoll_Inv
begin

text \<open>
  What the reactor guarantees: its invariant from the start on, over any sequence of events,
  scans and activity of the network; the echo of one request; and the fate of idle
  connections.
\<close>

section \<open>From the start on\<close>

definition zero_ev :: myevent_s where
  "zero_ev = \<lparr>fd = 0, events = 0, arg = 0, call_back = Cb_none, status = 0, buf = replicate BUFLEN 0, len = 0, last_active = 0\<rparr>"

text \<open>The global variables before \<^verbatim>\<open>main\<close>, and what \<^verbatim>\<open>main\<close> does before its loop.\<close>

definition boot :: "os \<Rightarrow> int \<Rightarrow> reactor" where
  "boot k now = \<lparr>kernel = k, tree = (\<lambda>_. None), g_events = replicate (Suc MAX_EVENTS) zero_ev, clock = now, checkpos = 0\<rparr>"

inductive serve :: "reactor \<Rightarrow> reactor \<Rightarrow> bool" for x where
  s_start: "serve x x"
| s_check: "serve x r \<Longrightarrow> check_one r = (Ret (), t) \<Longrightarrow> serve x t"
| s_event: "serve x r \<Longrightarrow> reported r f e \<Longrightarrow> dispatch e r = (Ret (), t) \<Longrightarrow> serve x t"
| s_time: "serve x r \<Longrightarrow> clock r \<le> now \<Longrightarrow> serve x (r\<lparr>clock := now\<rparr>)"
| s_net: "serve x r \<Longrightarrow> (\<And>g. (fds k g = None) = (fds (kernel r) g = None)) \<Longrightarrow> serve x (r\<lparr>kernel := k\<rparr>)"

text \<open>
  The events of one batch may be handled one after the other: handling one does not change
  what was reported for the others. So a round of the main loop is a sequence of these steps.
\<close>

lemma reported_later: "reported r f e \<Longrightarrow> keeps_others i r t \<Longrightarrow> fst e \<noteq> i \<Longrightarrow> reported t f e"
  by (auto simp: reported_def keeps_others_def)

lemma check_loop_serve: "serve x r \<Longrightarrow> check_loop n r = (Ret (), t) \<Longrightarrow> serve x t"
proof (induction n arbitrary: r)
  case (Suc n)
  from Suc.prems(2) obtain u where "check_one r = (Ret (), u)" "check_loop n u = (Ret (), t)" by (auto elim!: bnd_RetE)
  with Suc show ?case by (meson serve.s_check)
qed (simp add: ret_def)

lemma dispatch_all_serve:
  assumes "serve x r" "loop_inv r" "distinct (map fst es)" "\<forall>e \<in> set es. \<exists>f. reported r f e" "dispatch_all es r = (Ret (), t)"
  shows "serve x t"
  using assms
proof (induction es arbitrary: r)
  case (Cons e es)
  from Cons.prems(5) obtain u where u: "dispatch e r = (Ret (), u)" "dispatch_all es u = (Ret (), t)" by (auto elim!: bnd_RetE)
  obtain f where f: "reported r f e" using Cons.prems(4) by auto
  from runs_Ret [OF dispatch_runs [OF Cons.prems(2) f] u(1)] have v: "loop_inv u" "keeps_others (fst e) r u" by auto
  have "\<forall>e' \<in> set es. \<exists>f. reported u f e'"
    using Cons.prems(3,4) reported_later [OF _ v(2)] by (metis (no_types, lifting) distinct.simps(2) image_eqI list.set_intros(2) list.set_map list.simps(9))
  with Cons.IH [OF serve.s_event [OF Cons.prems(1) f u(1)] v(1)] Cons.prems(3) u(2) show ?case by simp
qed (simp add: ret_def)

lemma close_fd_ret:
  assumes "sched (kernel r) \<noteq> []"
  shows "\<exists>n t. close_fd f r = (Ret n, t) \<and> fds (kernel t) = (fds (kernel r))(f := None) \<and> sched (kernel t) = tl (sched (kernel r)) \<and>
     tree t = (tree r)(f := None) \<and> g_events t = g_events r \<and> clock t = clock r \<and> checkpos t = checkpos r"
  using assms by (auto simp: close_fd_def call_def bnd_def prog_basics sys_defs neq_Nil_conv fun_upd_idem split: answer.splits)

text \<open>One step of the scan, for a kernel that answers.\<close>

definition scanned :: "reactor \<Rightarrow> nat" where
  "scanned r = (if checkpos r = MAX_EVENTS then 0 else checkpos r)"

definition idle :: "reactor \<Rightarrow> nat \<Rightarrow> bool" where
  "idle r j \<longleftrightarrow> active r j \<and> 60 \<le> clock r - last_active (ev_at r j)"

lemma check_one_ok:
  assumes "loop_inv r" "checkpos r \<le> MAX_EVENTS" "sched (kernel r) \<noteq> [] \<or> \<not> idle r (scanned r)"
  shows "\<exists>t. check_one r = (Ret (), t) \<and> loop_inv t \<and> checkpos t = Suc (scanned r) \<and> clock t = clock r \<and>
     length (sched (kernel r)) \<le> Suc (length (sched (kernel t))) \<and> \<not> idle t (scanned r) \<and>
     (\<forall>j. (j \<noteq> scanned r \<or> \<not> idle r j) \<longrightarrow> ev_at t j = ev_at r j) \<and>
     (\<forall>j \<le> MAX_EVENTS. \<not> idle r j \<and> active r j \<longrightarrow> fds (kernel t) (fd (ev_at r j)) = fds (kernel r) (fd (ev_at r j)))"
proof -
  let ?c = "scanned r"
  have c: "?c < MAX_EVENTS" "?c < length (g_events r)"
    using assms(2) loop_invD(1) [OF assms(1)] by (auto simp: scanned_def MAX_EVENTS_def)
  show ?thesis
  proof (cases "idle r ?c")
    case False
    then have "check_one r = (Ret (), r\<lparr>checkpos := Suc ?c\<rparr>)"
      using c by (auto simp: check_one_def idle_def bnd_def prog_basics get_ev_def scanned_def)
    moreover have "loop_inv (r\<lparr>checkpos := Suc ?c\<rparr>)" by (rule inv_kernel [OF assms(1)]) simp_all
    ultimately show ?thesis using False by (auto simp: idle_def)
  next
    case True
    let ?f = "fd (ev_at r ?c)"
    obtain n u where u: "close_fd ?f r = (Ret n, u)" "fds (kernel u) = (fds (kernel r))(?f := None)"
      "sched (kernel u) = tl (sched (kernel r))" "tree u = (tree r)(?f := None)" "g_events u = g_events r" "clock u = clock r"
      using close_fd_ret [of r] assms(3) True by blast
    let ?e = "(ev_at r ?c)\<lparr>status := 0\<rparr>"
    let ?t = "u\<lparr>g_events := (g_events r)[?c := ?e], checkpos := Suc ?c\<rparr>"
    have act: "active r ?c" using True by (simp add: idle_def)
    have "eventdel ?c u = (Ret (), u\<lparr>g_events := (g_events r)[?c := ?e]\<rparr>)"
      using c act u(4,5) by (simp add: eventdel_eq fun_upd_idem)
    then have "check_one r = (Ret (), ?t)"
      using True c u(1) by (simp add: check_one_def idle_def bnd_def prog_basics get_ev_def scanned_def)
    moreover have "touch ?c r ?t"
      by (rule touchI [OF assms(1) c(1) act HOL.refl, where e = ?e and y = None])
        (use u c loop_invD(2) [OF assms(1), of ?c] in auto)
    then have "loop_inv ?t" using touch_inv(1) [OF assms(1) c(1)] by simp
    moreover have "fd (ev_at r j) \<noteq> ?f" if "j \<le> MAX_EVENTS" "\<not> idle r j" "active r j" for j
      using fd_inj [OF assms(1), of j ?c] that c(1) act True by auto
    ultimately show ?thesis using u c True by (intro exI [of _ ?t]) (auto simp: idle_def nth_list_update)
  qed
qed

lemma check_loop_ok:
  assumes "loop_inv r" "checkpos r \<le> MAX_EVENTS" "n \<le> length (sched (kernel r))"
  shows "\<exists>t. check_loop n r = (Ret (), t) \<and> loop_inv t \<and> clock t = clock r \<and>
     (\<forall>k < n. \<not> idle t ((checkpos r + k) mod MAX_EVENTS)) \<and> (\<forall>j. \<not> idle r j \<longrightarrow> ev_at t j = ev_at r j) \<and>
     (\<forall>j \<le> MAX_EVENTS. \<not> idle r j \<and> active r j \<longrightarrow> fds (kernel t) (fd (ev_at r j)) = fds (kernel r) (fd (ev_at r j)))"
  using assms
proof (induction n arbitrary: r)
  case 0
  then show ?case by (auto simp: ret_def)
next
  case (Suc n)
  have "sched (kernel r) \<noteq> [] \<or> \<not> idle r (scanned r)" using Suc.prems(3) by auto
  from check_one_ok [OF Suc.prems(1,2) this] obtain u where
    u: "check_one r = (Ret (), u)" "loop_inv u" "checkpos u = Suc (scanned r)" "clock u = clock r"
      "length (sched (kernel r)) \<le> Suc (length (sched (kernel u)))" "\<not> idle u (scanned r)"
      "\<And>j. j \<noteq> scanned r \<or> \<not> idle r j \<Longrightarrow> ev_at u j = ev_at r j"
      "\<And>j. j \<le> MAX_EVENTS \<Longrightarrow> \<not> idle r j \<Longrightarrow> active r j \<Longrightarrow> fds (kernel u) (fd (ev_at r j)) = fds (kernel r) (fd (ev_at r j))"
    by blast
  have pos: "scanned r = checkpos r mod MAX_EVENTS" "scanned r < MAX_EVENTS"
    using Suc.prems(2) by (auto simp: scanned_def MAX_EVENTS_def)
  have "checkpos u \<le> MAX_EVENTS" "n \<le> length (sched (kernel u))" using u(3,5) pos(2) Suc.prems(3) by auto
  from Suc.IH [OF u(2) this] obtain t where
    t: "check_loop n u = (Ret (), t)" "loop_inv t" "clock t = clock u"
      "\<And>k. k < n \<Longrightarrow> \<not> idle t ((checkpos u + k) mod MAX_EVENTS)" "\<And>j. \<not> idle u j \<Longrightarrow> ev_at t j = ev_at u j"
      "\<And>j. j \<le> MAX_EVENTS \<Longrightarrow> \<not> idle u j \<Longrightarrow> active u j \<Longrightarrow> fds (kernel t) (fd (ev_at u j)) = fds (kernel u) (fd (ev_at u j))"
    by blast
  have same: "ev_at u j = ev_at r j" if "\<not> idle r j" for j using u(7) that by blast
  then have keep: "\<not> idle u j" if "\<not> idle r j" for j using that u(4) by (simp add: idle_def)
  have "\<not> idle t ((checkpos r + k) mod MAX_EVENTS)" if "k < Suc n" for k
  proof (cases k)
    case 0
    then show ?thesis using t(3,5) u(6) pos(1) by (simp add: idle_def)
  next
    case (Suc k')
    have "(checkpos r + k) mod MAX_EVENTS = (checkpos u + k') mod MAX_EVENTS"
      by (simp only: Suc u(3) pos(1) add_Suc_shift mod_add_left_eq)
    then show ?thesis using t(4) [of k'] that Suc by simp
  qed
  moreover have "ev_at t j = ev_at r j" if "\<not> idle r j" for j
    using t(5) [OF keep [OF that]] same [OF that] by simp
  moreover have "fds (kernel t) (fd (ev_at r j)) = fds (kernel r) (fd (ev_at r j))"
    if "j \<le> MAX_EVENTS" "\<not> idle r j" "active r j" for j
    using t(6) [OF that(1) keep [OF that(2)]] u(8) [OF that] same [OF that(2)] that(3) by simp
  ultimately show ?case using t(1-3) u(1,4) by (intro exI [of _ t]) simp
qed

section \<open>The echo\<close>

text \<open>What the two data callbacks do with the bytes, when the connection survives them.\<close>

lemma rearm_bytes:
  assumes "i < length (g_events u)"
  shows "runs (bnd (eventset i f cb i) (\<lambda>_. eventadd evs i)) (\<lambda>_ t. fds (kernel t) = fds (kernel u) \<and>
    len (ev_at t i) = len (ev_at u i) \<and> buf (ev_at t i) = buf (ev_at u i)) never u"
  by (rule runs_table(3) [OF assms], rule eventadd_runs) (use assms in auto)

lemma recvdata_bytes:
  assumes "loop_inv r" "i < MAX_EVENTS" "active r i" "fd (ev_at r i) = f"
  shows "runs (recvdata f i) (\<lambda>_ t. active t i \<longrightarrow> (\<exists>c n. fds (kernel r) f = Some c \<and> 0 < n \<and> n < BUFLEN \<and> n \<le> length (rcvq c) \<and>
      fds (kernel t) f = Some (c\<lparr>rcvq := drop n (rcvq c)\<rparr>) \<and> len (ev_at t i) = int n \<and>
      take n (buf (ev_at t i)) = take n (rcvq c))) (\<lambda>_. True) r"
proof -
  have i: "i < length (g_events r)" "length (buf (ev_at r i)) = BUFLEN"
    using loop_invD(1) [OF assms(1)] loop_invD(2) [OF assms(1), of i] assms(2) by auto
  show ?thesis unfolding recvdata_def
  proof (rule runs_bnd_call [OF sys_read_runs], goal_cases)
    case (1 x k)
    obtain n bs where x: "x = (n, bs)" by (cases x)
    show ?case
    proof (cases "0 < n")
      case False
      with 1 x have k: "bs = []" by auto
      show ?thesis unfolding x prod.case
        apply (rule runs_table(2), simp add: i)
        apply (rule runs_table(4), simp add: i, simp add: i assms)
        apply (simp only: False if_False)
        apply (rule runs_table(1), simp add: i)
        apply (rule close_fd_runs, rule runs_ret)
        apply (simp add: i)
        done
    next
      case True
      with 1 x obtain c where c: "fds (kernel r) f = Some c" "nat n \<le> BUFLEN" "nat n \<le> length (rcvq c)" "bs = take (nat n) (rcvq c)"
        "fds k = (fds (kernel r))(f \<mapsto> c\<lparr>rcvq := drop (nat n) (rcvq c)\<rparr>)" by auto
      show ?thesis unfolding x prod.case
        apply (rule runs_table(2), simp add: i)
        apply (rule runs_table(4), simp add: i, simp add: i assms)
        apply (simp only: True if_True)
        apply (rule runs_table(2), simp add: i)
        apply (rule runs_bnd_require)
         apply (rule runs_table(2), simp add: i)
         apply (rule runs_mono [OF rearm_bytes])
           apply (simp add: i)
          apply (rule impI, rule exI [of _ c], rule exI [of _ "nat n"])
          apply (use i(1) c True in \<open>simp add: take_update_cancel\<close>)
         apply simp_all
        done
    qed
  qed
qed

lemma senddata_bytes:
  assumes "loop_inv r" "i < MAX_EVENTS" "active r i" "fd (ev_at r i) = f"
  shows "runs (senddata f i) (\<lambda>_ t. active t i \<longrightarrow> (\<exists>c m. fds (kernel r) f = Some c \<and> 0 < m \<and> int m \<le> len (ev_at r i) \<and>
      fds (kernel t) f = Some (c\<lparr>sndq := sndq c @ take m (buf (ev_at r i))\<rparr>))) (\<lambda>_. True) r"
proof -
  have i: "i < length (g_events r)" using loop_invD(1) [OF assms(1)] assms(2) by auto
  show ?thesis unfolding senddata_def
  proof (rule runs_table(1) [OF i(1)], rule runs_bnd_require, rule runs_bnd_call [OF sys_write_runs], goal_cases)
    case (1 n k)
    show ?case
    proof (cases "0 < n")
      case False
      show ?thesis
        apply (simp only: False if_False)
        apply (rule close_fd_runs)
        apply (simp add: runs_def eventdel_eq i assms)
        done
    next
      case True
      with 1 obtain c where c: "fds (kernel r) f = Some c" "nat n \<le> length (take (nat (len (ev_at r i))) (buf (ev_at r i)))"
        "fds k = (fds (kernel r))(f \<mapsto> c\<lparr>sndq := sndq c @ take (nat n) (take (nat (len (ev_at r i))) (buf (ev_at r i)))\<rparr>)" by auto
      have le: "nat n \<le> nat (len (ev_at r i))" "n \<le> len (ev_at r i)" using c(2) True by auto
      have k: "fds k = (fds (kernel r))(f \<mapsto> c\<lparr>sndq := sndq c @ take (nat n) (buf (ev_at r i))\<rparr>)"
        using c(3) le(1) by (simp add: min_absorb1)
      show ?thesis
        apply (simp only: True if_True)
        apply (rule runs_table(4), simp add: i, simp add: i assms)
        apply (rule runs_mono [OF rearm_bytes])
          apply (simp add: i)
         apply (rule impI, rule exI [of _ c], rule exI [of _ "nat n"])
         apply (use c(1) k le True in simp)
        apply simp
        done
    qed
  qed simp
qed

section \<open>Start of the server\<close>

lemma sys_any_runs:
  "runs sys_socket (\<lambda>_ _. True) never s" "runs (sys_fcntl_setfl f v) (\<lambda>_ k. \<forall>g. (fds k g = None) = (fds s g = None)) never s"
  "runs (sys_bind f a p) (\<lambda>_ k. \<forall>g. (fds k g = None) = (fds s g = None)) never s"
  "runs (sys_listen f) (\<lambda>_ k. \<forall>g. (fds k g = None) = (fds s g = None)) never s"
  by (auto simp: runs_def sys_defs split: sys_splits)

definition listening_up :: "int \<Rightarrow> reactor \<Rightarrow> bool" where
  "listening_up lfd r \<longleftrightarrow> (\<exists>e. g_events r = (replicate (Suc MAX_EVENTS) zero_ev)[MAX_EVENTS := e] \<and> listener_ok e \<and> fd e = lfd \<and>
     length (buf e) = BUFLEN \<and> (tree r = (\<lambda>_. None) \<or> tree r = [lfd \<mapsto> (MAX_EVENTS, EPOLLIN)]))"

lemma listening_up_inv:
  assumes "listening_up lfd r" "fds (kernel r) (fd (ev_at r MAX_EVENTS)) \<noteq> None"
  shows "loop_inv r"
proof -
  from assms(1) obtain e where e: "g_events r = (replicate (Suc MAX_EVENTS) zero_ev)[MAX_EVENTS := e]" "listener_ok e" "fd e = lfd"
    "length (buf e) = BUFLEN" "tree r = (\<lambda>_. None) \<or> tree r = [lfd \<mapsto> (MAX_EVENTS, EPOLLIN)]" by (auto simp: listening_up_def)
  have at: "ev_at r MAX_EVENTS = e" "\<And>i. i < MAX_EVENTS \<Longrightarrow> ev_at r i = zero_ev"
    by (simp_all add: e(1) nth_list_update del: replicate_Suc)
  have st: "status e = 1" "events e = EPOLLIN" "status zero_ev = 0" "length (buf zero_ev) = BUFLEN"
    using e(2) by (auto simp: listener_ok_def zero_ev_def)
  have act: "i = MAX_EVENTS" if "i \<le> MAX_EVENTS" "active r i" for i
    using at(2) [of i] that st(3) by (cases "i = MAX_EVENTS") auto
  have "\<forall>e' \<in> set (g_events r). length (buf e') = BUFLEN"
    using set_update_subset_insert [of "replicate (Suc MAX_EVENTS) zero_ev" MAX_EVENTS e] e(1,4) st(4) by auto
  moreover have "\<forall>f i evs. tree r f = Some (i, evs) \<longrightarrow> i \<le> MAX_EVENTS \<and> active r i \<and> fd (ev_at r i) = f \<and> events (ev_at r i) = evs"
    using e(3,5) at(1) st by (auto split: if_splits)
  moreover have "length (g_events r) = Suc MAX_EVENTS" by (simp add: e(1) del: replicate_Suc)
  moreover have "\<forall>i < MAX_EVENTS. \<not> active r i" using at(2) st(3) by simp
  moreover have "\<forall>i \<le> MAX_EVENTS. active r i \<longrightarrow> fds (kernel r) (fd (ev_at r i)) \<noteq> None" using act assms(2) by blast
  ultimately show ?thesis unfolding loop_inv_def using e(2) at(1) by blast
qed

lemma initlistensocket_runs:
  "runs (initlistensocket port) (\<lambda>_ r. \<exists>lfd. listening_up lfd r) never (boot k now)"
proof -
  have len: "MAX_EVENTS < length (g_events (boot k now))" by (simp add: boot_def)
  have calm: "runs (bnd (call (m :: int call)) h) R F r" if "\<And>s. runs m (\<lambda>_ _. True) never s" "\<And>n k. runs (h n) R F (r\<lparr>kernel := k\<rparr>)"
    for m h R F r by (rule runs_bnd_call [OF that(1)]) (rule that(2))
  have any: "runs (sys_fcntl_setfl f v) (\<lambda>_ _. True) never s" "runs (sys_bind f a p) (\<lambda>_ _. True) never s"
    "runs (sys_listen f) (\<lambda>_ _. True) never s" for f v a p s
    by (rule runs_mono [OF sys_any_runs(2)], simp_all, rule runs_mono [OF sys_any_runs(3)], simp_all,
        rule runs_mono [OF sys_any_runs(4)], simp_all)
  have rest: "runs (bnd (gets (\<lambda>r. htons (le (kernel r)) port)) (\<lambda>p. bnd (call (sys_bind lfd INADDR_ANY p)) (\<lambda>_.
      bnd (call (sys_listen lfd)) (\<lambda>_. ret ())))) (\<lambda>_ r. \<exists>lfd. listening_up lfd r) never r" if "listening_up lfd' r" for lfd lfd' r
    by (rule runs_bnd_gets, intro calm any runs_ret exI [of _ lfd']) (use that in \<open>simp add: listening_up_def\<close>)
  show ?thesis unfolding initlistensocket_def
  proof (intro calm sys_any_runs(1) any runs_table(3), goal_cases)
    case 1
    then show ?case using len by simp
  next
    case (2 lfd k1 n k2)
    show ?case
    proof (rule runs_bnd [OF eventadd_runs [where R = "\<lambda>_ t. listening_up lfd t"]], goal_cases)
      case (3 t e)
      then show ?case using len
        by (auto simp: listening_up_def boot_def listener_ok_def zero_ev_def simp del: replicate_Suc intro!: exI [of _ e])
    next
      case (4 a t)
      then show ?case by (rule rest)
    qed (use len in simp_all)
  qed
qed

lemma keeps_call: "keeps checkpos (call m)"
  by (auto simp: keeps_def call_def split: prod.splits)

lemma keeps_table: "keeps checkpos (get_ev i)" "keeps checkpos (set_ev i h)" "keeps checkpos (epoll_mod f i evs)"
  "keeps checkpos (epoll_del f)" "keeps checkpos (epoll_add f i evs)" "keeps checkpos (close_fd f)"
  by (auto simp: keeps_def get_ev_def set_ev_def epoll_add_def close_fd_def epoll_mod_def epoll_del_def call_def bnd_def prog_basics
      split: prod.splits res.splits if_splits)

lemma keeps_events: "keeps checkpos (eventset i f cb a)" "keeps checkpos (eventadd evs i)" "keeps checkpos (eventdel i)"
  unfolding eventset_def eventadd_def eventdel_def by (intro keeps_intros keeps_table)+

lemma keeps_dispatch: "keeps checkpos (dispatch e)"
proof -
  have "keeps checkpos (acceptconn f)" "keeps checkpos (recvdata f i)" "keeps checkpos (senddata f i)" for f i
    unfolding acceptconn_def recvdata_def senddata_def
    by (auto intro!: keeps_intros keeps_table keeps_events keeps_call)
  then have "keeps checkpos (invoke i)" for i
    unfolding invoke_def by (auto intro!: keeps_intros keeps_table split: callback.splits)
  then show ?thesis unfolding dispatch_def by (cases e) (auto intro!: keeps_intros keeps_table)
qed

lemma serve_inv: "serve x r \<Longrightarrow> loop_inv x \<Longrightarrow> checkpos x \<le> MAX_EVENTS \<Longrightarrow> loop_inv r \<and> checkpos r \<le> MAX_EVENTS"
proof (induction rule: serve.induct)
  case (s_check r t)
  then have r: "loop_inv r" "checkpos r \<le> MAX_EVENTS" by auto
  have "scanned r < MAX_EVENTS" "scanned r < length (g_events r)"
    using r(2) loop_invD(1) [OF r(1)] by (auto simp: scanned_def MAX_EVENTS_def)
  have "sched (kernel r) \<noteq> [] \<or> \<not> idle r (scanned r)"
  proof (rule ccontr)
    assume "\<not> ?thesis"
    then have "check_one r = (Block, r)" using \<open>scanned r < length (g_events r)\<close>
      by (simp add: check_one_def idle_def scanned_def bnd_def prog_basics get_ev_def close_fd_def call_def sys_close_def syscall_def)
    with s_check(2) show False by simp
  qed
  from check_one_ok [OF r this] s_check(2) \<open>scanned r < MAX_EVENTS\<close> show ?case by auto
next
  case (s_event r f e t)
  then have "loop_inv r" by auto
  from runs_Ret [OF dispatch_runs [OF this s_event(2)] s_event(3)] keepsD [OF keeps_dispatch s_event(3)] s_event show ?case by simp
next
  case (s_time r now)
  then show ?case using inv_kernel [of r "r\<lparr>clock := now\<rparr>"] by simp
next
  case (s_net r k)
  then show ?case using inv_kernel [of r "r\<lparr>kernel := k\<rparr>"] by simp
qed simp

lemma initlistensocket_checkpos: "keeps checkpos (initlistensocket port)"
  unfolding initlistensocket_def by (intro keeps_intros keeps_events keeps_call)

section \<open>An example\<close>

text \<open>
  An example: the listening socket becomes descriptor 4, the first client descriptor 7, and its
  two bytes are read and sent back.
\<close>

definition demo_server :: "os" where
  "demo_server = demo_os [ok 4, ok 0, ok 0, ok 0, ok 0, Ok 7 [104, 105] True, ok 0, ok 0, ok 10, ok 0, ok 10, ok 0] []"

lemma free_slot_zero: "g_events r \<noteq> [] \<Longrightarrow> status (ev_at r 0) = 0 \<Longrightarrow> free_slot r = 0"
  by (cases "g_events r") (simp_all add: free_slot_def MAX_EVENTS_def)

lemma MAX_pos [simp]: "0 < MAX_EVENTS" "MAX_EVENTS \<noteq> 0"
  by (simp_all add: MAX_EVENTS_def)

lemma demo_run:
  "\<exists>r s u t. initlistensocket 8080 (boot demo_server 0) = (Ret (), r) \<and> fds (kernel r) (fd (ev_at r MAX_EVENTS)) \<noteq> None \<and>
     reported r 4 (MAX_EVENTS, EPOLLIN) \<and> dispatch (MAX_EVENTS, EPOLLIN) r = (Ret (), s) \<and> active s 0 \<and> fd (ev_at s 0) = 7 \<and>
     last_active (ev_at s 0) = 0 \<and> checkpos s = 0 \<and> sched (kernel s) \<noteq> [] \<and>
     recvdata 7 0 s = (Ret (), u) \<and> active u 0 \<and> senddata 7 0 u = (Ret (), t) \<and> active t 0"
  apply (simp add: initlistensocket_def boot_def demo_server_def demo_os_def call_def bnd_def prog_basics sys_defs eventset_def eventadd_def
      set_ev_def get_ev_def epoll_add_def reported_def zero_ev_def del: replicate_Suc)
  apply (simp add: dispatch_def invoke_def acceptconn_def free_slot_zero call_def bnd_def prog_basics sys_defs eventset_def eventadd_def
      set_ev_def get_ev_def epoll_add_def new_sock_def nth_list_update EPOLLIN_def EPOLLOUT_def del: replicate_Suc)
  apply (simp add: recvdata_def BUFLEN_def call_def bnd_def prog_basics sys_defs eventset_def eventadd_def eventdel_def epoll_del_def
      set_ev_def get_ev_def epoll_add_def nth_list_update del: replicate_Suc)
  apply (simp add: senddata_def call_def bnd_def prog_basics sys_defs eventset_def eventadd_def eventdel_def epoll_del_def
      set_ev_def get_ev_def epoll_add_def nth_list_update del: replicate_Suc)
  done

section \<open>Properties\<close>

text \<open>
  C12: Once the listening socket is set up, the reactor keeps its invariant over any sequence
  of events, scans, and activity of the network: every registered descriptor is open and
  registered with the one live record that holds it, no two live records share a descriptor,
  and every record's callback is the one for the event it waits for, so that an event never
  reaches the data of another connection or a null callback.
\<close>

theorem reactor_invariant:
  assumes "initlistensocket port (boot k now) = (Ret (), r)" "fds (kernel r) (fd (g_events r ! MAX_EVENTS)) \<noteq> None" "serve r s"
  shows "loop_inv s"
proof -
  obtain lfd where "listening_up lfd r" using runs_Ret [OF initlistensocket_runs assms(1)] by blast
  moreover have "checkpos r = 0" using keepsD [OF initlistensocket_checkpos assms(1)] by (simp add: boot_def)
  ultimately show ?thesis using serve_inv [OF assms(3)] listening_up_inv assms(2) by simp
qed

theorem reactor_invariant_witness:
  "\<exists>r s. initlistensocket 8080 (boot demo_server 0) = (Ret (), r) \<and> serve r s \<and> status (g_events s ! 0) = 1 \<and> loop_inv s"
proof -
  obtain r s where r: "initlistensocket 8080 (boot demo_server 0) = (Ret (), r)" "fds (kernel r) (fd (ev_at r MAX_EVENTS)) \<noteq> None"
    "reported r 4 (MAX_EVENTS, EPOLLIN)" "dispatch (MAX_EVENTS, EPOLLIN) r = (Ret (), s)" "active s 0"
    using demo_run by blast
  have "serve r s" by (rule serve.s_event [OF serve.s_start r(3,4)])
  with reactor_invariant [OF r(1,2) this] r show ?thesis by blast
qed

lemma demo_connected:
  "\<exists>s u t. loop_inv s \<and> active s 0 \<and> fd (ev_at s 0) = 7 \<and> last_active (ev_at s 0) = 0 \<and> checkpos s = 0 \<and> sched (kernel s) \<noteq> [] \<and>
     recvdata 7 0 s = (Ret (), u) \<and> active u 0 \<and> senddata 7 0 u = (Ret (), t) \<and> active t 0"
proof -
  obtain r s u t where r: "initlistensocket 8080 (boot demo_server 0) = (Ret (), r)" "fds (kernel r) (fd (ev_at r MAX_EVENTS)) \<noteq> None"
    "reported r 4 (MAX_EVENTS, EPOLLIN)" "dispatch (MAX_EVENTS, EPOLLIN) r = (Ret (), s)" and
    s: "active s 0" "fd (ev_at s 0) = 7" "last_active (ev_at s 0) = 0" "checkpos s = 0" "sched (kernel s) \<noteq> []"
     "recvdata 7 0 s = (Ret (), u)" "active u 0" "senddata 7 0 u = (Ret (), t)" "active t 0"
    using demo_run by blast
  obtain lfd where "listening_up lfd r" using runs_Ret [OF initlistensocket_runs r(1)] by blast
  then have "loop_inv r" using listening_up_inv r(2) by blast
  from runs_Ret [OF dispatch_runs [OF this r(3)] r(4)] s show ?thesis by blast
qed

text \<open>
  An event for a registered descriptor is handled without undefined behaviour, keeps the
  invariant, and leaves the registrations of all other records alone. The one exception is a
  connection with at least 4096 bytes waiting: \<^verbatim>\<open>recvdata\<close> may then write its terminating zero
  behind the buffer.
\<close>

theorem dispatch_safe:
  assumes "loop_inv r" "reported r f e"
  shows "case dispatch e r of
      (Ret _, t) \<Rightarrow> loop_inv t \<and> keeps_others (fst e) r t
    | (Exit c, t) \<Rightarrow> False | (Block, t) \<Rightarrow> True
    | (Fault, t) \<Rightarrow> (\<exists>c. fds (kernel r) f = Some c \<and> BUFLEN \<le> length (rcvq c))"
  using dispatch_runs [OF assms] by (auto simp: runs_def too_long_def split: prod.splits res.splits)

theorem dispatch_safe_witness:
  "\<exists>r. loop_inv r \<and> reported r 4 (MAX_EVENTS, EPOLLIN) \<and> (case dispatch (MAX_EVENTS, EPOLLIN) r of
      (Ret _, t) \<Rightarrow> loop_inv t \<and> keeps_others (fst (MAX_EVENTS, EPOLLIN)) r t
    | (Exit c, t) \<Rightarrow> False | (Block, t) \<Rightarrow> True
    | (Fault, t) \<Rightarrow> (\<exists>c. fds (kernel r) 4 = Some c \<and> BUFLEN \<le> length (rcvq c)))"
proof -
  obtain r where r: "initlistensocket 8080 (boot demo_server 0) = (Ret (), r)" "fds (kernel r) (fd (ev_at r MAX_EVENTS)) \<noteq> None"
    "reported r 4 (MAX_EVENTS, EPOLLIN)" using demo_run by blast
  obtain lfd where "listening_up lfd r" using runs_Ret [OF initlistensocket_runs r(1)] by blast
  then have inv: "loop_inv r" using listening_up_inv r(2) by blast
  show ?thesis by (intro exI [of _ r] conjI inv r(3) dispatch_safe [OF inv r(3)])
qed

text \<open>
  The echo: when a connection survives \<^verbatim>\<open>recvdata\<close> and the \<^verbatim>\<open>senddata\<close> that follows, the
  bytes sent are a non-empty prefix of the bytes read, appended to what was sent before. They
  are all of them only if \<^verbatim>\<open>send\<close> takes them all: the rest is not sent again.
\<close>

theorem echo_round:
  assumes "loop_inv r" "i < MAX_EVENTS" "status (g_events r ! i) = 1" "fd (g_events r ! i) = f"
    "recvdata f i r = (Ret (), u)" "status (g_events u ! i) = 1" "senddata f i u = (Ret (), t)" "status (g_events t ! i) = 1"
  shows "\<exists>c n m. fds (kernel r) f = Some c \<and> 0 < m \<and> m \<le> n \<and> n < BUFLEN \<and> n \<le> length (rcvq c) \<and>
    fds (kernel t) f = Some (c\<lparr>rcvq := drop n (rcvq c), sndq := sndq c @ take m (rcvq c)\<rparr>)"
proof -
  from runs_Ret [OF recvdata_bytes [OF assms(1-4)] assms(5)] assms(6) obtain c n where
    u: "fds (kernel r) f = Some c" "0 < n" "n < BUFLEN" "n \<le> length (rcvq c)" "fds (kernel u) f = Some (c\<lparr>rcvq := drop n (rcvq c)\<rparr>)"
      "len (ev_at u i) = int n" "take n (buf (ev_at u i)) = take n (rcvq c)" by blast
  have inv: "loop_inv u"
    using touch_inv(1) [OF assms(1,2)] runs_Ret [OF recvdata_runs [OF assms(1-4)] assms(5)] by simp
  have f: "fd (ev_at u i) = f"
    using runs_Ret [OF recvdata_runs [OF assms(1-4)] assms(5)] assms(2,3,4,6) loop_invD(1) [OF assms(1)] by (auto simp: touch_def)
  from runs_Ret [OF senddata_bytes [OF inv assms(2,6) f] assms(7)] assms(8) u(5,6) obtain m where
    m: "0 < m" "m \<le> n" "fds (kernel t) f = Some (c\<lparr>rcvq := drop n (rcvq c), sndq := sndq c @ take m (buf (ev_at u i))\<rparr>)" by auto
  moreover have "take m (buf (ev_at u i)) = take m (rcvq c)"
    using arg_cong [OF u(7), of "take m"] m(2) by (simp add: min_absorb1)
  ultimately show ?thesis using u(1,3,4) by auto
qed

theorem echo_round_witness:
  "\<exists>(r :: reactor) (t :: reactor) c n m. fds (kernel r) 7 = Some c \<and> 0 < m \<and> m \<le> n \<and> n < BUFLEN \<and> n \<le> length (rcvq c) \<and>
    fds (kernel t) 7 = Some (c\<lparr>rcvq := drop n (rcvq c), sndq := sndq c @ take m (rcvq c)\<rparr>)"
proof -
  obtain s u t where s: "loop_inv s" "active s 0" "fd (ev_at s 0) = 7" "recvdata 7 0 s = (Ret (), u)" "active u 0"
    "senddata 7 0 u = (Ret (), t)" "active t 0" using demo_connected by blast
  show ?thesis by (rule exI [of _ s], rule exI [of _ t], rule echo_round [OF s(1) MAX_pos(1) s(2-7)])
qed


lemma ret_weaken:
  "(case m of (Ret _, t) \<Rightarrow> P t | _ \<Rightarrow> False) \<Longrightarrow> (\<And>t. P t \<Longrightarrow> Q t) \<Longrightarrow> (case m of (Ret _, t) \<Rightarrow> Q t | _ \<Rightarrow> False)"
  by (auto split: prod.splits res.splits)


end
