(* ===== verification/Epoll_Main.thy ===== *)
theory Epoll_Main
  imports Epoll_Correct
begin

text \<open>
  \<^verbatim>\<open>main\<close> of \<^verbatim>\<open>epoll_loop.c\<close> as a whole: its start, with the port from the command line, and the rounds
  of its loop, each a scan for idle connections followed by a batch of events.
\<close>

section \<open>The program\<close>

text \<open>
  \<open>port\<close> is the value of \<^verbatim>\<open>atoi(argv[1])\<close> when there is one argument. A failed \<^verbatim>\<open>epoll_create\<close> is
  only printed; then nothing can be registered, and \<^verbatim>\<open>epoll_wait\<close> fails in the first round.
\<close>

definition SERV_PORT :: int where "SERV_PORT = 8080"

definition main_start :: "int option \<Rightarrow> unit act" where
  "main_start port =
     bnd (call (syscall (ret (-1 :: int)) (\<lambda>_ _ _. ret 0))) (\<lambda>_.
     initlistensocket (word_of_int (case port of None \<Rightarrow> SERV_PORT | Some n \<Rightarrow> n)))"

text \<open>\<open>nfd\<close> is what \<^verbatim>\<open>epoll_wait\<close> returns, \<open>ready\<close> what it stores; a failure ends the program.\<close>

definition reactor_round :: "int \<Rightarrow> (nat \<times> int) list \<Rightarrow> unit act" where
  "reactor_round nfd ready =
     bnd (check_loop 100) (\<lambda>_. if nfd < 0 then exit_with 0 else dispatch_all (take (nat nfd) ready))"

section \<open>A round\<close>

lemma check_one_runs:
  assumes "loop_inv r" "checkpos r \<le> MAX_EVENTS"
  shows "runs check_one (\<lambda>_ t. loop_inv t \<and> checkpos t \<le> MAX_EVENTS) never r"
proof (cases "sched (kernel r) \<noteq> [] \<or> \<not> idle r (scanned r)")
  case True
  moreover have "scanned r < MAX_EVENTS" using assms(2) by (simp add: scanned_def)
  ultimately show ?thesis using check_one_ok [OF assms True] by (auto simp: runs_def)
next
  case False
  moreover have "scanned r < length (g_events r)"
    using assms(2) loop_invD(1) [OF assms(1)] by (simp add: scanned_def)
  ultimately have "check_one r = (Block, r)"
    by (simp add: check_one_def idle_def scanned_def bnd_def prog_basics get_ev_def close_fd_def call_def sys_close_def syscall_def)
  then show ?thesis by (simp add: runs_def)
qed

lemma check_loop_runs:
  "loop_inv r \<Longrightarrow> checkpos r \<le> MAX_EVENTS \<Longrightarrow> runs (check_loop n) (\<lambda>_ t. loop_inv t \<and> checkpos t \<le> MAX_EVENTS) never r"
proof (induction n arbitrary: r)
  case (Suc n)
  show ?case unfolding check_loop.simps
    by (rule runs_bnd [OF check_one_runs [OF Suc.prems]]) (auto intro: Suc.IH)
qed (simp add: runs_ret)

text \<open>
  The batch \<open>es\<close> meets a connection with too much input: the events before it have been handled, and
  \<open>BUFLEN\<close> bytes or more are waiting when its own turn comes.
\<close>

definition overlong :: "(nat \<times> int) list \<Rightarrow> reactor \<Rightarrow> bool" where
  "overlong es r \<longleftrightarrow> (\<exists>xs e ys u f. es = xs @ e # ys \<and> dispatch_all xs r = (Ret (), u) \<and> reported u f e \<and> too_long u f)"

lemma overlong_now: "reported r f e \<Longrightarrow> too_long r f \<Longrightarrow> overlong (e # es) r"
  unfolding overlong_def by (rule exI [of _ "[]"]) (auto simp: ret_def)

lemma overlong_later: "dispatch e r = (Ret (), u) \<Longrightarrow> overlong es u \<Longrightarrow> overlong (e # es) r"
  unfolding overlong_def by (elim exE conjE, rule exI, rule exI, rule exI, rule exI, rule exI, rule conjI [OF append_Cons [symmetric, THEN trans [rotated]]])
    (auto simp: bnd_def)

lemma dispatch_all_runs:
  assumes "loop_inv r" "distinct (map fst es)" "\<forall>e \<in> set es. \<exists>f. reported r f e"
  shows "runs (dispatch_all es) (\<lambda>_. loop_inv) (\<lambda>_. overlong es r) r"
  using assms
proof (induction es arbitrary: r)
  case (Cons e es)
  obtain f where f: "reported r f e" using Cons.prems(3) by auto
  note step = dispatch_runs [OF Cons.prems(1) f]
  obtain x u where x: "dispatch e r = (x, u)" by fastforce
  show ?case
  proof (cases x)
    case (Ret y)
    with step x have u: "loop_inv u" "keeps_others (fst e) r u" by (auto simp: runs_def)
    have "\<forall>e' \<in> set es. \<exists>f. reported u f e'"
    proof
      fix e' assume e': "e' \<in> set es"
      then obtain g where "reported r g e'" using Cons.prems(3) by auto
      moreover have "fst e \<notin> fst ` set es" using Cons.prems(2) by simp
      then have "fst e' \<noteq> fst e" using e' by (metis image_eqI)
      ultimately show "\<exists>f. reported u f e'" using reported_later [OF _ u(2)] by blast
    qed
    with Cons.IH [OF u(1)] Cons.prems(2) have "runs (dispatch_all es) (\<lambda>_. loop_inv) (\<lambda>_. overlong es u) u" by simp
    with x Ret show ?thesis
      by (auto simp: runs_def bnd_def intro: overlong_later split: res.splits prod.splits)
  qed (use step x f in \<open>auto simp: runs_def bnd_def overlong_now\<close>)
qed (simp add: runs_ret)

section \<open>The program is safe\<close>

lemma main_start_runs:
  "runs (main_start port) (\<lambda>_ r. (\<exists>lfd. listening_up lfd r) \<and> checkpos r = 0) never (boot k now)"
proof -
  have boot: "(boot k now)\<lparr>kernel := k'\<rparr> = boot k' now" for k' by (simp add: boot_def)
  have start: "runs (initlistensocket p) (\<lambda>_ r. (\<exists>lfd. listening_up lfd r) \<and> checkpos r = 0) never (boot k' now)" for p k'
    using initlistensocket_runs [of p k' now] keepsD [OF initlistensocket_checkpos, of p "boot k' now"]
    by (auto simp: runs_def boot_def split: prod.splits res.splits)
  have any: "runs (syscall (ret (-1 :: int)) (\<lambda>_ _ _. ret 0)) (\<lambda>_ _. True) never s" for s
    by (auto simp: runs_def syscall_def ret_def split: sys_splits)
  show ?thesis unfolding main_start_def
    by (rule runs_bnd_call [OF any]) (simp add: boot start)
qed


text \<open>The scan before the first event changes nothing but the position.\<close>

lemma quiet_scan:
  "length (g_events r) = Suc MAX_EVENTS \<Longrightarrow> \<forall>i < MAX_EVENTS. status (ev_at r i) \<noteq> 1 \<Longrightarrow> checkpos r + n \<le> MAX_EVENTS \<Longrightarrow>
   check_loop n r = (Ret (), r\<lparr>checkpos := checkpos r + n\<rparr>)"
proof (induction n arbitrary: r)
  case (Suc n)
  then have "check_one r = (Ret (), r\<lparr>checkpos := Suc (checkpos r)\<rparr>)"
    by (simp add: check_one_def bnd_def prog_basics get_ev_def)
  with Suc.IH [of "r\<lparr>checkpos := Suc (checkpos r)\<rparr>"] Suc.prems show ?case by (simp add: bnd_def)
qed (simp add: ret_def)

lemma demo_first_round:
  "\<exists>x t. initlistensocket 8080 (boot demo_server 0) = (Ret (), x) \<and> fds (kernel x) (fd (ev_at x MAX_EVENTS)) \<noteq> None \<and>
     reported x 4 (MAX_EVENTS, EPOLLIN) \<and> dispatch (MAX_EVENTS, EPOLLIN) (x\<lparr>checkpos := 100\<rparr>) = (Ret (), t) \<and> active t 0"
  apply (simp add: initlistensocket_def boot_def demo_server_def demo_os_def call_def bnd_def prog_basics sys_defs eventset_def eventadd_def
      set_ev_def get_ev_def epoll_add_def reported_def zero_ev_def del: replicate_Suc)
  apply (simp add: dispatch_def invoke_def acceptconn_def free_slot_zero call_def bnd_def prog_basics sys_defs eventset_def eventadd_def
      set_ev_def get_ev_def epoll_add_def new_sock_def nth_list_update EPOLLIN_def EPOLLOUT_def del: replicate_Suc)
  done


end
