(* ===== verification/Reactor_1.thy ===== *)
theory Reactor_1
  imports Epoll_Host
begin

unbundle bit_operations_syntax

text \<open>
  The simple reactor, \<^verbatim>\<open>reactor_1.c\<close> under \<^verbatim>\<open>src/Csocket\<close>: a table of 1024 records for clients, in
  which a record with the descriptor 0 is free, and one more record for the listening socket.
  Every client is served by two callbacks in turn, one that reads and one that sends back.
\<close>

section \<open>State\<close>

definition BUF_LEN :: nat where "BUF_LEN = 1024"
definition EVENT_SIZE :: nat where "EVENT_SIZE = 1024"

datatype handler = No_handler | H_initAccept | H_readData | H_senddata

text \<open>The members \<^verbatim>\<open>arg\<close> and \<^verbatim>\<open>epfd\<close> are never used.\<close>

record xevent =
  fd :: int
  events :: int
  call_back :: handler
  buf :: "byte list"
  buflen :: int

record reactor_1 = "nat epoll_host" +
  myevents :: "xevent list"

type_synonym 'a act_1 = "(reactor_1, 'a) prog"

definition get_xev :: "nat \<Rightarrow> xevent act_1" where
  "get_xev i = bnd (gets myevents) (\<lambda>g. bnd (require (i < length g)) (\<lambda>_. ret (g ! i)))"

definition set_xev :: "nat \<Rightarrow> (xevent \<Rightarrow> xevent) \<Rightarrow> unit act_1" where
  "set_xev i h = bnd (get_xev i) (\<lambda>_. modify (\<lambda>r. r\<lparr>myevents := (myevents r)[i := h (myevents r ! i)]\<rparr>))"

section \<open>The functions\<close>

definition eventadd_1 :: "int \<Rightarrow> int \<Rightarrow> handler \<Rightarrow> nat \<Rightarrow> unit act_1" where
  "eventadd_1 f evs cb ev =
     bnd (set_xev ev (\<lambda>e. e\<lparr>fd := f, events := evs, call_back := cb\<rparr>)) (\<lambda>_.
     bnd (epoll_add f ev evs) (\<lambda>_. ret ()))"

definition eventset_1 :: "int \<Rightarrow> int \<Rightarrow> handler \<Rightarrow> nat \<Rightarrow> unit act_1" where
  "eventset_1 f evs cb ev =
     bnd (set_xev ev (\<lambda>e. e\<lparr>fd := f, events := evs, call_back := cb\<rparr>)) (\<lambda>_.
     bnd (epoll_mod f ev evs) (\<lambda>_. ret ()))"

definition eventdel_1 :: "nat \<Rightarrow> int \<Rightarrow> unit act_1" where
  "eventdel_1 ev f =
     bnd (set_xev ev (\<lambda>e. e\<lparr>fd := 0, events := 0, call_back := No_handler,
       buf := replicate (length (buf e)) 0, buflen := 0\<rparr>)) (\<lambda>_.
     bnd (epoll_del f) (\<lambda>_. ret ()))"

definition senddata_1 :: "int \<Rightarrow> nat \<Rightarrow> unit act_1" where
  "senddata_1 f ev =
     bnd (get_xev ev) (\<lambda>e.
     bnd (require (0 \<le> buflen e \<and> buflen e \<le> int (length (buf e)))) (\<lambda>_.
     bnd (call (Write f (take (nat (buflen e)) (buf e)))) (\<lambda>_.
     eventset_1 f EPOLLIN H_readData ev)))"

definition readData :: "int \<Rightarrow> nat \<Rightarrow> unit act_1" where
  "readData f ev =
     bnd (call (Read f BUF_LEN)) (\<lambda>(n, bs).
     bnd (set_xev ev (\<lambda>e. e\<lparr>buf := bs @ drop (length bs) (buf e), buflen := n\<rparr>)) (\<lambda>_.
     if n > 0 then eventset_1 f EPOLLOUT H_senddata ev
     else if n = 0 then bnd (Close_fd f) (\<lambda>_. eventdel_1 ev f)
     else ret ()))"

text \<open>The first free record, or the one behind the clients' part of the table when there is none.\<close>

definition first_free :: "reactor_1 \<Rightarrow> nat" where
  "first_free r = length (takeWhile (\<lambda>e. fd e \<noteq> 0) (take EVENT_SIZE (myevents r)))"

definition initAccept :: "int \<Rightarrow> unit act_1" where
  "initAccept f =
     bnd (call (Accept f)) (\<lambda>cfd. bnd (gets first_free) (\<lambda>i. eventadd_1 cfd EPOLLIN H_readData i))"

text \<open>
  \<^verbatim>\<open>main\<close> up to its loop. If the epoll instance cannot be created, the first \<^verbatim>\<open>epoll_wait\<close> fails and
  ends the process.
\<close>

definition reactor_start :: "unit act_1" where
  "reactor_start =
     bnd (listen_on 8888) (\<lambda>lfd.
     bnd (call (syscall (ret (-1 :: int)) (\<lambda>_ _ _. ret 0))) (\<lambda>epfd.
     if epfd < 0 then exit_with (-1)
     else eventadd_1 lfd EPOLLIN H_initAccept EVENT_SIZE))"

text \<open>
  The call of a callback, what the loop does with one reported event and with a batch, and one
  round: \<open>nready\<close> is what \<^verbatim>\<open>epoll_wait\<close> returns, \<open>evs\<close> what it stores.
\<close>

definition invoke_1 :: "nat \<Rightarrow> unit act_1" where
  "invoke_1 ev = bnd (get_xev ev) (\<lambda>e. case call_back e of
      No_handler \<Rightarrow> fault
    | H_initAccept \<Rightarrow> initAccept (fd e)
    | H_readData \<Rightarrow> readData (fd e) ev
    | H_senddata \<Rightarrow> senddata_1 (fd e) ev)"

definition dispatch_1 :: "nat \<times> int \<Rightarrow> unit act_1" where
  "dispatch_1 e = (case e of (ev, revents) \<Rightarrow>
     bnd (get_xev ev) (\<lambda>e. if events e AND revents \<noteq> 0 then invoke_1 ev else ret ()))"

primrec dispatch_list :: "(nat \<times> int) list \<Rightarrow> unit act_1" where
  "dispatch_list [] = ret ()"
| "dispatch_list (e # es) = bnd (dispatch_1 e) (\<lambda>_. dispatch_list es)"

definition round_1 :: "int \<Rightarrow> (nat \<times> int) list \<Rightarrow> unit act_1" where
  "round_1 nready evs = (if nready < 0 then exit_with (-1) else dispatch_list (take (nat nready) evs))"

section \<open>The invariant\<close>

abbreviation xev :: "reactor_1 \<Rightarrow> nat \<Rightarrow> xevent" where
  "xev r i \<equiv> myevents r ! i"

definition slot_ok :: "nat \<Rightarrow> xevent \<Rightarrow> bool" where
  "slot_ok i e \<longleftrightarrow>
     (if i = EVENT_SIZE then call_back e = H_initAccept \<and> events e = EPOLLIN
      else call_back e = H_readData \<and> events e = EPOLLIN \<or>
        call_back e = H_senddata \<and> events e = EPOLLOUT \<and> 0 < buflen e \<and> buflen e \<le> int BUF_LEN)"

definition inv_1 :: "reactor_1 \<Rightarrow> bool" where
  "inv_1 r \<longleftrightarrow> length (myevents r) = Suc EVENT_SIZE \<and> (\<forall>i \<le> EVENT_SIZE. length (buf (xev r i)) = BUF_LEN) \<and>
     fds (kernel r) 0 \<noteq> None \<and> fd (xev r EVENT_SIZE) \<noteq> 0 \<and>
     (\<forall>i \<le> EVENT_SIZE. fd (xev r i) \<noteq> 0 \<longrightarrow> slot_ok i (xev r i) \<and> fds (kernel r) (fd (xev r i)) \<noteq> None) \<and>
     (\<forall>i \<le> EVENT_SIZE. \<forall>j \<le> EVENT_SIZE. fd (xev r i) \<noteq> 0 \<longrightarrow> fd (xev r i) = fd (xev r j) \<longrightarrow> i = j) \<and>
     (\<forall>f i evs. tree r f = Some (i, evs) \<longrightarrow> i \<le> EVENT_SIZE \<and> f \<noteq> 0 \<and> fd (xev r i) = f \<and> events (xev r i) = evs)"

lemma inv_1D:
  assumes "inv_1 r"
  shows "length (myevents r) = Suc EVENT_SIZE" "\<And>i. i \<le> EVENT_SIZE \<Longrightarrow> length (buf (xev r i)) = BUF_LEN"
    "fds (kernel r) 0 \<noteq> None" "fd (xev r EVENT_SIZE) \<noteq> 0"
    "\<And>i. i \<le> EVENT_SIZE \<Longrightarrow> fd (xev r i) \<noteq> 0 \<Longrightarrow> slot_ok i (xev r i)"
    "\<And>i. i \<le> EVENT_SIZE \<Longrightarrow> fd (xev r i) \<noteq> 0 \<Longrightarrow> fds (kernel r) (fd (xev r i)) \<noteq> None"
    "\<And>i j. i \<le> EVENT_SIZE \<Longrightarrow> j \<le> EVENT_SIZE \<Longrightarrow> fd (xev r i) \<noteq> 0 \<Longrightarrow> fd (xev r i) = fd (xev r j) \<Longrightarrow> i = j"
    "\<And>f i evs. tree r f = Some (i, evs) \<Longrightarrow> i \<le> EVENT_SIZE \<and> f \<noteq> 0 \<and> fd (xev r i) = f \<and> events (xev r i) = evs"
  using assms by (auto simp: inv_1_def)

text \<open>
  A step that rewrites the record \<open>i\<close> and changes the kernel and the interest list only at the
  descriptor that the record had or gets.
\<close>

lemma inv_1_step:
  assumes "inv_1 r" "i \<le> EVENT_SIZE" "myevents t = (myevents r)[i := e]" "length (buf e) = BUF_LEN"
    and f: "f \<noteq> 0" "\<And>j. j \<le> EVENT_SIZE \<Longrightarrow> j \<noteq> i \<Longrightarrow> fd (xev r j) \<noteq> f" "\<And>g. g \<noteq> f \<Longrightarrow> fds (kernel t) g = fds (kernel r) g"
    and old: "fd (xev r i) = f \<or> fd (xev r i) = 0"
    and new: "fd e = 0 \<and> i \<noteq> EVENT_SIZE \<or> fd e = f \<and> slot_ok i e \<and> fds (kernel t) f \<noteq> None"
    and tree: "tree t = (tree r)(f := y)" "y = None \<or> y = Some (i, events e) \<and> fd e = f"
  shows "inv_1 t"
proof -
  note inv = inv_1D [OF assms(1)]
  have at: "xev t j = (if j = i then e else xev r j)" if "j \<le> EVENT_SIZE" for j
    using assms(2,3) inv(1) that by (auto simp: nth_list_update)
  have others: "fd (xev t j) \<noteq> f \<and> xev t j = xev r j" if "j \<le> EVENT_SIZE" "j \<noteq> i" for j
    using that f(2) at by simp
  have "slot_ok j (xev t j) \<and> fds (kernel t) (fd (xev t j)) \<noteq> None" if "j \<le> EVENT_SIZE" "fd (xev t j) \<noteq> 0" for j
    using that at [of j] others [of j] inv(5,6) [of j] new f(3) by (cases "j = i") auto
  moreover have "j = k" if "j \<le> EVENT_SIZE" "k \<le> EVENT_SIZE" "fd (xev t j) \<noteq> 0" "fd (xev t j) = fd (xev t k)" for j k
    using that at [of j] at [of k] others [of j] others [of k] inv(7) [of j k] new by (auto split: if_splits)
  moreover have "j \<le> EVENT_SIZE \<and> g \<noteq> 0 \<and> fd (xev t j) = g \<and> events (xev t j) = evs" if "tree t g = Some (j, evs)" for g j evs
  proof (cases "g = f")
    case True
    with that tree f(1) at [of i] assms(2) show ?thesis by auto
  next
    case False
    then have "tree r g = Some (j, evs)" using that tree(1) by simp
    with inv(8) [OF this] False at [of j] old show ?thesis by auto
  qed
  moreover have "fd (xev t EVENT_SIZE) \<noteq> 0" using at [of EVENT_SIZE] inv(4) new f(1) by (auto split: if_splits)
  moreover have "length (buf (xev t j)) = BUF_LEN" if "j \<le> EVENT_SIZE" for j
    using that at inv(2) assms(4) by simp
  ultimately show ?thesis
    using assms(3) inv(1,3) f(1,3) unfolding inv_1_def by auto
qed

section \<open>The callbacks keep it\<close>

lemma may_exit_table:
  assumes "i < length (myevents r)"
  shows "may_exit (h (xev r i)) R r \<Longrightarrow> may_exit (bnd (get_xev i) h) R r"
    "may_exit (m ()) R (r\<lparr>myevents := (myevents r)[i := g (xev r i)]\<rparr>) \<Longrightarrow> may_exit (bnd (set_xev i g) m) R r"
  using assms by (simp_all add: may_exit_def get_xev_def set_xev_def bnd_def prog_basics)

lemma eventset_1_ends:
  assumes "i < length (myevents r)" "tree r f = Some y"
    "R () (r\<lparr>myevents := (myevents r)[i := (xev r i)\<lparr>fd := f, events := evs, call_back := cb\<rparr>],
      tree := (tree r)(f \<mapsto> (i, evs))\<rparr>)"
  shows "may_exit (eventset_1 f evs cb i) R r"
  unfolding eventset_1_def
  by (rule may_exit_table(2) [OF assms(1)]) (use assms(2,3) in \<open>simp add: may_exit_def bnd_def epoll_mod_def ret_def\<close>)

lemma eventdel_1_ends:
  assumes "i < length (myevents r)" "tree r f = None"
    "R () (r\<lparr>myevents := (myevents r)[i := (xev r i)\<lparr>fd := 0, events := 0, call_back := No_handler,
       buf := replicate (length (buf (xev r i))) 0, buflen := 0\<rparr>]\<rparr>)"
  shows "may_exit (eventdel_1 i f) R r"
  unfolding eventdel_1_def
  by (rule may_exit_table(2) [OF assms(1)]) (use assms(2,3) in \<open>simp add: may_exit_def bnd_def epoll_del_def ret_def\<close>)

text \<open>What the callback of a client's record may do to the rest: nothing.\<close>

definition served_1 :: "nat \<Rightarrow> int \<Rightarrow> reactor_1 \<Rightarrow> reactor_1 \<Rightarrow> bool" where
  "served_1 i f r t \<longleftrightarrow> inv_1 t \<and> (\<forall>g. g \<noteq> f \<longrightarrow> tree t g = tree r g \<and> fds (kernel t) g = fds (kernel r) g) \<and>
     (\<forall>j \<le> EVENT_SIZE. j \<noteq> i \<longrightarrow> xev t j = xev r j)"

lemma served_1I:
  assumes "inv_1 r" "i < EVENT_SIZE" "fd (xev r i) = f" "f \<noteq> 0" "myevents t = (myevents r)[i := e]"
    "length (buf e) = BUF_LEN" "\<And>g. g \<noteq> f \<Longrightarrow> fds (kernel t) g = fds (kernel r) g"
    "fd e = 0 \<or> fd e = f \<and> slot_ok i e \<and> fds (kernel t) f \<noteq> None"
    "tree t = (tree r)(f := y)" "y = None \<or> y = Some (i, events e) \<and> fd e = f"
  shows "served_1 i f r t"
proof -
  note inv = inv_1D [OF assms(1)]
  have other: "fd (xev r j) \<noteq> f" if "j \<le> EVENT_SIZE" "j \<noteq> i" for j
    using inv(7) [of i j] that assms(2,3,4) by auto
  have "inv_1 t"
    by (rule inv_1_step [OF assms(1) less_imp_le [OF assms(2)] assms(5,6,4) other assms(7) _ _ assms(9,10)])
      (use assms in auto)
  moreover have "xev t j = xev r j" if "j \<noteq> i" for j using that assms(5) by simp
  ultimately show ?thesis using assms(7,9) by (simp add: served_1_def)
qed

lemma readData_ends:
  assumes "inv_1 r" "i < EVENT_SIZE" "fd (xev r i) = f" "f \<noteq> 0" "tree r f = Some (i, EPOLLIN)" "call_back (xev r i) = H_readData"
  shows "may_exit (readData f i) (\<lambda>_. served_1 i f r) r"
proof -
  note inv = inv_1D [OF assms(1)]
  have i: "i < length (myevents r)" "length (buf (xev r i)) = BUF_LEN" "events (xev r i) = EPOLLIN"
    using inv(1) inv(2) [of i] inv(8) [OF assms(5)] assms(2) by auto
  have opn: "fds (kernel r) f \<noteq> None" using inv(6) [of i] assms(2-4) by auto
  show ?thesis
    unfolding readData_def
  proof (rule may_exit_bnd_call [OF Read_runs], goal_cases)
    case (1 x k)
    obtain n bs where x: "x = (n, bs)" by fastforce
    let ?e = "(xev r i)\<lparr>buf := bs @ drop (length bs) (buf (xev r i)), buflen := n\<rparr>"
    show ?case
    proof (cases "0 < n")
      case True
      with 1 x obtain c where c: "fds (kernel r) f = Some c" "nat n \<le> BUF_LEN" "nat n \<le> length (rcvq c)"
        "bs = take (nat n) (rcvq c)" "fds k = (fds (kernel r))(f \<mapsto> c\<lparr>rcvq := drop (nat n) (rcvq c)\<rparr>)"
        by (auto simp: read_got_def)
      have "served_1 i f r (r\<lparr>kernel := k, myevents := (myevents r)[i := ?e\<lparr>fd := f, events := EPOLLOUT, call_back := H_senddata\<rparr>],
          tree := (tree r)(f \<mapsto> (i, EPOLLOUT))\<rparr>)"
        by (rule served_1I [OF assms(1-4), where e = "?e\<lparr>fd := f, events := EPOLLOUT, call_back := H_senddata\<rparr>"
              and y = "Some (i, EPOLLOUT)"]) (use True c i assms(2) in \<open>auto simp: slot_ok_def min_absorb2\<close>)
      with True i assms(5) show ?thesis
        by (auto simp: x intro!: may_exit_table(2) eventset_1_ends)
    next
      case False
      with 1 x have k: "bs = []" "fds k = fds (kernel r)" by (auto simp: read_got_def)
      have stay: "served_1 i f r (r\<lparr>kernel := k, myevents := (myevents r)[i := ?e]\<rparr>)"
        by (rule served_1I [OF assms(1-4), where e = ?e and y = "Some (i, EPOLLIN)"])
          (use k i assms opn in \<open>auto simp: slot_ok_def fun_upd_idem\<close>)
      have gone: "served_1 i f r (r\<lparr>kernel := k', tree := (tree r)(f := None), myevents := (myevents r)[i := ?e
          \<lparr>fd := 0, events := 0, call_back := No_handler, buf := replicate BUF_LEN 0, buflen := 0\<rparr>]\<rparr>)"
        if "fds k' = (fds k)(f := None)" for k'
        by (rule served_1I [OF assms(1-4), where y = None and e = "?e\<lparr>fd := 0, events := 0, call_back := No_handler,
              buf := replicate BUF_LEN 0, buflen := 0\<rparr>"]) (use that k i assms in auto)
      show ?thesis
        using False i stay gone
        by (auto simp: x k intro!: may_exit_table(2) may_exit_Close_fd eventdel_1_ends may_exit_intros)
    qed
  qed
qed

lemma senddata_1_ends:
  assumes "inv_1 r" "i < EVENT_SIZE" "fd (xev r i) = f" "f \<noteq> 0" "tree r f = Some (i, EPOLLOUT)" "call_back (xev r i) = H_senddata"
  shows "may_exit (senddata_1 f i) (\<lambda>_. served_1 i f r) r"
proof -
  note inv = inv_1D [OF assms(1)]
  have i: "i < length (myevents r)" "length (buf (xev r i)) = BUF_LEN" "0 < buflen (xev r i)" "buflen (xev r i) \<le> int BUF_LEN"
    using inv(1) inv(2) [of i] inv(5) [of i] assms(2-6) by (auto simp: slot_ok_def)
  have opn: "fds (kernel r) f \<noteq> None" using inv(6) [of i] assms(2-4) by auto
  show ?thesis
    unfolding senddata_1_def
  proof (rule may_exit_table(1) [OF i(1)], rule may_exit_bnd_basics(3), goal_cases)
    case 2
    show ?case
    proof (rule may_exit_bnd_call [OF Write_runs], goal_cases)
      case (1 n k)
      let ?e = "(xev r i)\<lparr>fd := f, events := EPOLLIN, call_back := H_readData\<rparr>"
      have "served_1 i f r (r\<lparr>kernel := k, myevents := (myevents r)[i := ?e], tree := (tree r)(f \<mapsto> (i, EPOLLIN))\<rparr>)"
        by (rule served_1I [OF assms(1-4), where e = ?e and y = "Some (i, EPOLLIN)"])
          (use 1 opn i assms(2) in \<open>auto simp: slot_ok_def write_put_def\<close>)
      with i assms(5) show ?case by (auto intro!: eventset_1_ends)
    qed
  qed (use i in simp)
qed

text \<open>A connection is accepted into a free record, if there is one.\<close>

lemma first_free_props:
  assumes "length (myevents r) = Suc EVENT_SIZE" "first_free r < EVENT_SIZE"
  shows "fd (xev r (first_free r)) = 0"
proof -
  have "length (takeWhile (\<lambda>e. fd e \<noteq> 0) (take EVENT_SIZE (myevents r))) < length (take EVENT_SIZE (myevents r))"
    using assms by (simp add: first_free_def)
  from nth_length_takeWhile [OF this] assms(2) show ?thesis by (simp add: first_free_def)
qed

definition accepted_1 :: "reactor_1 \<Rightarrow> reactor_1 \<Rightarrow> bool" where
  "accepted_1 r t \<longleftrightarrow> inv_1 t \<and> (\<exists>n. accepted (kernel r) n (kernel t) \<and>
     (\<forall>g. g \<noteq> n \<longrightarrow> tree t g = tree r g) \<and> tree r n = None) \<and> (\<forall>j \<le> EVENT_SIZE. fd (xev r j) \<noteq> 0 \<longrightarrow> xev t j = xev r j)"

lemma accepted_1_inv: "accepted_1 r t \<Longrightarrow> inv_1 t"
  by (simp add: accepted_1_def)

lemma accepted_1_tree: "accepted_1 r t \<Longrightarrow> tree r g = Some x \<Longrightarrow> tree t g = Some x"
  unfolding accepted_1_def by (metis option.distinct(1))

lemma initAccept_ends:
  assumes "inv_1 r" "first_free r < EVENT_SIZE"
  shows "may_exit (initAccept f) (\<lambda>_. accepted_1 r) r"
  unfolding initAccept_def
proof (rule may_exit_bnd_call [OF Accept_runs], rule may_exit_bnd_basics(1), goal_cases)
  case (1 n k)
  let ?i = "first_free r" and ?r = "r\<lparr>kernel := k\<rparr>"
  let ?e = "(xev r ?i)\<lparr>fd := n, events := EPOLLIN, call_back := H_readData\<rparr>"
  note inv = inv_1D [OF assms(1)]
  have n: "n \<noteq> 0" "fds (kernel r) n = None" "fds k n \<noteq> None" "\<And>g. g \<noteq> n \<Longrightarrow> fds k g = fds (kernel r) g"
    using 1 inv(3) by (auto simp: accepted_def dest: fun_cong)
  have fresh: "fd (xev r j) \<noteq> n" if "j \<le> EVENT_SIZE" for j using inv(6) [OF that] n by auto
  have none: "tree r n = None"
    using inv(8) [of n] fresh by (cases "tree r n") fastforce+
  have i: "?i < length (myevents r)" "fd (xev r ?i) = 0" "length (buf (xev r ?i)) = BUF_LEN"
    using assms(2) inv(1) inv(2) [of ?i] first_free_props [OF inv(1) assms(2)] by auto
  have post: "accepted_1 r (r\<lparr>myevents := (myevents r)[?i := ?e], kernel := k', tree := (tree r)(n := y)\<rparr>)"
    if "fds k' = fds k" "y = None \<or> y = Some (?i, EPOLLIN)" for k' y
  proof -
    let ?t = "r\<lparr>myevents := (myevents r)[?i := ?e], kernel := k', tree := (tree r)(n := y)\<rparr>"
    have "inv_1 ?t"
      by (rule inv_1_step [OF assms(1), where i = ?i and e = ?e and f = n and y = y])
        (use that n fresh i assms(2) in \<open>auto simp: slot_ok_def\<close>)
    moreover have "xev ?t j = xev r j" if "fd (xev r j) \<noteq> 0" for j using that i(2) by (cases "j = ?i") auto
    ultimately show ?thesis
      using 1 that(1) none unfolding accepted_1_def by (auto simp: accepted_def intro!: exI [of _ n])
  qed
  have ff: "first_free ?r = ?i" by (simp add: first_free_def)
  have "may_exit (bnd (epoll_add n ?i EPOLLIN) (\<lambda>_. ret ())) (\<lambda>_. accepted_1 r) (r\<lparr>kernel := k, myevents := (myevents r)[?i := ?e]\<rparr>)"
    using post [where y = None] post [where y = "Some (?i, EPOLLIN)"] none
    by (auto simp: epoll_add_def call_def syscall_def may_exit_def bnd_def ret_def fun_upd_idem split: list.splits answer.splits)
  then show ?case
    unfolding ff eventadd_1_def using i(1) by (intro may_exit_table(2)) simp_all
qed

section \<open>Events\<close>

lemma event_masks [simp]:
  "EPOLLIN AND EPOLLIN \<noteq> 0" "EPOLLOUT AND EPOLLOUT \<noteq> 0" "EPOLLIN \<noteq> EPOLLOUT" "EPOLLOUT \<noteq> EPOLLIN"
  by (simp_all add: EPOLLIN_def EPOLLOUT_def)

text \<open>
  What handling one event leaves alone: the registrations of other descriptors and, unless it is a
  new connection, the free records.
\<close>

definition handled_1 :: "nat \<Rightarrow> int \<Rightarrow> reactor_1 \<Rightarrow> reactor_1 \<Rightarrow> bool" where
  "handled_1 i f r t \<longleftrightarrow> inv_1 t \<and> (\<forall>g. g \<noteq> f \<longrightarrow> tree r g \<noteq> None \<longrightarrow> tree t g = tree r g) \<and>
     (i \<noteq> EVENT_SIZE \<longrightarrow> (\<forall>j < EVENT_SIZE. fd (xev r j) = 0 \<longrightarrow> fd (xev t j) = 0))"

lemma served_1_handled:
  assumes "served_1 i f r t" "fd (xev r i) \<noteq> 0"
  shows "handled_1 i f r t"
proof -
  have "fd (xev t j) = 0" if "j < EVENT_SIZE" "fd (xev r j) = 0" for j
    using assms that by (cases "j = i") (auto simp: served_1_def)
  with assms(1) show ?thesis by (simp add: served_1_def handled_1_def)
qed

lemma dispatch_1_ends:
  assumes "inv_1 r" "tree r f = Some (i, evs)" "i = EVENT_SIZE \<longrightarrow> first_free r < EVENT_SIZE"
  shows "may_exit (dispatch_1 (i, revents)) (\<lambda>_. handled_1 i f r) r"
proof -
  note inv = inv_1D [OF assms(1)]
  have i: "i \<le> EVENT_SIZE" "f \<noteq> 0" "fd (xev r i) = f" "events (xev r i) = evs" using inv(8) [OF assms(2)] by auto
  then have len: "i < length (myevents r)" and ok: "slot_ok i (xev r i)" using inv(1) inv(5) [of i] by auto
  have "may_exit (invoke_1 i) (\<lambda>_. handled_1 i f r) r"
    unfolding invoke_1_def
  proof (rule may_exit_table(1) [OF len], cases "i = EVENT_SIZE")
    case True
    with ok have "call_back (xev r i) = H_initAccept" by (simp add: slot_ok_def)
    with True assms(3) show "may_exit (case call_back (xev r i) of No_handler \<Rightarrow> fault | H_initAccept \<Rightarrow> initAccept (fd (xev r i))
        | H_readData \<Rightarrow> readData (fd (xev r i)) i | H_senddata \<Rightarrow> senddata_1 (fd (xev r i)) i)
        (\<lambda>_. handled_1 i f r) r"
      by (auto intro!: may_exit_mono [OF initAccept_ends [OF assms(1)]] simp: accepted_1_inv accepted_1_tree handled_1_def)
  next
    case False
    then have "i < EVENT_SIZE" using i(1) by simp
    with ok i assms(1,2) show "may_exit (case call_back (xev r i) of No_handler \<Rightarrow> fault | H_initAccept \<Rightarrow> initAccept (fd (xev r i))
        | H_readData \<Rightarrow> readData (fd (xev r i)) i | H_senddata \<Rightarrow> senddata_1 (fd (xev r i)) i)
        (\<lambda>_. handled_1 i f r) r"
      by (auto simp: slot_ok_def intro!: may_exit_mono [OF readData_ends] may_exit_mono [OF senddata_1_ends] served_1_handled)
  qed
  with len show ?thesis
    unfolding dispatch_1_def prod.case
    by (auto intro!: may_exit_table(1) may_exit_intros assms(1) simp: handled_1_def)
qed

text \<open>A batch of events for different records; a record is free if the listening socket is among them.\<close>

lemma first_free_less: "length (myevents r) = Suc EVENT_SIZE \<Longrightarrow> first_free r < EVENT_SIZE \<longleftrightarrow> (\<exists>j < EVENT_SIZE. fd (xev r j) = 0)"
proof
  assume "length (myevents r) = Suc EVENT_SIZE" "\<exists>j < EVENT_SIZE. fd (xev r j) = 0"
  then obtain j where j: "j < length (take EVENT_SIZE (myevents r))" "fd (take EVENT_SIZE (myevents r) ! j) = 0" "j < EVENT_SIZE" by auto
  then have "first_free r \<le> j"
    unfolding first_free_def by (metis (mono_tags, lifting) leI nth_mem set_takeWhileD takeWhile_nth)
  with j(3) show "first_free r < EVENT_SIZE" by simp
qed (blast dest: first_free_props)

lemma dispatch_list_ends:
  assumes "inv_1 r" "distinct (map fst es)" "\<forall>(i, revents) \<in> set es. \<exists>f evs. tree r f = Some (i, evs)"
    "EVENT_SIZE \<in> fst ` set es \<Longrightarrow> first_free r < EVENT_SIZE"
  shows "may_exit (dispatch_list es) (\<lambda>_. inv_1) r"
  using assms
proof (induction es arbitrary: r)
  case (Cons e es)
  obtain i revents where e: "e = (i, revents)" by fastforce
  obtain f evs where f: "tree r f = Some (i, evs)" using Cons.prems(3) e by auto
  have "i = EVENT_SIZE \<longrightarrow> first_free r < EVENT_SIZE" using Cons.prems(4) e by auto
  note step = dispatch_1_ends [OF Cons.prems(1) f this, of revents]
  show ?case unfolding dispatch_list.simps e
  proof (rule may_exit_bnd [OF step], rule Cons.IH)
    fix t assume t: "handled_1 i f r t"
    then show inv: "inv_1 t" by (simp add: handled_1_def)
    show "distinct (map fst es)" using Cons.prems(2) by simp
    have new: "i \<notin> fst ` set es" using Cons.prems(2) e by simp
    show "\<forall>(j, revents) \<in> set es. \<exists>f evs. tree t f = Some (j, evs)"
    proof (clarify)
      fix j revs assume j: "(j, revs) \<in> set es"
      then obtain g evs' where g: "tree r g = Some (j, evs')" using Cons.prems(3) by auto
      have "j \<noteq> i" using j new by (metis fst_conv image_eqI)
      with f g have "g \<noteq> f" by auto
      with t g have "tree t g = Some (j, evs')" by (simp add: handled_1_def)
      then show "\<exists>f evs. tree t f = Some (j, evs)" by blast
    qed
    assume "EVENT_SIZE \<in> fst ` set es"
    then have "i \<noteq> EVENT_SIZE" "first_free r < EVENT_SIZE" using new Cons.prems(4) by auto
    with t show "first_free t < EVENT_SIZE"
      using first_free_less [of r] first_free_less [of t] inv_1D(1) [OF Cons.prems(1)] inv_1D(1) [OF inv] by (auto simp: handled_1_def)
  qed
qed (simp add: may_exit_basics)

text \<open>The global variables before \<^verbatim>\<open>main\<close>.\<close>

definition boot_1 :: "os \<Rightarrow> reactor_1" where
  "boot_1 k = \<lparr>kernel = k, tree = (\<lambda>_. None), myevents = replicate (Suc EVENT_SIZE)
     \<lparr>fd = 0, events = 0, call_back = No_handler, buf = replicate BUF_LEN 0, buflen = 0\<rparr>\<rparr>"

text \<open>
  The server after its start: it handles events that are reported for registered descriptors,
  and the network acts on the sockets. The listening socket is served while a record is free.
\<close>

inductive serving_1 :: "reactor_1 \<Rightarrow> reactor_1 \<Rightarrow> bool" for x where
  s1_start: "serving_1 x x"
| s1_event: "serving_1 x r \<Longrightarrow> tree r f = Some (i, evs) \<Longrightarrow> i = EVENT_SIZE \<longrightarrow> first_free r < EVENT_SIZE \<Longrightarrow>
    dispatch_1 (i, revents) r = (Ret (), t) \<Longrightarrow> serving_1 x t"
| s1_net: "serving_1 x r \<Longrightarrow> (\<And>g. (fds k g = None) = (fds (kernel r) g = None)) \<Longrightarrow> serving_1 x (r\<lparr>kernel := k\<rparr>)"

lemma serving_1_inv: "serving_1 x r \<Longrightarrow> inv_1 x \<Longrightarrow> inv_1 r"
proof (induction rule: serving_1.induct)
  case (s1_event r f i evs revents t)
  with may_exit_Ret [OF dispatch_1_ends [OF _ s1_event(2,3)] s1_event(4)] show ?case by (simp add: handled_1_def)
next
  case (s1_net r k)
  then show ?case unfolding inv_1_def by simp
qed

lemma boot_1_ends:
  assumes "fds k 0 \<noteq> None" "listener_up lfd k s"
  shows "may_exit (eventadd_1 lfd EPOLLIN H_initAccept EVENT_SIZE) (\<lambda>_. inv_1) ((boot_1 k)\<lparr>kernel := s\<rparr>)"
proof -
  let ?m = "(replicate (Suc EVENT_SIZE) \<lparr>fd = 0, events = 0, call_back = No_handler, buf = replicate BUF_LEN 0, buflen = 0\<rparr>)
    [EVENT_SIZE := \<lparr>fd = lfd, events = EPOLLIN, call_back = H_initAccept, buf = replicate BUF_LEN 0, buflen = 0\<rparr>]"
  have lfd: "lfd \<noteq> 0" "fds s lfd \<noteq> None" "fds s 0 \<noteq> None"
    using assms by (auto simp: listener_up_def)
  have at: "?m ! i = (if i = EVENT_SIZE then \<lparr>fd = lfd, events = EPOLLIN, call_back = H_initAccept, buf = replicate BUF_LEN 0, buflen = 0\<rparr>
      else \<lparr>fd = 0, events = 0, call_back = No_handler, buf = replicate BUF_LEN 0, buflen = 0\<rparr>)" if "i \<le> EVENT_SIZE" for i
    using that by (auto simp: nth_list_update simp del: replicate_Suc)
  have inv: "inv_1 \<lparr>kernel = s', tree = (\<lambda>_. None)(lfd := y), myevents = ?m\<rparr>"
    if "fds s' = fds s" "y = None \<or> y = Some (EVENT_SIZE, EPOLLIN)" for s' y
  proof -
    have m: "length (buf (?m ! i)) = BUF_LEN" "fd (?m ! i) = (if i = EVENT_SIZE then lfd else 0)" if "i \<le> EVENT_SIZE" for i
      using at [OF that] by simp_all
    have n: "slot_ok EVENT_SIZE (?m ! EVENT_SIZE)" "events (?m ! EVENT_SIZE) = EPOLLIN"
      using at [of EVENT_SIZE] by (simp_all add: slot_ok_def)
    show ?thesis
      using that lfd m n unfolding inv_1_def by (auto simp del: replicate_Suc split: if_splits)
  qed
  show ?thesis
    unfolding eventadd_1_def
    by (rule may_exit_table(2))
      (use lfd inv [of _ None] inv [of _ "Some (EVENT_SIZE, EPOLLIN)"] in
        \<open>auto simp: boot_1_def epoll_add_def call_def syscall_def may_exit_def bnd_def ret_def fun_upd_idem
          simp del: replicate_Suc split: list.splits answer.splits\<close>)
qed

lemma reactor_start_ends:
  assumes "fds k 0 \<noteq> None"
  shows "may_exit reactor_start (\<lambda>_. inv_1) (boot_1 k)"
proof -
  have upd: "(boot_1 k)\<lparr>kernel := s\<rparr>\<lparr>kernel := u\<rparr> = (boot_1 k)\<lparr>kernel := u\<rparr>" "kernel (boot_1 k) = k" for s u
    by (simp_all add: boot_1_def)
  show ?thesis
    unfolding reactor_start_def
    apply (rule may_exit_listen_on, rule may_exit_bnd_call, simp only: upd host.simps, rule setup_up(4), simp)
    apply (rule may_exit_if, rule may_exit_basics(4))
    apply (simp only: upd, rule boot_1_ends [OF assms], assumption)
    done
qed

section \<open>Properties\<close>

text \<open>
  The invariant of the simple reactor. From the start of the server on, over every sequence of
  events and of network activity, every record in use describes one open descriptor, no two
  the same, with the callback that fits the events it is registered for, and the interest list
  points at these records only, as long as connections are accepted into free records. Then
  handling an event never has undefined behaviour.
\<close>

theorem reactor_1_invariant:
  assumes "fds k 0 \<noteq> None" "reactor_start (boot_1 k) = (Ret (), r)" "serving_1 r t"
    "tree t f = Some (i, evs)" "i = EVENT_SIZE \<longrightarrow> first_free t < EVENT_SIZE"
  shows "inv_1 t \<and> (case dispatch_1 (i, revents) t of (Ret _, u) \<Rightarrow> inv_1 u | (Fault, u) \<Rightarrow> False | _ \<Rightarrow> True)"
proof -
  have inv: "inv_1 t"
    using serving_1_inv [OF assms(3)] may_exit_Ret [OF reactor_start_ends [OF assms(1)] assms(2)] by simp
  with dispatch_1_ends [OF inv assms(4,5), of revents] show ?thesis
    by (auto simp: may_exit_def handled_1_def split: res.splits prod.splits)
qed

definition demo_1 :: os where
  "demo_1 = (demo_os [ok 5, ok 0, ok 0, ok 0, ok 0, ok 0, Ok 7 [1, 2, 3] False, ok 0, ok 9, ok 2] [])
     \<lparr>fds := [0 \<mapsto> new_sock [] False]\<rparr>"

lemma first_free_boot: "fd (xev r 0) = 0 \<Longrightarrow> myevents r \<noteq> [] \<Longrightarrow> first_free r = 0"
  by (cases "myevents r") (auto simp: first_free_def EVENT_SIZE_def take_Suc_conv_app_nth numeral_eq_Suc)

lemmas demo_1_defs = reactor_start_def listen_on_def boot_1_def demo_1_def demo_os_def Socket_def sys_socket_def syscall_def open_fd_def
  set_fd_def bnd_def call_def ret_def gets_def sys_setsockopt_def sys_on_fd_def Bind_def sys_bind_def Listen_def sys_listen_def
  eventadd_1_def set_xev_def get_xev_def require_def modify_def epoll_add_def new_sock_def

lemma demo_1_start:
  "\<exists>r. reactor_start (boot_1 demo_1) = (Ret (), r) \<and> tree r = [5 \<mapsto> (EVENT_SIZE, EPOLLIN)] \<and>
     myevents r = (myevents (boot_1 demo_1))[EVENT_SIZE := (xev (boot_1 demo_1) EVENT_SIZE)
       \<lparr>fd := 5, events := EPOLLIN, call_back := H_initAccept\<rparr>]"
  by (simp add: demo_1_defs del: replicate_Suc)

lemma demo_1_up:
  "fds demo_1 0 \<noteq> None \<and> (\<exists>r. reactor_start (boot_1 demo_1) = (Ret (), r) \<and> tree r 5 = Some (EVENT_SIZE, EPOLLIN) \<and> first_free r < EVENT_SIZE)"
proof -
  obtain r where r: "reactor_start (boot_1 demo_1) = (Ret (), r)" "tree r = [5 \<mapsto> (EVENT_SIZE, EPOLLIN)]"
    "myevents r = (myevents (boot_1 demo_1))[EVENT_SIZE := (xev (boot_1 demo_1) EVENT_SIZE)
       \<lparr>fd := 5, events := EPOLLIN, call_back := H_initAccept\<rparr>]"
    using demo_1_start by blast
  have len: "length (myevents r) = Suc EVENT_SIZE" using r(3) by (simp add: boot_1_def del: replicate_Suc)
  have "fd (xev r 0) = 0"
    using r(3) by (simp add: boot_1_def EVENT_SIZE_def nth_list_update del: replicate_Suc)
  with len have "first_free r < EVENT_SIZE"
    by (subst first_free_boot) (auto simp: EVENT_SIZE_def)
  with r show ?thesis by (auto simp: demo_1_def)
qed

theorem reactor_1_invariant_witness:
  "\<exists>(r :: reactor_1) u. reactor_start (boot_1 demo_1) = (Ret (), r) \<and>
     (case dispatch_1 (EVENT_SIZE, EPOLLIN) r of (Ret _, u) \<Rightarrow> inv_1 u | (Fault, u) \<Rightarrow> False | _ \<Rightarrow> True)"
proof -
  obtain r where r: "reactor_start (boot_1 demo_1) = (Ret (), r)" "tree r 5 = Some (EVENT_SIZE, EPOLLIN)" "first_free r < EVENT_SIZE"
    and "fds demo_1 0 \<noteq> None" using demo_1_up by blast
  from reactor_1_invariant [OF this(4) r(1) serving_1.s1_start r(2), of EPOLLIN] r show ?thesis by auto
qed

text \<open>
  C20: Rounds of the simple reactor. From the start of the server on, after any sequence of events and
  of network activity, a whole round of the loop, with events for different registered
  descriptors and a record free if the listening socket is among them, has no undefined behaviour
  and keeps the invariant of the table: every record in use describes one open descriptor, no two
  the same, with the callback that fits the events it is registered for. When \<^verbatim>\<open>epoll_wait\<close> fails
  the round ends the process.
\<close>

theorem reactor_1_rounds:
  assumes "fds k 0 \<noteq> None" "reactor_start (boot_1 k) = (Ret (), r)" "serving_1 r t" "distinct (map fst es)"
    "\<forall>(i, revents) \<in> set es. \<exists>f evs. tree t f = Some (i, evs)" "EVENT_SIZE \<in> fst ` set es \<longrightarrow> first_free t < EVENT_SIZE"
  shows "inv_1 t \<and> (case round_1 nready es t of
      (Ret _, u) \<Rightarrow> inv_1 u \<and> 0 \<le> nready
    | (Exit c, u) \<Rightarrow> True
    | (Block, u) \<Rightarrow> 0 \<le> nready
    | (Fault, u) \<Rightarrow> False)"
proof -
  have inv: "inv_1 t"
    using serving_1_inv [OF assms(3)] may_exit_Ret [OF reactor_start_ends [OF assms(1)] assms(2)] by simp
  let ?es = "take (nat nready) es"
  have sub: "set ?es \<subseteq> set es" by (rule set_take_subset)
  have "may_exit (dispatch_list ?es) (\<lambda>_. inv_1) t"
  proof (rule dispatch_list_ends [OF inv])
    show "distinct (map fst ?es)" using assms(4) by (simp add: take_map [symmetric])
    show "\<forall>(i, revents) \<in> set ?es. \<exists>f evs. tree t f = Some (i, evs)" using assms(5) sub by blast
    show "first_free t < EVENT_SIZE" if "EVENT_SIZE \<in> fst ` set ?es" using that assms(6) sub by blast
  qed
  with inv show ?thesis by (auto simp: round_1_def may_exit_def exit_with_def split: res.splits prod.splits)
qed

theorem reactor_1_rounds_witness:
  "\<exists>(r :: reactor_1) u. reactor_start (boot_1 demo_1) = (Ret (), r) \<and> tree r 5 = Some (EVENT_SIZE, EPOLLIN) \<and>
     (case round_1 1 [(EVENT_SIZE, EPOLLIN)] r of (Ret _, u) \<Rightarrow> inv_1 u | (Fault, u) \<Rightarrow> False | _ \<Rightarrow> True)"
proof -
  obtain r where r: "reactor_start (boot_1 demo_1) = (Ret (), r)" "tree r 5 = Some (EVENT_SIZE, EPOLLIN)" "first_free r < EVENT_SIZE"
    and "fds demo_1 0 \<noteq> None" using demo_1_up by blast
  moreover have "\<exists>f evs. tree r f = Some (EVENT_SIZE, evs)" using r(2) by blast
  ultimately show ?thesis
    using reactor_1_rounds [OF _ r(1) serving_1.s1_start, of "[(EVENT_SIZE, EPOLLIN)]" 1] by (auto split: res.splits prod.splits)
qed

text \<open>
  The callbacks on the bytes: what \<^verbatim>\<open>readData\<close> takes off the stream and what \<^verbatim>\<open>senddata\<close> sends.
\<close>

lemma eventset_1_fields:
  assumes "eventset_1 f evs cb i r = (Ret (), t)" "i < length (myevents r)"
  shows "fds (kernel t) = fds (kernel r)" "xev t i = (xev r i)\<lparr>fd := f, events := evs, call_back := cb\<rparr>"
    "length (myevents t) = length (myevents r)"
  using assms by (auto simp: eventset_1_def set_xev_def get_xev_def epoll_mod_def bnd_def prog_basics split: if_splits)

lemma Close_fd_fields: "Close_fd f r = (Ret n, t) \<Longrightarrow> epoll_host.more t = epoll_host.more r"
  by (auto simp: Close_fd_def call_def bnd_def prog_basics split: prod.splits res.splits)

lemma readData_bytes:
  assumes "readData f i r = (Ret (), t)" "i < length (myevents r)" "length (buf (xev r i)) = BUF_LEN"
    "call_back (xev r i) = H_readData" "call_back (xev t i) = H_senddata"
  shows "\<exists>c n. fds (kernel r) f = Some c \<and> 0 < n \<and> n \<le> BUF_LEN \<and> n \<le> length (rcvq c) \<and>
    fds (kernel t) f = Some (c\<lparr>rcvq := drop n (rcvq c)\<rparr>) \<and> buflen (xev t i) = int n \<and>
    take n (buf (xev t i)) = take n (rcvq c) \<and> length (buf (xev t i)) = BUF_LEN \<and> i < length (myevents t)"
proof -
  from assms(1) obtain n bs k where got: "read_got f BUF_LEN (kernel r) (n, bs) k"
    and rest: "bnd (set_xev i (\<lambda>e. e\<lparr>buf := bs @ drop (length bs) (buf e), buflen := n\<rparr>)) (\<lambda>_.
       if n > 0 then eventset_1 f EPOLLOUT H_senddata i
       else if n = 0 then bnd (Close_fd f) (\<lambda>_. eventdel_1 i f) else ret ()) (r\<lparr>kernel := k\<rparr>) = (Ret (), t)"
    using may_exit_Ret [OF Read_runs] unfolding readData_def
    by (fastforce elim!: bnd_RetE simp: call_def split: prod.splits)
  let ?e = "(xev r i)\<lparr>buf := bs @ drop (length bs) (buf (xev r i)), buflen := n\<rparr>"
  have set: "bnd (set_xev i (\<lambda>e. e\<lparr>buf := bs @ drop (length bs) (buf e), buflen := n\<rparr>)) m (r\<lparr>kernel := k\<rparr>) =
      m () (r\<lparr>kernel := k, myevents := (myevents r)[i := ?e]\<rparr>)" for m :: "unit \<Rightarrow> unit act_1"
    using assms(2) by (simp add: set_xev_def get_xev_def bnd_def prog_basics)
  show ?thesis
  proof (cases "0 < n")
    case True
    with rest set have ev: "eventset_1 f EPOLLOUT H_senddata i (r\<lparr>kernel := k, myevents := (myevents r)[i := ?e]\<rparr>) = (Ret (), t)"
      by simp
    from eventset_1_fields [OF ev] True got assms(2,3) show ?thesis
      by (intro exI [of _ "the (fds (kernel r) f)"] exI [of _ "nat n"]) (auto simp: read_got_def)
  next
    case False
    have "call_back (xev t i) \<noteq> H_senddata"
      using rest assms(2,4) False set
      by (auto simp: eventdel_1_def set_xev_def get_xev_def epoll_del_def Close_fd_def call_def bnd_def prog_basics
          split: if_splits prod.splits res.splits)
    with assms(5) show ?thesis by simp
  qed
qed

lemma senddata_1_bytes:
  assumes "senddata_1 f i t = (Ret (), u)" "i < length (myevents t)" "fds (kernel t) f = Some c"
  shows "\<exists>m. int m \<le> buflen (xev t i) \<and>
    fds (kernel u) f = Some (c\<lparr>sndq := sndq c @ take m (buf (xev t i))\<rparr>) \<and> call_back (xev u i) = H_readData"
proof -
  let ?bs = "take (nat (buflen (xev t i))) (buf (xev t i))"
  from assms(1,2) obtain n k where put: "write_put f ?bs (kernel t) n k" and len: "0 \<le> buflen (xev t i)"
      "buflen (xev t i) \<le> int (length (buf (xev t i)))"
    and ev: "eventset_1 f EPOLLIN H_readData i (t\<lparr>kernel := k\<rparr>) = (Ret (), u)"
    using may_exit_Ret [OF Write_runs] unfolding senddata_1_def
    by (fastforce elim!: bnd_RetE simp: call_def get_xev_def prog_basics split: prod.splits if_splits)
  have fs: "fds (kernel u) = fds k" "call_back (xev u i) = H_readData"
    using eventset_1_fields [OF ev] assms(2) by simp_all
  show ?thesis
  proof (cases "0 < n")
    case True
    then show ?thesis
      using put assms(3) len fs
      by (intro exI [of _ "nat n"]) (auto simp: write_put_def min_absorb1 take_take)
  next
    case False
    then show ?thesis
      using put assms(3) len fs by (intro exI [of _ 0]) (auto simp: write_put_def)
  qed
qed

text \<open>
  One echo of the simple reactor. When \<^verbatim>\<open>readData\<close> goes over to sending it has taken \<open>n\<close> bytes, at
  most 1024, off the client's stream, and \<^verbatim>\<open>senddata\<close> sends the first \<open>m\<close> of exactly these
  bytes back and goes over to reading. The kernel chooses \<open>m\<close>: the other \<open>n - m\<close> bytes,
  all of them when the call fails, are never sent, because the result of \<^verbatim>\<open>Write\<close> is not looked at.
\<close>

theorem echo_once:
  assumes "inv_1 r" "i < EVENT_SIZE" "call_back (xev r i) = H_readData"
    "readData f i r = (Ret (), t)" "call_back (xev t i) = H_senddata" "senddata_1 f i t = (Ret (), u)"
  shows "\<exists>c n m. fds (kernel r) f = Some c \<and> 0 < n \<and> n \<le> BUF_LEN \<and> m \<le> n \<and> n \<le> length (rcvq c) \<and>
    fds (kernel u) f = Some (c\<lparr>rcvq := drop n (rcvq c), sndq := sndq c @ take m (rcvq c)\<rparr>) \<and>
    call_back (xev u i) = H_readData"
proof -
  have i: "i < length (myevents r)" "length (buf (xev r i)) = BUF_LEN"
    using inv_1D(1,2) [OF assms(1)] assms(2) by auto
  obtain c n where c: "fds (kernel r) f = Some c" "0 < n" "n \<le> BUF_LEN" "n \<le> length (rcvq c)"
    "fds (kernel t) f = Some (c\<lparr>rcvq := drop n (rcvq c)\<rparr>)" "buflen (xev t i) = int n"
    "take n (buf (xev t i)) = take n (rcvq c)" "i < length (myevents t)"
    using readData_bytes [OF assms(4) i assms(3,5)] by auto
  obtain m where m: "int m \<le> buflen (xev t i)" "call_back (xev u i) = H_readData"
    "fds (kernel u) f = Some (c\<lparr>rcvq := drop n (rcvq c), sndq := sndq c @ take m (buf (xev t i))\<rparr>)"
    using senddata_1_bytes [OF assms(6) c(8,5)] by auto
  have "m \<le> n" using m(1) c(6) by simp
  then have "take m (buf (xev t i)) = take m (rcvq c)"
    using arg_cong [OF c(7), of "take m"] by (simp add: take_take min_absorb1)
  with c m \<open>m \<le> n\<close> show ?thesis by auto
qed

text \<open>A server with \<open>n\<close> clients, whose peers have all sent \<open>bs\<close>.\<close>

definition demo_table :: "nat \<Rightarrow> answer list \<Rightarrow> byte list \<Rightarrow> reactor_1" where
  "demo_table n xs bs = \<lparr>kernel = (demo_os xs [])\<lparr>fds := (\<lambda>g. if 0 \<le> g \<and> g < 10 + int n
       then Some ((new_sock bs True)\<lparr>listening := True\<rparr>) else None)\<rparr>,
     tree = (\<lambda>g. if g = 3 then Some (EVENT_SIZE, EPOLLIN)
       else if 10 \<le> g \<and> g < 10 + int n then Some (nat (g - 10), EPOLLIN) else None),
     myevents = map (\<lambda>i. if i < n then \<lparr>fd = int i + 10, events = EPOLLIN, call_back = H_readData, buf = replicate BUF_LEN 0, buflen = 0\<rparr>
       else if i = EVENT_SIZE then \<lparr>fd = 3, events = EPOLLIN, call_back = H_initAccept, buf = replicate BUF_LEN 0, buflen = 0\<rparr>
       else \<lparr>fd = 0, events = 0, call_back = No_handler, buf = replicate BUF_LEN 0, buflen = 0\<rparr>) [0..<Suc EVENT_SIZE]\<rparr>"

lemma demo_table_at:
  "i \<le> EVENT_SIZE \<Longrightarrow> xev (demo_table n xs bs) i = (if i < n then \<lparr>fd = int i + 10, events = EPOLLIN, call_back = H_readData, buf = replicate BUF_LEN 0, buflen = 0\<rparr>
       else if i = EVENT_SIZE then \<lparr>fd = 3, events = EPOLLIN, call_back = H_initAccept, buf = replicate BUF_LEN 0, buflen = 0\<rparr>
       else \<lparr>fd = 0, events = 0, call_back = No_handler, buf = replicate BUF_LEN 0, buflen = 0\<rparr>)"
  by (simp add: demo_table_def nth_append)

lemma demo_table_inv: "n \<le> EVENT_SIZE \<Longrightarrow> inv_1 (demo_table n xs bs)"
proof -
  let ?r = "demo_table n xs bs"
  assume n: "n \<le> EVENT_SIZE"
  have fd: "fd (xev ?r i) = (if i < n then int i + 10 else if i = EVENT_SIZE then 3 else 0)"
    and b: "length (buf (xev ?r i)) = BUF_LEN" and ev: "events (xev ?r i) = (if i < n \<or> i = EVENT_SIZE then EPOLLIN else 0)"
    if "i \<le> EVENT_SIZE" for i
    using demo_table_at [OF that, of n xs bs] n by auto
  have ok: "slot_ok i (xev ?r i)" if "i \<le> EVENT_SIZE" "fd (xev ?r i) \<noteq> 0" for i
    using demo_table_at [OF that(1), of n xs bs] that n by (auto simp: slot_ok_def split: if_splits)
  have opn: "fds (kernel ?r) (fd (xev ?r i)) \<noteq> None" if "i \<le> EVENT_SIZE" for i
    using fd [OF that] by (auto simp: demo_table_def split: if_splits)
  have dist: "i = j" if "i \<le> EVENT_SIZE" "j \<le> EVENT_SIZE" "fd (xev ?r i) \<noteq> 0" "fd (xev ?r i) = fd (xev ?r j)" for i j
    using that(3,4) unfolding fd [OF that(1)] fd [OF that(2)] by (auto split: if_splits)
  have tr: "i \<le> EVENT_SIZE \<and> f \<noteq> 0 \<and> fd (xev ?r i) = f \<and> events (xev ?r i) = evs" if t: "tree ?r f = Some (i, evs)" for f i evs
  proof -
    have i: "i \<le> EVENT_SIZE" "f = 3 \<and> i = EVENT_SIZE \<and> evs = EPOLLIN \<or> 10 \<le> f \<and> i = nat (f - 10) \<and> i < n \<and> evs = EPOLLIN"
      using t n by (auto simp: demo_table_def split: if_splits)
    with fd [OF i(1)] ev [OF i(1)] n show ?thesis by auto
  qed
  have len: "length (myevents ?r) = Suc EVENT_SIZE" and zero: "fds (kernel ?r) 0 \<noteq> None"
    by (simp_all add: demo_table_def)
  have last: "fd (xev ?r EVENT_SIZE) \<noteq> 0" using fd [of EVENT_SIZE] n by simp
  show ?thesis
    unfolding inv_1_def using len b zero last ok opn dist tr by blast
qed

theorem echo_once_witness:
  "\<exists>(t :: reactor_1) u. readData 10 0 (demo_table 1 [ok 3, ok 2] [1, 2, 3]) = (Ret (), t) \<and> senddata_1 10 0 t = (Ret (), u) \<and>
     (\<exists>c. fds (kernel u) 10 = Some c \<and> sndq c = [1, 2] \<and> rcvq c = [] \<and> call_back (xev u 0) = H_readData)"
proof -
  let ?r = "demo_table 1 [ok 3, ok 2] [1, 2, 3]"
  have pos: "0 < EVENT_SIZE" "1 \<le> EVENT_SIZE" "BUF_LEN = 1024" by (simp_all add: EVENT_SIZE_def BUF_LEN_def)
  have r: "xev ?r 0 = \<lparr>fd = 10, events = EPOLLIN, call_back = H_readData, buf = replicate BUF_LEN 0, buflen = 0\<rparr>"
    "length (myevents ?r) = Suc EVENT_SIZE" "tree ?r 10 = Some (0, EPOLLIN)"
    "kernel ?r = (demo_os [ok 3, ok 2] [])\<lparr>fds := (\<lambda>g. if 0 \<le> g \<and> g < 11 then Some ((new_sock [1, 2, 3] True)\<lparr>listening := True\<rparr>) else None)\<rparr>"
    using demo_table_at [of 0 1] by (simp_all add: demo_table_def)
  moreover have "myevents ?r \<noteq> []" using r(2) by auto
  ultimately have "\<exists>t u. readData 10 0 ?r = (Ret (), t) \<and> call_back (xev t 0) = H_senddata \<and> senddata_1 10 0 t = (Ret (), u) \<and>
      map_option sndq (fds (kernel u) 10) = Some [1, 2] \<and> map_option rcvq (fds (kernel u) 10) = Some []"
    using pos
    by (simp add: readData_def senddata_1_def call_def bnd_def prog_basics set_xev_def get_xev_def eventset_1_def epoll_mod_def
        Read.simps Write.simps sys_read_def sys_write_def syscall_def demo_os_def new_sock_def set_fd_def Let_def)
  then obtain t u where tu: "readData 10 0 ?r = (Ret (), t)" "call_back (xev t 0) = H_senddata" "senddata_1 10 0 t = (Ret (), u)"
    "map_option sndq (fds (kernel u) 10) = Some [1, 2]" "map_option rcvq (fds (kernel u) 10) = Some []" by blast
  have "call_back (xev ?r 0) = H_readData" using r(1) by simp
  from echo_once [OF demo_table_inv [OF pos(2)] pos(1) this tu(1,2,3)] tu show ?thesis by auto
qed

text \<open>
  The 1025th client takes the listening socket's record. When all 1024 records are in use,
  \<^verbatim>\<open>initAccept\<close> stores the new connection in the record behind them, which is the listener's,
  while the listening socket stays registered with it. From then on a connection request
  calls \<^verbatim>\<open>readData\<close> on that client instead of \<^verbatim>\<open>initAccept\<close>: the server accepts no more.
\<close>

theorem full_table_takes_listener:
  assumes "inv_1 r" "first_free r = EVENT_SIZE" "tree r f = Some (EVENT_SIZE, EPOLLIN)" "initAccept f r = (Ret (), t)"
  shows "\<exists>n. n \<noteq> f \<and> fd (xev t EVENT_SIZE) = n \<and> fds (kernel r) n = None \<and> tree t f = Some (EVENT_SIZE, EPOLLIN) \<and>
    dispatch_1 (EVENT_SIZE, EPOLLIN) t = readData n EVENT_SIZE t"
proof -
  note inv = inv_1D [OF assms(1)]
  have f: "fd (xev r EVENT_SIZE) = f" "fds (kernel r) f \<noteq> None"
    using inv(8) [OF assms(3)] inv(6) [of EVENT_SIZE] by auto
  obtain n k where acc: "accepted (kernel r) n k"
    and add: "eventadd_1 n EPOLLIN H_readData EVENT_SIZE (r\<lparr>kernel := k\<rparr>) = (Ret (), t)"
    using assms(2,4) may_exit_Ret [OF Accept_runs] unfolding initAccept_def
    by (fastforce elim!: bnd_RetE simp: call_def gets_def first_free_def split: prod.splits)
  have n: "fds (kernel r) n = None" "n \<noteq> f" using acc f(2) by (auto simp: accepted_def)
  have t: "length (myevents t) = Suc EVENT_SIZE" "tree t f = tree r f"
    "xev t EVENT_SIZE = (xev r EVENT_SIZE)\<lparr>fd := n, events := EPOLLIN, call_back := H_readData\<rparr>"
    using add n(2) inv(1)
    by (auto simp: eventadd_1_def set_xev_def get_xev_def epoll_add_def call_def syscall_def bnd_def prog_basics
        split: list.splits answer.splits if_splits)
  have "dispatch_1 (EVENT_SIZE, EPOLLIN) t = readData n EVENT_SIZE t"
    using t(1,3) by (simp add: dispatch_1_def invoke_1_def get_xev_def bnd_def prog_basics EPOLLIN_def)
  with n t(2,3) assms(3) show ?thesis by auto
qed

theorem full_table_takes_listener_witness:
  "\<exists>t :: reactor_1. initAccept 3 (demo_table EVENT_SIZE [ok 2000, ok 0] []) = (Ret (), t) \<and>
     dispatch_1 (EVENT_SIZE, EPOLLIN) t = readData 2000 EVENT_SIZE t"
proof -
  let ?r = "demo_table EVENT_SIZE [ok 2000, ok 0] []"
  have "takeWhile (\<lambda>e. fd e \<noteq> 0) (take EVENT_SIZE (myevents ?r)) = take EVENT_SIZE (myevents ?r)"
    by (subst takeWhile_eq_all_conv) (auto simp: demo_table_def take_map)
  then have "first_free ?r = length (take EVENT_SIZE (myevents ?r))" by (simp only: first_free_def)
  then have free: "first_free ?r = EVENT_SIZE" by (simp add: demo_table_def)
  have r: "length (myevents ?r) = Suc EVENT_SIZE" "tree ?r 3 = Some (EVENT_SIZE, EPOLLIN)" "tree ?r 2000 = None"
    "kernel ?r = (demo_os [ok 2000, ok 0] [])\<lparr>fds := (\<lambda>g. if 0 \<le> g \<and> g < 1034 then Some ((new_sock [] True)\<lparr>listening := True\<rparr>) else None)\<rparr>"
    by (simp_all add: demo_table_def EVENT_SIZE_def del: upt_Suc)
  have "\<exists>t. initAccept 3 ?r = (Ret (), t) \<and> fd (xev t EVENT_SIZE) = 2000"
    using r free
    by (simp add: initAccept_def call_def bnd_def prog_basics Accept.simps sys_accept_def syscall_def open_fd_def set_fd_def
        demo_os_def new_sock_def first_free_def eventadd_1_def set_xev_def get_xev_def epoll_add_def)
  then obtain t where t: "initAccept 3 ?r = (Ret (), t)" "fd (xev t EVENT_SIZE) = 2000" by blast
  with full_table_takes_listener [OF demo_table_inv [OF order_refl] free r(2) t(1)] show ?thesis by auto
qed

end
