(* ===== verification/Threadpool_Shutdown.thy ===== *)
theory Threadpool_Shutdown
  imports Threadpool_Correct
begin

text \<open>
  What happens to the workers of the simple thread pool once \<^verbatim>\<open>destroy_threadpool\<close> has set the flag:
  how many steps they can still make, which tasks they still start, and when all of them end.
\<close>

section \<open>Counting the moves of the workers\<close>

text \<open>\<open>worker_moves s k t\<close>: a run from \<open>s\<close> to \<open>t\<close> in which \<open>k\<close> steps change where a worker is.\<close>

inductive worker_moves :: "'a threads \<Rightarrow> nat \<Rightarrow> 'a threads \<Rightarrow> bool" for x where
  none: "worker_moves x 0 x"
| still: "worker_moves x k y \<Longrightarrow> step y z \<Longrightarrow> wpc z = wpc y \<Longrightarrow> worker_moves x k z"
| move: "worker_moves x k y \<Longrightarrow> step y z \<Longrightarrow> wpc z \<noteq> wpc y \<Longrightarrow> worker_moves x (Suc k) z"

lemma worker_moves_reach: "worker_moves s k t \<Longrightarrow> reach x s \<Longrightarrow> reach x t"
  by (induction rule: worker_moves.induct) (auto intro: reach.more)

text \<open>How far a worker of a pool that is shut down is from its end.\<close>

definition w_rank :: "'a wpc \<Rightarrow> nat" where
  "w_rank c = (case c of WWait \<Rightarrow> 6 | WSleep \<Rightarrow> 5 | WRun t \<Rightarrow> 4 | WLock \<Rightarrow> 3 | WTest \<Rightarrow> 2 | WBody \<Rightarrow> 1 | WExit \<Rightarrow> 0)"

lemma w_rank_simps [simp]:
  "w_rank WWait = 6" "w_rank WSleep = 5" "w_rank (WRun t) = 4" "w_rank WLock = 3" "w_rank WTest = 2" "w_rank WBody = 1"
  "w_rank WExit = 0"
  by (simp_all add: w_rank_def)

definition ranks :: "nat \<Rightarrow> (nat \<Rightarrow> 'a wpc) \<Rightarrow> nat" where
  "ranks n f = (\<Sum>w<n. w_rank (f w))"

text \<open>Every worker stays or comes closer to its end.\<close>

definition winds :: "(nat \<Rightarrow> 'a wpc) \<Rightarrow> (nat \<Rightarrow> 'a wpc) \<Rightarrow> bool" where
  "winds f g \<longleftrightarrow> (\<forall>w. g w = f w \<or> w_rank (g w) < w_rank (f w))"

lemma winds_refl [simp]: "winds f f"
  by (simp add: winds_def)

lemma winds_upd: "w_rank c < w_rank (f w) \<Longrightarrow> winds f (f(w := c))"
  by (simp add: winds_def)

lemma winds_signalled: "signalled WSleep WLock f g \<Longrightarrow> winds f g"
  by (auto simp: signalled_def winds_def)

lemma winds_wake_all: "winds f (wake_all WSleep WLock f)"
  by (simp add: winds_def wake_all_def)

lemma winds_ranks: "winds f g \<Longrightarrow> ranks n g \<le> ranks n f"
  unfolding ranks_def by (rule sum_mono) (metis winds_def less_imp_le order_refl)

lemma winds_ranks_less:
  assumes "winds f g" "g \<noteq> f" "\<forall>w\<ge>n. f w = WExit"
  shows "ranks n g < ranks n f"
proof -
  obtain w where w: "w_rank (g w) < w_rank (f w)" using assms(1,2) by (metis ext winds_def)
  with assms(3) have "w < n" by (metis not_le not_less0 w_rank_simps(7))
  show ?thesis
    unfolding ranks_def
    by (rule sum_strict_mono_ex1) (use assms(1) w \<open>w < n\<close> in \<open>auto simp: winds_def intro: less_imp_le\<close>, metis less_imp_le order_refl)
qed

section \<open>After the flag is set\<close>

text \<open>The workers are those that were created; the others are \<open>WExit\<close> from the start.\<close>

definition workers_inv :: "'a threads \<Rightarrow> bool" where
  "workers_inv s \<longleftrightarrow> (\<forall>w. thr_num (pool s) \<le> int w \<longrightarrow> wpc s w = WExit)"

lemma workers_step_inv: "step s t \<Longrightarrow> data_inv s \<Longrightarrow> workers_inv s \<Longrightarrow> workers_inv t"
proof -
  assume st: "step s t" and inv: "data_inv s" "workers_inv s"
  have "wpc s w = WExit \<Longrightarrow> wpc t w = WExit" for w
    using st by cases (auto simp: signalled_def wake_all_def)
  with inv sizes_step [OF st inv(1)] show ?thesis by (simp add: workers_inv_def)
qed

lemma reach_crew:
  assumes "reach (start (create_threadpool n m junk)) s" "0 < m" "m \<le> INT_MAX" "length junk = nat m"
  shows "workers_inv s"
  using assms(1)
proof induction
  case refl
  show ?case by (simp add: workers_inv_def start_def)
next
  case (more y z)
  then show ?case using thread_invariants(2) [OF more.hyps(1) assms(2-4)] by (blast intro: workers_step_inv)
qed

text \<open>One step: no task is started, and no worker turns back.\<close>

lemma shut_step:
  assumes "step s t" "mutex_inv s" "data_inv s" "dpc s \<noteq> 0"
  shows "dpc t \<noteq> 0 \<and> started t = started s \<and> winds (wpc s) (wpc t)"
proof -
  have sd: "shutdown (pool s) \<noteq> 0" using assms(3,4) by (simp add: data_inv_def)
  from assms(1) show ?thesis
  proof cases
    case (w_run w x q pp)
    with data_take [OF assms(3,2), of w "Run x" q] sd show ?thesis by auto
  next
    case (w_wait w)
    with sd show ?thesis by (simp add: must_wait_def)
  next
    case (p_signal i ww)
    with assms(4) show ?thesis by (simp add: winds_signalled)
  next
    case d_broadcast
    then show ?thesis by (simp add: winds_wake_all)
  qed (use assms(4) in \<open>auto intro!: winds_upd\<close>)
qed

text \<open>No worker is missed: none is between its test and its sleep, or asleep, when the broadcast is over.\<close>

definition none_missed :: "'a threads \<Rightarrow> bool" where
  "none_missed s \<longleftrightarrow> dpc s = 2 \<and> (\<forall>w. wpc s w \<noteq> WWait \<and> wpc s w \<noteq> WSleep)"

lemma none_missed_step:
  assumes "step s t" "data_inv s" "none_missed s"
  shows "none_missed t"
proof -
  have sd: "shutdown (pool s) \<noteq> 0" using assms(2,3) by (simp add: data_inv_def none_missed_def)
  from assms(1) show ?thesis
    by cases (use assms(3) sd in \<open>auto simp: none_missed_def must_wait_def signalled_def\<close>)
qed

lemma moves_wind:
  assumes "worker_moves s k t" "reach (start (create_threadpool n m junk)) s" "0 < m" "m \<le> INT_MAX" "length junk = nat m" "dpc s \<noteq> 0"
  shows "dpc t \<noteq> 0 \<and> started t = started s \<and> k + ranks (nat n) (wpc t) \<le> ranks (nat n) (wpc s) \<and>
    (none_missed s \<longrightarrow> none_missed t)"
  using assms(1)
proof induction
  case none
  then show ?case using assms(6) by simp
next
  case (still k y z)
  have "reach (start (create_threadpool n m junk)) y" using still.hyps(1) assms(2) by (rule worker_moves_reach)
  note inv = thread_invariants [OF this assms(3-5)]
  show ?case using still shut_step [OF still.hyps(2) inv(1,2)] none_missed_step [OF still.hyps(2) inv(2)] by simp
next
  case (move k y z)
  have r: "reach (start (create_threadpool n m junk)) y" using move.hyps(1) assms(2) by (rule worker_moves_reach)
  note inv = thread_invariants [OF r assms(3-5)]
  have "\<forall>w\<ge>nat n. wpc y w = WExit" using reach_crew [OF r assms(3-5)] inv(5) by (simp add: workers_inv_def nat_le_iff)
  then show ?case
    using move shut_step [OF move.hyps(2) inv(1,2)] none_missed_step [OF move.hyps(2) inv(2)] winds_ranks_less [of "wpc y" "wpc z" "nat n"]
    by fastforce
qed

lemma ranks_bound: "\<forall>w. w_rank (f w) \<le> b \<Longrightarrow> ranks n f \<le> b * n"
  unfolding ranks_def using sum_bounded_above [of "{..<n}" "\<lambda>w. w_rank (f w)" b] by (simp add: mult.commute)


text \<open>A run that reaches the bound: the worker of a pool of one has started its task when the flag is set.\<close>

lemma run_down:
  "\<exists>s t. reach one_worker s \<and> dpc s = 2 \<and> (\<forall>w. wpc s w \<noteq> WWait \<and> wpc s w \<noteq> WSleep) \<and> map tasknum (started s) = [1000] \<and>
     worker_moves s 4 t \<and> (\<forall>w. wpc t w = WExit)"
proof -
  obtain r where r: "reach one_worker r" "dpc r = 0" "wpc r 0 = WRun (Some \<lparr>tasknum = 1000, arg = Arg_own, task_func = Fn_taskRun\<rparr>)"
    "map tasknum (started r) = [1000]" "ppc r = (\<lambda>_. PIdle)" "owner r = None" "job_num (pool r) = 0" "\<forall>w. w \<noteq> 0 \<longrightarrow> wpc r w = WExit"
    using run_one by auto
  define r1 where "r1 = r\<lparr>pool := (pool r)\<lparr>shutdown := 1\<rparr>, dpc := 1\<rparr>"
  define s where "s = r1\<lparr>wpc := wake_all WSleep WLock (wpc r1), dpc := 2\<rparr>"
  have "step r r1" unfolding r1_def using r(2) by (rule step.d_shutdown)
  moreover have "step r1 s" unfolding s_def by (rule step.d_broadcast) (simp add: r1_def)
  ultimately have "reach one_worker s" using r(1) by (meson reach.more)
  define s1 where "s1 = s\<lparr>wpc := (wpc s)(0 := WLock)\<rparr>"
  define s2 where "s2 = s1\<lparr>owner := Some (Worker 0), wpc := (wpc s1)(0 := WTest)\<rparr>"
  define s3 where "s3 = s2\<lparr>wpc := (wpc s2)(0 := WBody)\<rparr>"
  define t where "t = s3\<lparr>pool := pool s3, owner := None, wpc := (wpc s3)(0 := WExit), ppc := ppc s3,
      taken := taken s3 @ (case None of None \<Rightarrow> [] | Some x \<Rightarrow> [x])\<rparr>"
  have "wpc r w \<noteq> WSleep" for w by (cases "w = 0") (use r(3,8) in auto)
  then have at: "wpc s = wpc r" by (simp add: s_def r1_def wake_all_def fun_eq_iff)
  note d = s1_def s2_def s3_def t_def
  have "step s s1" unfolding s1_def
    by (rule step.w_done [where n = 1000 and q = "pool s"]) (simp add: at r, simp add: call_task_def bnd_def require_def ret_def)
  moreover have "step s1 s2" unfolding s2_def by (rule step.w_lock) (simp_all add: s1_def s_def r1_def r)
  moreover have "step s2 s3" unfolding s3_def by (rule step.w_go) (simp_all add: s2_def s1_def s_def r1_def must_wait_def)
  moreover have "step s3 t" unfolding t_def
    by (rule step.w_quit) (simp_all add: s3_def s2_def s1_def s_def r1_def r locked_simps)
  moreover have "wpc s1 \<noteq> wpc s" "wpc s2 \<noteq> wpc s1" "wpc s3 \<noteq> wpc s2" "wpc t \<noteq> wpc s3"
    by (simp_all add: d at r(3) fun_eq_iff)
  ultimately have "worker_moves s (Suc (Suc (Suc (Suc 0)))) t" by (meson worker_moves.intros)
  then have "worker_moves s 4 t" by (simp add: numeral_eq_Suc)
  moreover have "\<forall>w. wpc t w = WExit" using r(8) by (simp add: d at)
  moreover have "\<forall>w. wpc s w \<noteq> WWait \<and> wpc s w \<noteq> WSleep" using r(3,8) unfolding at by (metis wpc.distinct)
  ultimately show ?thesis using \<open>reach one_worker s\<close> r(4) by (intro exI [of _ s] exI [of _ t]) (simp add: s_def r1_def)
qed


lemma signalled_ex: "\<exists>g. signalled a b f g"
  by (cases "\<exists>i. f i = a") (auto simp: signalled_def)

text \<open>A worker that has its mutex, or does not need it, can go on.\<close>

lemma locked_goes_on:
  assumes "mutex_inv s" "data_inv s" "dpc s \<noteq> 0" "owner s = Some (Worker w)"
  shows "\<exists>u. step s u \<and> wpc u \<noteq> wpc s"
proof -
  have sd: "shutdown (pool s) \<noteq> 0" using assms(2,3) by (simp add: data_inv_def)
  from assms(1,4) have "w_holds (wpc s w)" by (simp add: mutex_w)
  then consider "wpc s w = WTest" | "wpc s w = WWait" | "wpc s w = WBody" by (auto simp: w_holds_def)
  then show ?thesis
  proof cases
    case 1
    with sd step.w_go [of s w] show ?thesis by (fastforce simp: must_wait_def fun_eq_iff)
  next
    case 2
    with step.w_sleep [of s w] show ?thesis by (fastforce simp: fun_eq_iff)
  next
    case 3
    obtain v q where q: "thrRun_locked (pool s) = (Ret v, q)" using assms(2) thrRun_locked_ret [of "pool s"] by (auto simp: data_inv_def)
    with data_take [OF assms(2,1) 3 q] sd obtain x where x: "v = Quit x" by auto
    obtain pp where "if x = None then pp = ppc s else signalled PSleep PLock (ppc s) pp"
      using signalled_ex [of PSleep PLock "ppc s"] by (cases x) auto
    with 3 q x step.w_quit [of s w x q pp] show ?thesis by (fastforce simp: fun_eq_iff)
  qed
qed

lemma awake_goes_on:
  assumes "mutex_inv s" "data_inv s" "none_missed s" "wpc s w \<noteq> WExit"
  shows "(\<exists>u. step s u \<and> wpc u \<noteq> wpc s) \<or> (\<exists>i. owner s = Some (Producer i))"
proof (cases "owner s")
  case (Some th)
  with assms show ?thesis by (cases th) (auto simp: none_missed_def dest: locked_goes_on)
next
  case None
  with mutex_w [OF assms(1), of w] assms(3,4) consider "wpc s w = WLock" | t where "wpc s w = WRun t"
    by (cases "wpc s w") (auto simp: none_missed_def)
  then show ?thesis
  proof cases
    case 1
    with None step.w_lock [of s w] show ?thesis by (fastforce simp: fun_eq_iff)
  next
    case (2 t)
    with assms(2) have "wpc_ok (pool s) (WRun t)" by (metis data_inv_def)
    then have "\<exists>k. call_task t (pool s) = (Ret k, pool s)" by (auto simp: call_task_def bnd_def require_def ret_def)
    with 2 step.w_done [of s w t] show ?thesis by (fastforce simp: fun_eq_iff)
  qed
qed



end
