(* ===== verification/Threadpool_Memory.thy ===== *)
theory Threadpool_Memory
  imports Threadpool_Simple Posix
begin

text \<open>
  The memory and the threads of the simple thread pool: \<^verbatim>\<open>create_threadpool\<close> and
  \<^verbatim>\<open>destroy_threadpool\<close> of \<^verbatim>\<open>threadpoolsimple.c\<close> and of its variant with epoll, with every
  allocation and every creation of a thread free to fail. The two files differ here only in
  the size of a task.
\<close>

section \<open>Threads\<close>

text \<open>
  An entry of the array \<^verbatim>\<open>threads\<close>: \<open>Absent\<close> is what a failed \<^verbatim>\<open>pthread_create\<close> leaves, the other
  two are threads by their detach state. Joining a thread that is not joinable is undefined; the
  join of a joinable one takes until the thread has ended.
\<close>

datatype pthread = Absent | Joinable | Detached

definition new_thread :: "pthread \<Rightarrow> pthread call" where
  "new_thread attr s = (case sched s of [] \<Rightarrow> (Block, s)
    | Err e # r \<Rightarrow> (Ret Absent, s\<lparr>sched := r\<rparr>)
    | Ok k bs f # r \<Rightarrow> (Ret attr, s\<lparr>sched := r\<rparr>))"

definition pthread_join :: "pthread \<Rightarrow> unit call" where
  "pthread_join d s = (if d = Joinable then (case sched s of [] \<Rightarrow> (Block, s) | a # r \<Rightarrow> (Ret (), s\<lparr>sched := r\<rparr>)) else (Fault, s))"

text \<open>The heap blocks of a pool (\<open>None\<close> is a null pointer) and the entries of \<^verbatim>\<open>threads\<close>.\<close>

record pool_blocks =
  pool_block :: nat
  tasks_block :: "nat option"
  threads_block :: "nat option"
  ids :: "pthread list"

section \<open>Creation\<close>

text \<open>The attribute with which \<^verbatim>\<open>create_threadpool\<close> creates its threads.\<close>

definition thread_attr :: pthread where
  "thread_attr = Detached"

text \<open>\<open>k\<close> threads are still to be created; the store needs the array.\<close>

fun create_threads :: "nat option \<Rightarrow> nat \<Rightarrow> pthread list call" where
  "create_threads arr 0 = ret []"
| "create_threads arr (Suc k) =
     bnd (require (arr \<noteq> None)) (\<lambda>_.
     bnd (new_thread thread_attr) (\<lambda>d.
     bnd (create_threads arr k) (\<lambda>ds. ret (d # ds))))"

text \<open>
  \<open>tsize\<close> is \<^verbatim>\<open>sizeof(PoolTask)\<close>; the 184 bytes of the pool are those of a 64-bit Linux. \<open>mem\<close> is
  what the memory of the tasks holds; without memory there are no tasks.
\<close>

definition create_pool :: "nat \<Rightarrow> int \<Rightarrow> int \<Rightarrow> 'a PoolTask_scheme list \<Rightarrow> ('a ThreadPool \<times> pool_blocks) call" where
  "create_pool tsize thrnum maxtasknum mem =
     bnd (malloc 184) (\<lambda>b. case b of None \<Rightarrow> fault
     | Some b \<Rightarrow>
     bnd (malloc ((tsize * c_size maxtasknum) mod 2 ^ 64)) (\<lambda>t.
     bnd (malloc ((8 * c_size thrnum) mod 2 ^ 64)) (\<lambda>h.
     bnd (create_threads h (nat thrnum)) (\<lambda>ds.
     ret (create_threadpool thrnum maxtasknum (if t = None then [] else mem),
       \<lparr>pool_block = b, tasks_block = t, threads_block = h, ids = ds\<rparr>)))))"

section \<open>Release\<close>

fun join_all :: "pthread list \<Rightarrow> unit call" where
  "join_all [] = ret ()"
| "join_all (d # ds) = bnd (pthread_join d) (\<lambda>_. join_all ds)"

definition free_block :: "nat option \<Rightarrow> unit call" where
  "free_block b = (case b of None \<Rightarrow> ret () | Some b \<Rightarrow> free b)"

text \<open>
  \<^verbatim>\<open>destroy_threadpool\<close> after its flag and its broadcast, which are steps of the threads.
\<close>

definition destroy_pool :: "'a ThreadPool \<times> pool_blocks \<Rightarrow> unit call" where
  "destroy_pool pb = (case pb of (p, b) \<Rightarrow>
     bnd (join_all (take (nat (thr_num p)) (ids b))) (\<lambda>_.
     bnd (free_block (tasks_block b)) (\<lambda>_.
     bnd (free_block (threads_block b)) (\<lambda>_.
     free (pool_block b)))))"

section \<open>What they do\<close>

abbreviation the_block :: "nat option \<Rightarrow> nat list" where
  "the_block b \<equiv> (case b of None \<Rightarrow> [] | Some b \<Rightarrow> [b])"

text \<open>An allocation of a size the heap can have fails only when the kernel says so.\<close>

definition failing :: "os \<Rightarrow> bool" where
  "failing s \<longleftrightarrow> (\<exists>e. Err e \<in> set (sched s))"

lemma malloc_more:
  "runs (malloc n) (\<lambda>x t. (failing t \<longrightarrow> failing s) \<and> live t = the_block x @ live s \<and>
     (n \<le> PTRDIFF_MAX \<and> x = None \<longrightarrow> failing s)) never s"
  by (auto simp: runs_def malloc_def syscall_def fail_with_def ret_def failing_def split: sys_splits)

lemma create_threads_runs:
  "runs (create_threads arr k) (\<lambda>ds t. live t = live s \<and> (0 < k \<longrightarrow> arr \<noteq> None) \<and> length ds = k \<and> set ds \<subseteq> {Absent, Detached} \<and>
      (\<not> failing s \<longrightarrow> ds = replicate k Detached)) (\<lambda>_. arr = None \<and> 0 < k) s"
proof (induction k arbitrary: s)
  case 0
  show ?case by (simp add: runs_ret)
next
  case (Suc k)
  have new: "runs (new_thread thread_attr) (\<lambda>d t. live t = live s \<and> (failing t \<longrightarrow> failing s) \<and> (d = Absent \<or> d = Detached) \<and>
      (\<not> failing s \<longrightarrow> d = Detached)) never s"
    by (auto simp: runs_def new_thread_def thread_attr_def failing_def split: list.splits answer.splits)
  show ?case
    unfolding create_threads.simps
  proof (rule runs_bnd_require, rule runs_bnd [OF new], goal_cases)
    case (1 d t)
    show ?case by (rule runs_bnd [OF Suc.IH]) (use 1 in \<open>auto intro!: runs_ret\<close>)
  qed auto
qed

text \<open>
  A new pool: which blocks it owns, what its ring and its threads are. On a kernel that grants
  every request nothing is missing.
\<close>

definition new_pool :: "nat \<Rightarrow> int \<Rightarrow> int \<Rightarrow> 'a PoolTask_scheme list \<Rightarrow> os \<Rightarrow> 'a ThreadPool \<times> pool_blocks \<Rightarrow> os \<Rightarrow> bool" where
  "new_pool k n m mem s pb t \<longleftrightarrow> (case pb of (p, b) \<Rightarrow>
     p = create_threadpool n m (if tasks_block b = None then [] else mem) \<and>
     live t = the_block (threads_block b) @ the_block (tasks_block b) @ pool_block b # live s \<and>
     (0 < n \<longrightarrow> threads_block b \<noteq> None) \<and> length (ids b) = nat n \<and> set (ids b) \<subseteq> {Absent, Detached} \<and>
     (\<not> failing s \<and> 0 \<le> m \<and> m \<le> INT_MAX \<and> k \<le> 2 ^ 31 \<longrightarrow> tasks_block b \<noteq> None \<and> ids b = replicate (nat n) Detached))"

lemma task_array: "0 \<le> m \<Longrightarrow> m \<le> INT_MAX \<Longrightarrow> k \<le> 2 ^ 31 \<Longrightarrow> (k * c_size m) mod 2 ^ 64 \<le> PTRDIFF_MAX"
proof -
  assume a: "0 \<le> m" "m \<le> INT_MAX" "k \<le> 2 ^ 31"
  then have "k * nat m \<le> 2 ^ 31 * nat INT_MAX" by (intro mult_le_mono nat_mono)
  with a show ?thesis by (simp add: INT_MAX_def PTRDIFF_MAX_def)
qed

text \<open>The two arrays and the threads, once the pool itself is allocated.\<close>

lemma create_arrays_runs:
  assumes "n \<le> INT_MAX" "live s1 = b # live s" "failing s1 \<longrightarrow> failing s"
  shows "runs (bnd (malloc ((k * c_size m) mod 2 ^ 64)) (\<lambda>t.
      bnd (malloc ((8 * c_size n) mod 2 ^ 64)) (\<lambda>h.
      bnd (create_threads h (nat n)) (\<lambda>ds.
      ret (create_threadpool n m (if t = None then [] else mem),
        \<lparr>pool_block = b, tasks_block = t, threads_block = h, ids = ds\<rparr>)))))
    (new_pool k n m mem s) (\<lambda>_. failing s) s1"
proof (rule runs_bnd [OF malloc_more])
  fix t s2 assume t: "(failing s2 \<longrightarrow> failing s1) \<and> live s2 = the_block t @ live s1 \<and>
    ((k * c_size m) mod 2 ^ 64 \<le> PTRDIFF_MAX \<and> t = None \<longrightarrow> failing s1)"
  show "runs (bnd (malloc ((8 * c_size n) mod 2 ^ 64)) (\<lambda>h.
      bnd (create_threads h (nat n)) (\<lambda>ds.
      ret (create_threadpool n m (if t = None then [] else mem),
        \<lparr>pool_block = b, tasks_block = t, threads_block = h, ids = ds\<rparr>))))
    (new_pool k n m mem s) (\<lambda>_. failing s) s2"
  proof (rule runs_bnd [OF malloc_more])
    fix h s3 assume h: "(failing s3 \<longrightarrow> failing s2) \<and> live s3 = the_block h @ live s2 \<and>
      ((8 * c_size n) mod 2 ^ 64 \<le> PTRDIFF_MAX \<and> h = None \<longrightarrow> failing s2)"
    show "runs (bnd (create_threads h (nat n)) (\<lambda>ds.
        ret (create_threadpool n m (if t = None then [] else mem),
          \<lparr>pool_block = b, tasks_block = t, threads_block = h, ids = ds\<rparr>)))
      (new_pool k n m mem s) (\<lambda>_. failing s) s3"
    proof (rule runs_bnd [OF create_threads_runs], rule runs_ret)
      show "failing s" if "h = None \<and> 0 < nat n"
        using that assms t h task_array [of n 8] by auto
    qed (use assms t h task_array [of m k] in \<open>auto simp: new_pool_def\<close>)
  qed simp
qed simp

lemma create_pool_runs:
  assumes "n \<le> INT_MAX"
  shows "runs (create_pool k n m mem) (new_pool k n m mem s) (\<lambda>_. failing s) s"
  unfolding create_pool_def
proof (rule runs_bnd [OF malloc_more], goal_cases)
  case (1 b s1)
  show ?case
  proof (cases b)
    case None
    with 1 show ?thesis by (auto simp: runs_def fault_def PTRDIFF_MAX_def)
  next
    case (Some a)
    then show ?thesis unfolding Some option.case by (intro create_arrays_runs [OF assms]) (use 1 Some in simp_all)
  qed
qed simp

section \<open>The end of a pool\<close>

lemma join_all_undefined: "ds \<noteq> [] \<Longrightarrow> set ds \<subseteq> {Absent, Detached} \<Longrightarrow> join_all ds s = (Fault, s)"
  by (cases ds) (auto simp: pthread_join_def)

text \<open>
  C29: \<^verbatim>\<open>create_threadpool\<close> followed by \<^verbatim>\<open>destroy_threadpool\<close>, on every kernel: it returns only for a pool
  without threads, and then all memory is given back. With a thread, \<^verbatim>\<open>destroy_threadpool\<close> always
  has undefined behaviour before it frees anything: it joins threads that were created detached.
\<close>

theorem create_destroy_outcome:
  assumes "n \<le> INT_MAX"
  shows "case bnd (create_pool k n m mem) destroy_pool s of
      (Ret _, t) \<Rightarrow> n \<le> 0 \<and> live t = live s
    | (Fault, t) \<Rightarrow> failing s \<or> 0 < n \<and> (\<exists>pb. new_pool k n m mem s pb t)
    | (Block, t) \<Rightarrow> True
    | (Exit c, t) \<Rightarrow> False"
proof -
  have "runs (bnd (create_pool k n m mem) destroy_pool) (\<lambda>_ t. n \<le> 0 \<and> live t = live s)
    (\<lambda>t. failing s \<or> 0 < n \<and> (\<exists>pb. new_pool k n m mem s pb t)) s"
  proof (rule runs_bnd [OF create_pool_runs [OF assms]], goal_cases)
    case (1 pb t)
    obtain p b where pb: "pb = (p, b)" by fastforce
    with 1 have new: "thr_num p = n" "length (ids b) = nat n" "set (ids b) \<subseteq> {Absent, Detached}"
      "live t = the_block (threads_block b) @ the_block (tasks_block b) @ pool_block b # live s"
      by (auto simp: new_pool_def create_threadpool_def)
    show ?case
    proof (cases "0 < n")
      case True
      with new have "destroy_pool pb t = (Fault, t)"
        using join_all_undefined [of "ids b" t] by (cases "ids b") (auto simp: destroy_pool_def pb bnd_def)
      with True 1 pb show ?thesis by (auto simp: runs_def)
    next
      case False
      with new show ?thesis
        by (auto simp: destroy_pool_def pb runs_def free_block_def free_def bnd_def ret_def split: option.splits)
    qed
  qed simp
  then show ?thesis unfolding runs_def .
qed

lemmas create_run_defs = create_pool_def create_threadpool_def destroy_pool_def new_thread_def pthread_join_def thread_attr_def malloc_def syscall_def
  bnd_def prog_basics PTRDIFF_MAX_def c_size_def demo_os_def

theorem create_destroy_outcome_witness:
  "\<exists>t. bnd (create_pool 24 1 1 ([] :: PoolTask list)) destroy_pool (demo_os (map ok [0, 0, 0, 0]) []) = (Fault, t) \<and> length (live t) = 3"
proof -
  let ?s = "demo_os (map ok [0, 0, 0, 0]) []"
  have f: "\<exists>t. bnd (create_pool 24 1 1 ([] :: PoolTask list)) destroy_pool ?s = (Fault, t)" by (simp add: create_run_defs)
  have "\<not> failing ?s" by (simp add: failing_def demo_os_def)
  with f create_destroy_outcome [where n = 1 and k = 24 and m = 1 and mem = "[] :: PoolTask list" and s = ?s] show ?thesis
    by (auto simp: INT_MAX_def new_pool_def demo_os_def)
qed

end
