(* ===== verification/Threadpool_Main.thy ===== *)
theory Threadpool_Main
  imports Threadpool_Shutdown Threadpool_Memory
begin

text \<open>
  \<^verbatim>\<open>threadpoolsimple.c\<close> as a program: \<^verbatim>\<open>create_threadpool\<close> with its memory gives the state from which
  the threads start, and \<^verbatim>\<open>main\<close> is one more thread, which adds fifty tasks and shuts the pool down.
\<close>

section \<open>From the new pool to its threads\<close>

text \<open>A worker exists for every entry of \<^verbatim>\<open>threads\<close> that was created.\<close>

definition start_with :: "'a ThreadPool \<times> pool_blocks \<Rightarrow> 'a threads" where
  "start_with pb = (case pb of (p, b) \<Rightarrow>
     (start p)\<lparr>wpc := \<lambda>i. if i < length (ids b) \<and> ids b ! i \<noteq> Absent then WLock else WExit\<rparr>)"

lemma start_with_wpc: "wpc (start_with (p, b)) i = (if i < length (ids b) \<and> ids b ! i \<noteq> Absent then WLock else WExit)"
  by (simp add: start_with_def)

lemma start_with_all: "ids b = replicate (nat n) Detached \<Longrightarrow> start_with (create_threadpool n m mem, b) = start (create_threadpool n m mem)"
  by (auto simp: start_with_def start_def create_threadpool_def fun_eq_iff)

text \<open>
  What \<^verbatim>\<open>create_threadpool\<close> leaves, on every kernel: an empty, open pool of the given sizes that
  owns its two arrays, and one thread for every entry the kernel granted. When the kernel grants
  everything, the threads start in the state all properties of the pool are stated for. The
  only undefined behaviour is the use of a null pointer that \<^verbatim>\<open>malloc\<close> returned.
\<close>

theorem create_pool_outcome:
  assumes "n \<le> INT_MAX" "0 \<le> m" "m \<le> INT_MAX" "k \<le> 2 ^ 31"
  shows "case create_pool k n m mem s of
      (Ret (p, b), t) \<Rightarrow> p = create_threadpool n m (if tasks_block b = None then [] else mem) \<and>
        live t = the_block (threads_block b) @ the_block (tasks_block b) @ pool_block b # live s \<and>
        (\<forall>w. wpc (start_with (p, b)) w = WExit \<or> wpc (start_with (p, b)) w = WLock \<and> int w < n) \<and>
        (\<not> failing s \<longrightarrow> start_with (p, b) = start (create_threadpool n m mem))
    | (Fault, t) \<Rightarrow> failing s
    | (Block, t) \<Rightarrow> True
    | (Exit c, t) \<Rightarrow> False"
proof -
  have "runs (create_pool k n m mem) (\<lambda>(p, b) t. p = create_threadpool n m (if tasks_block b = None then [] else mem) \<and>
        live t = the_block (threads_block b) @ the_block (tasks_block b) @ pool_block b # live s \<and>
        (\<forall>w. wpc (start_with (p, b)) w = WExit \<or> wpc (start_with (p, b)) w = WLock \<and> int w < n) \<and>
        (\<not> failing s \<longrightarrow> start_with (p, b) = start (create_threadpool n m mem))) (\<lambda>_. failing s) s"
    by (intro runs_mono [OF create_pool_runs [OF assms(1)]])
      (use assms in \<open>auto simp: new_pool_def start_with_wpc start_with_all\<close>)
  then show ?thesis by (auto simp: runs_def split: prod.splits res.splits)
qed

section \<open>The program\<close>

text \<open>
  \<^verbatim>\<open>main\<close> is producer 0: \<open>k\<close> is the number of calls of \<^verbatim>\<open>addtask\<close> it has made. Between two calls and
  while one runs, the workers go on; after the fifty calls (and a sleep) it calls
  \<^verbatim>\<open>destroy_threadpool\<close>. No other producer exists.
\<close>

inductive main_step :: "'a threads \<times> nat \<Rightarrow> 'a threads \<times> nat \<Rightarrow> bool" where
  m_call: "k < 50 \<Longrightarrow> dpc s = 0 \<Longrightarrow> ppc s 0 = PIdle \<Longrightarrow> main_step (s, k) (s\<lparr>ppc := (ppc s)(0 := PLock)\<rparr>, Suc k)"
| m_inside: "step s t \<Longrightarrow> dpc t = dpc s \<Longrightarrow> (\<And>i. ppc s i = PIdle \<Longrightarrow> ppc t i = PIdle) \<Longrightarrow> main_step (s, k) (t, k)"
| m_destroy: "k = 50 \<Longrightarrow> ppc s 0 = PIdle \<Longrightarrow> step s t \<Longrightarrow> dpc t = Suc (dpc s) \<Longrightarrow> main_step (s, k) (t, k)"

lemma main_step_step: "main_step (s, k) (t, l) \<Longrightarrow> step s t"
  by (erule main_step.cases) (auto intro: step.p_call)

text \<open>Whether \<^verbatim>\<open>main\<close> is in a call that has not stored its task yet.\<close>

definition pending :: "ppc \<Rightarrow> nat" where
  "pending c = (if c = PLock \<or> c = PTest \<or> c = PWait \<or> c = PSleep then 1 else 0)"

lemma pending_simps [simp]:
  "pending PIdle = 0" "pending PLock = 1" "pending PTest = 1" "pending PWait = 1" "pending PSleep = 1" "pending PSignal = 0"
  by (simp_all add: pending_def)

lemma pending_step:
  assumes "step s t" "ppc s 0 \<noteq> PIdle \<or> ppc t 0 = PIdle" "\<And>i. i \<noteq> 0 \<Longrightarrow> ppc s i = PIdle"
  shows "length (added t) + pending (ppc t 0) = length (added s) + pending (ppc s 0)"
  using assms(1)
proof cases
  case (w_run w x q pp)
  then have "pending (pp 0) = pending (ppc s 0)" by (auto simp: signalled_def split: if_splits)
  with w_run show ?thesis by simp
next
  case (w_quit w x q pp)
  then have "pending (pp 0) = pending (ppc s 0)" by (auto simp: signalled_def split: if_splits)
  with w_quit show ?thesis by simp
next
  case (p_add i g q)
  with assms(3) [of i] have "i = 0" by (metis ppc.distinct(3))
  with p_add show ?thesis by simp
qed (use assms(2,3) in \<open>auto dest: arg_cong [where f = pending]\<close>)

text \<open>What has been started is the first part of what has been taken.\<close>

lemma started_taken:
  assumes "reach (start (create_threadpool n m mem)) s" "0 < m" "m \<le> INT_MAX" "length mem = nat m"
  shows "\<exists>us. taken s = started s @ us"
  using assms(1)
proof induction
  case refl
  show ?case by (simp add: start_def)
next
  case (more y z)
  note inv = thread_invariants [OF more.hyps(1) assms(2-4)]
  show ?case
  proof (cases "dpc y = 0")
    case True
    with inv(2) have "started y = taken y" by (simp add: data_inv_def)
    with more.hyps(2) show ?thesis by cases auto
  next
    case False
    with shut_step [OF more.hyps(2) inv(1,2)] have "started z = started y" by simp
    moreover have "\<exists>us. taken z = taken y @ us" using more.hyps(2) by cases auto
    ultimately show ?thesis using more.IH by auto
  qed
qed

lemma prefix_upto:
  assumes "xs @ ys = [i..n]"
  shows "xs = [i..i + int (length xs) - 1]"
proof (cases "xs = []")
  case False
  then have "i + int (length xs) - 1 \<le> n" using arg_cong [OF assms, of length] by (cases xs) auto
  then have "[i..n] = [i..i + int (length xs) - 1] @ [i + int (length xs)..n]"
    using upto_split2 [of i "i + int (length xs) - 1" n] False by (cases xs) (auto simp: ac_simps)
  with assms show ?thesis by (simp add: append_eq_append_conv)
qed simp

definition main_inv :: "'a threads \<Rightarrow> nat \<Rightarrow> bool" where
  "main_inv s k \<longleftrightarrow> k \<le> 50 \<and> (\<forall>i. i \<noteq> 0 \<longrightarrow> ppc s i = PIdle) \<and> length (added s) + pending (ppc s 0) = k \<and>
     (dpc s \<noteq> 0 \<longrightarrow> k = 50 \<and> ppc s 0 = PIdle)"

lemma main_inv_step:
  assumes "main_step (s, k) (t, l)" "main_inv s k"
  shows "main_inv t l"
  using assms(1)
proof cases
  case m_call
  with assms(2) show ?thesis by (auto simp: main_inv_def)
next
  case m_inside
  with pending_step [of s t] assms(2) show ?thesis by (auto simp: main_inv_def)
next
  case m_destroy
  from m_destroy(4,5) have "ppc t = ppc s \<and> added t = added s" by cases auto
  with m_destroy assms(2) show ?thesis by (auto simp: main_inv_def)
qed

lemma main_reach:
  assumes "main_step\<^sup>*\<^sup>* (start p, 0) (s, k)"
  shows "reach (start p) s \<and> main_inv s k"
  using assms
proof (induction "(s, k)" arbitrary: s k rule: rtranclp_induct)
  case base
  then show ?case by (auto simp: main_inv_def start_def intro: reach.refl)
next
  case (step y)
  then show ?case by (cases y) (auto intro: reach.more main_step_step main_inv_step)
qed


section \<open>A complete run\<close>

text \<open>The state after \<open>k\<close> tasks were added and done, one after the other.\<close>

definition calm :: "nat \<Rightarrow> PoolTask list \<Rightarrow> PoolTask list \<Rightarrow> PoolTask list \<Rightarrow> unit threads" where
  "calm k ts ys xs = \<lparr>pool = \<lparr>max_job_num = 20, job_num = 0, tasks = ts, job_push = int k, job_pop = int k, thr_num = 3, shutdown = 0\<rparr>,
     owner = None, wpc = (\<lambda>i. if i < 3 then WLock else WExit), ppc = (\<lambda>_. PIdle), dpc = 0, number = 1000 + int k,
     added = ys, taken = xs, started = xs\<rparr>"

lemma calm_start: "length mem = 20 \<Longrightarrow> start (create_threadpool 3 20 mem) = calm 0 mem [] []"
  by (auto simp: start_def create_threadpool_def calm_def fun_eq_iff)

lemma inside_step:
  assumes "main_step\<^sup>*\<^sup>* x (s, k)" "step s t" "dpc t = dpc s" "\<And>i. ppc s i = PIdle \<Longrightarrow> ppc t i = PIdle"
  shows "main_step\<^sup>*\<^sup>* x (t, k)"
  using assms by (blast intro: rtranclp.rtrancl_into_rtrancl main_step.m_inside)

text \<open>The same state with the task \<open>y\<close> added and not yet taken.\<close>

definition loaded :: "nat \<Rightarrow> PoolTask list \<Rightarrow> PoolTask \<Rightarrow> PoolTask list \<Rightarrow> PoolTask list \<Rightarrow> unit threads" where
  "loaded k ts y ys xs = (calm k ts ys xs)\<lparr>pool := (pool (calm k ts ys xs))\<lparr>job_push := int (Suc k), tasks := ts[k mod 20 := y], job_num := 1\<rparr>,
     number := 1000 + int (Suc k), added := ys @ [y]\<rparr>"

definition kth_task :: "nat \<Rightarrow> PoolTask" where
  "kth_task k = \<lparr>tasknum = 1000 + int k, arg = Arg_slot (k mod 20), task_func = Fn_taskRun\<rparr>"

lemmas calm_defs = calm_def loaded_def kth_task_def

lemma fill_kth: "fill_task n i (t :: PoolTask) = \<lparr>tasknum = n, arg = Arg_slot i, task_func = Fn_taskRun\<rparr>"
  by (simp add: fill_task_def)

lemma add_kth:
  assumes "length ts = 20" "k < 50"
  shows "addtask_locked (\<lambda>i t. fill_task (1000 + int k) i t) (pool (calm k ts ys xs)) =
    (Ret (), pool (loaded k ts (kth_task k) ys xs))"
proof -
  have "c_rem (int k) 20 = int (k mod 20)" by (simp add: c_rem_nonneg zmod_int)
  with assms show ?thesis
    by (simp add: calm_defs fill_kth addtask_locked_def bnd_def gets_def require_def ret_def modify_def Let_def INT_MAX_def)
qed

lemma take_kth:
  assumes "length ts = 20" "k < 50"
  shows "thrRun_locked (pool (loaded k ts (kth_task k) ys xs)) =
    (Ret (Run (Some (own (kth_task k)))), pool (calm (Suc k) (ts[k mod 20 := kth_task k]) ys xs))"
proof -
  have "c_rem (int k) 20 = int (k mod 20)" by (simp add: c_rem_nonneg zmod_int)
  with assms show ?thesis
    by (simp add: calm_defs thrRun_locked_def take_task_def bnd_def gets_def require_def ret_def modify_def Let_def INT_MAX_def)
qed

lemma calm_add:
  assumes "length ts = 20" "k < 50"
  shows "main_step\<^sup>*\<^sup>* (calm k ts ys xs, k) (loaded k ts (kth_task k) ys xs, Suc k)"
proof -
  let ?s0 = "calm k ts ys xs" and ?y = "kth_task k"
  define s1 where "s1 = ?s0\<lparr>ppc := (ppc ?s0)(0 := PLock)\<rparr>"
  define s2 where "s2 = s1\<lparr>owner := Some (Producer 0), ppc := (ppc s1)(0 := PTest)\<rparr>"
  define q where "q = pool (loaded k ts ?y ys xs)"
  define s3 where "s3 = s2\<lparr>pool := q, owner := None, ppc := (ppc s2)(0 := PSignal), number := number s2 + 1,
      added := added s2 @ [last (queue q)]\<rparr>"
  define s4 where "s4 = s3\<lparr>ppc := (ppc s3)(0 := PIdle), wpc := wpc s3\<rparr>"
  note d = calm_defs s1_def s2_def s3_def s4_def q_def
  have "main_step (?s0, k) (s1, Suc k)" unfolding s1_def using assms(2) by (intro main_step.m_call) (simp_all add: calm_def)
  then have "main_step\<^sup>*\<^sup>* (?s0, k) (s1, Suc k)" by (rule r_into_rtranclp)
  then have "main_step\<^sup>*\<^sup>* (?s0, k) (s2, Suc k)"
    by (rule inside_step) (unfold s2_def, rule step.p_lock, simp_all add: d split: if_splits)
  then have "main_step\<^sup>*\<^sup>* (?s0, k) (s3, Suc k)"
    by (rule inside_step) (unfold s3_def, rule step.p_add [where g = "\<lambda>t. t"],
      use assms(2) add_kth [OF assms, of ys xs] in \<open>simp_all add: s1_def s2_def q_def calm_def full_def INT_MAX_def split: if_splits\<close>)
  then have "main_step\<^sup>*\<^sup>* (?s0, k) (s4, Suc k)"
    by (rule inside_step) (unfold s4_def, rule step.p_signal, simp_all add: d signalled_def)
  moreover have "s4 = loaded k ts ?y ys xs"
    using assms(1) by (auto simp: d fun_eq_iff queue_def ring_def)
  ultimately show ?thesis by simp
qed

lemma loaded_done:
  assumes "length ts = 20" "k < 50"
  shows "main_step\<^sup>*\<^sup>* (loaded k ts (kth_task k) ys xs, l)
    (calm (Suc k) (ts[k mod 20 := kth_task k]) (ys @ [kth_task k]) (xs @ [own (kth_task k)]), l)"
proof -
  let ?s4 = "loaded k ts (kth_task k) ys xs" and ?x = "own (kth_task k)"
  define s5 where "s5 = ?s4\<lparr>owner := Some (Worker 0), wpc := (wpc ?s4)(0 := WTest)\<rparr>"
  define s6 where "s6 = s5\<lparr>wpc := (wpc s5)(0 := WBody)\<rparr>"
  define s7 where "s7 = s6\<lparr>pool := pool (calm (Suc k) (ts[k mod 20 := kth_task k]) ys xs), owner := None,
      wpc := (wpc s6)(0 := WRun (Some ?x)), ppc := ppc s6, taken := taken s6 @ (case Some ?x of None \<Rightarrow> [] | Some x \<Rightarrow> [x]),
      started := started s6 @ (case Some ?x of None \<Rightarrow> [] | Some x \<Rightarrow> [x])\<rparr>"
  define s8 where "s8 = s7\<lparr>wpc := (wpc s7)(0 := WLock)\<rparr>"
  note d = calm_defs s5_def s6_def s7_def s8_def
  have "main_step\<^sup>*\<^sup>* (?s4, l) (s5, l)"
    by (rule inside_step [OF rtranclp.rtrancl_refl]) (unfold s5_def, rule step.w_lock, simp_all add: d)
  then have "main_step\<^sup>*\<^sup>* (?s4, l) (s6, l)"
    by (rule inside_step) (unfold s6_def, rule step.w_go, simp_all add: d locked_simps)
  then have "main_step\<^sup>*\<^sup>* (?s4, l) (s7, l)"
    by (rule inside_step) (unfold s7_def, rule step.w_run,
      use take_kth [OF assms, of ys xs] in \<open>simp_all add: s6_def s5_def signalled_def calm_def loaded_def\<close>)
  then have "main_step\<^sup>*\<^sup>* (?s4, l) (s8, l)"
    by (rule inside_step) (unfold s8_def, rule step.w_done [where t = "Some ?x" and n = "1000 + int k" and q = "pool s7"],
      simp_all add: d locked_simps)
  moreover have "s8 = calm (Suc k) (ts[k mod 20 := kth_task k]) (ys @ [kth_task k]) (xs @ [?x])"
    by (auto simp: d fun_eq_iff)
  ultimately show ?thesis by simp
qed

lemma calm_all:
  assumes "length mem = 20" "k \<le> 50"
  shows "\<exists>ts ys xs. length ts = 20 \<and> length xs = k \<and> main_step\<^sup>*\<^sup>* (calm 0 mem [] [], 0) (calm k ts ys xs, k)"
  using assms(2)
proof (induction k)
  case 0
  with assms(1) show ?case by blast
next
  case (Suc k)
  then obtain ts ys xs where k: "length ts = 20" "length xs = k" "main_step\<^sup>*\<^sup>* (calm 0 mem [] [], 0) (calm k ts ys xs, k)" by auto
  have "main_step\<^sup>*\<^sup>* (calm k ts ys xs, k) (calm (Suc k) (ts[k mod 20 := kth_task k]) (ys @ [kth_task k]) (xs @ [own (kth_task k)]), Suc k)"
    using rtranclp_trans [OF calm_add [OF k(1)] loaded_done [OF k(1)]] Suc.prems by simp
  with k show ?case by (metis length_append_singleton length_list_update rtranclp_trans)
qed

text \<open>All fifty tasks are done when \<^verbatim>\<open>main\<close> sets the flag.\<close>

lemma main_done:
  assumes "length mem = 20"
  shows "\<exists>s :: unit threads. main_step\<^sup>*\<^sup>* (start (create_threadpool 3 20 mem), 0) (s, 50) \<and> dpc s = 1 \<and> length (started s) = 50"
proof -
  obtain ts ys xs where r: "length xs = 50" "main_step\<^sup>*\<^sup>* (calm 0 mem [] [], 0) (calm 50 ts ys xs, 50)"
    using calm_all [OF assms, of 50] by auto
  let ?s = "calm 50 ts ys xs"
  let ?t = "?s\<lparr>pool := (pool ?s)\<lparr>shutdown := 1\<rparr>, dpc := 1\<rparr>"
  have "step ?s ?t" by (rule step.d_shutdown) (simp add: calm_def)
  then have "main_step (?s, 50) (?t, 50)" by (rule main_step.m_destroy [rotated 2]) (simp_all add: calm_def)
  with r(2) have "main_step\<^sup>*\<^sup>* (calm 0 mem [] [], 0) (?t, 50)" by (rule rtranclp.rtrancl_into_rtrancl)
  with r(1) show ?thesis unfolding calm_start [OF assms] by (intro exI [of _ ?t]) (simp add: calm_def)
qed


theorem create_pool_outcome_witness:
  "\<exists>p b t. create_pool 24 1 2 [blank, blank] (demo_os (map ok [0, 0, 0, 0]) []) = (Ret (p, b), t) \<and>
     start_with (p, b) = start (create_threadpool 1 2 [blank, blank]) \<and> length (live t) = 3"
proof -
  let ?s = "demo_os (map ok [0, 0, 0, 0]) []"
  have "\<exists>p b t. create_pool 24 1 2 [blank, blank] ?s = (Ret (p, b), t) \<and> length (live t) = 3"
    by (simp add: create_run_defs)
  then obtain p b t where c: "create_pool 24 1 2 [blank, blank] ?s = (Ret (p, b), t)" "length (live t) = 3" by blast
  moreover have "\<not> failing ?s" by (simp add: failing_def demo_os_def)
  ultimately have "start_with (p, b) = start (create_threadpool 1 2 [blank, blank])"
    using create_pool_outcome [where n = 1 and m = 2 and k = 24 and mem = "[blank, blank]" and s = ?s] by (auto simp: INT_MAX_def)
  with c show ?thesis by blast
qed

end
