(* ===== verification/Threadpool_Epoll.thy ===== *)
theory Threadpool_Epoll
  imports Threadpool_Memory Epoll_Host
begin

unbundle bit_operations_syntax

text \<open>
  The thread pool that serves an epoll loop, \<^verbatim>\<open>threadpoolsimple.c\<close> in the directory of the
  variant with epoll under \<^verbatim>\<open>src/Csocket\<close>. The main thread accepts connections and turns every
  read event, edge triggered, into a task with the descriptor and a copy of the event in a heap
  block; a worker reads and sends back until nothing is left. The ring of tasks is the one of
  the simple pool, whose operations are used here at a task type with more fields.
\<close>

section \<open>State\<close>

text \<open>
  The fields that a task of this variant has more: the descriptor, the epoll descriptor, which
  nobody ever stores, and the heap block with the copy of the event.
\<close>

record EpollTask = PoolTask +
  task_fd :: int
  task_epfd :: int
  task_e :: nat

text \<open>The global pool, with its memory, and what \<^verbatim>\<open>epoll_create\<close> returned, with the kernel.\<close>

record pool_server = "int epoll_host" +
  thrPool :: "unit EpollTask_ext ThreadPool"
  blocks :: pool_blocks
  epfd :: int

type_synonym 'a served = "(pool_server, 'a) prog"

definition on_pool :: "(unit EpollTask_ext ThreadPool, 'a) prog \<Rightarrow> 'a served" where
  "on_pool m r = (case m (thrPool r) of (x, p) \<Rightarrow> (x, r\<lparr>thrPool := p\<rparr>))"

section \<open>The task\<close>

text \<open>
  Where a run of \<^verbatim>\<open>taskRun\<close> is: before a read, before sending back what was read, at the release of
  the event, or at its end. One step makes one group of calls on the kernel. The buffer is
  cleared for every read and printed as a string, so a read that fills all of it leaves no
  final 0 byte and \<^verbatim>\<open>printf\<close> reads behind its end.
\<close>

datatype tpc = TRead | TWrite "byte list" | TFree | TDone

text \<open>\<^verbatim>\<open>epoll_ctl\<close> on the descriptor that the task holds: it fails when that is not the epoll instance.\<close>

definition task_ctl_del :: "EpollTask \<Rightarrow> int served" where
  "task_ctl_del t r = (if task_epfd t = epfd r then epoll_del (task_fd t) r else (Ret (-1), r))"

definition task_close :: "EpollTask \<Rightarrow> tpc served" where
  "task_close t = bnd (close_fd (task_fd t)) (\<lambda>_. bnd (task_ctl_del t) (\<lambda>_. ret TFree))"

definition task_read :: "EpollTask \<Rightarrow> tpc served" where
  "task_read t =
     bnd (call (Read (task_fd t) 1024)) (\<lambda>(n, bs).
     bnd (gets (\<lambda>r. errno (kernel r))) (\<lambda>e.
     if n < 0 then (if e = EAGAIN then ret TFree else task_close t)
     else if n = 0 then task_close t
     else bnd (print_string 1024 bs) (\<lambda>_. ret (TWrite bs))))"

definition task_step :: "EpollTask \<Rightarrow> tpc \<Rightarrow> tpc served" where
  "task_step t pc = (case pc of
      TRead \<Rightarrow> task_read t
    | TWrite bs \<Rightarrow> bnd (call (Write (task_fd t) bs)) (\<lambda>_. ret TRead)
    | TFree \<Rightarrow> bnd (call (free (task_e t))) (\<lambda>_. ret TDone)
    | TDone \<Rightarrow> ret TDone)"

text \<open>Every answer of the kernel is used up, so the loop ends or waits.\<close>

definition task_rank :: "tpc \<Rightarrow> nat" where
  "task_rank pc = (case pc of TDone \<Rightarrow> 0 | _ \<Rightarrow> 1)"

lemma task_step_shorter:
  assumes "task_step t pc r = (Ret pc', u)" "pc \<noteq> TDone"
  shows "length (sched (kernel u)) + task_rank pc' < length (sched (kernel r)) + task_rank pc"
proof (cases pc)
  case TRead
  with assms obtain x k where k: "Read (task_fd t) 1024 (kernel r) = (Ret x, k)"
    and rest: "(case x of (n, bs) \<Rightarrow> bnd (gets (\<lambda>r. errno (kernel r))) (\<lambda>e.
      if n < 0 then (if e = EAGAIN then ret TFree else task_close t) else if n = 0 then task_close t
      else bnd (print_string 1024 bs) (\<lambda>_. ret (TWrite bs)))) (r\<lparr>kernel := k\<rparr>) = (Ret pc', u)"
    by (auto simp: task_step_def task_read_def call_def elim!: bnd_RetE split: prod.splits)
  from rest have "length (sched (kernel u)) \<le> length (sched k)"
    by (auto simp: task_close_def task_ctl_del_def epoll_del_def print_string_def prog_basics bnd_def[of "gets _"] elim!: bnd_RetE
        dest!: close_fd_sched split: prod.splits if_splits)
  with Read_shorter [OF k] show ?thesis using TRead by (cases pc') (auto simp: task_rank_def)
next
  case (TWrite bs)
  with assms Write_shorter show ?thesis
    by (fastforce simp: task_step_def call_def task_rank_def ret_def elim!: bnd_RetE split: prod.splits)
next
  case TFree
  with assms show ?thesis
    by (auto simp: task_step_def call_def free_def task_rank_def ret_def elim!: bnd_RetE split: prod.splits if_splits)
qed (use assms in simp)

function taskRun :: "EpollTask \<Rightarrow> tpc \<Rightarrow> unit served" where
  "taskRun t pc r = (if pc = TDone then (Ret (), r) else bnd (task_step t pc) (taskRun t) r)"
  by pat_completeness auto
termination
  by (relation "measure (\<lambda>(t, pc, r). length (sched (kernel r)) + task_rank pc)") (auto dest: task_step_shorter)

declare taskRun.simps [simp del]

section \<open>The main thread and the workers\<close>

text \<open>
  \<^verbatim>\<open>addtask\<close> up to its unlock; while the ring is full it waits for a worker, which \<open>block\<close> stands
  for, since the workers are not part of this run. The task number is not stored.
\<close>

definition fill_epoll :: "int \<Rightarrow> nat \<Rightarrow> nat \<Rightarrow> EpollTask \<Rightarrow> EpollTask" where
  "fill_epoll f e pos t = t\<lparr>arg := Arg_slot pos, task_func := Fn_taskRun, task_fd := f, task_e := e\<rparr>"

definition addtask_epoll :: "int \<Rightarrow> nat \<Rightarrow> unit served" where
  "addtask_epoll f e =
     bnd (gets (\<lambda>r. full (thrPool r))) (\<lambda>w. if w then block else on_pool (addtask_locked (fill_epoll f e)))"

definition main_accept :: "int \<Rightarrow> unit served" where
  "main_accept lfd = accept_edge lfd"

definition main_read :: "int \<Rightarrow> unit served" where
  "main_read f = bnd (call (malloc 12)) (\<lambda>e. case e of None \<Rightarrow> fault | Some b \<Rightarrow> addtask_epoll f b)"

definition main_event :: "int \<Rightarrow> int \<times> int \<Rightarrow> unit served" where
  "main_event lfd e = (case e of (f, evs) \<Rightarrow>
     if f = lfd \<and> evs AND EPOLLIN \<noteq> 0 then main_accept lfd
     else if evs AND EPOLLIN \<noteq> 0 then main_read f
     else ret ())"

text \<open>
  \<^verbatim>\<open>create_threadpool\<close> and \<^verbatim>\<open>destroy_threadpool\<close>, the latter up to its flag and broadcast: those of the
  simple pool, for tasks of 40 bytes.
\<close>

definition create_epoll_pool :: "int \<Rightarrow> int \<Rightarrow> EpollTask list \<Rightarrow> unit served" where
  "create_epoll_pool thrnum maxtasknum mem =
     bnd (call (create_pool 40 thrnum maxtasknum mem)) (\<lambda>(p, b). modify (\<lambda>r. r\<lparr>thrPool := p, blocks := b\<rparr>))"

definition destroy_epoll_pool :: "unit served" where
  "destroy_epoll_pool = bnd (gets (\<lambda>r. (thrPool r, blocks r))) (\<lambda>pb. call (destroy_pool pb))"

text \<open>
  \<^verbatim>\<open>main\<close> up to its loop; the result is the listening descriptor. If the epoll instance cannot be
  created, the first \<^verbatim>\<open>epoll_wait\<close> fails and ends the process.
\<close>

definition pool_server_start :: "EpollTask list \<Rightarrow> int served" where
  "pool_server_start mem =
     bnd (create_epoll_pool 3 20 mem) (\<lambda>_.
     bnd (call (tcp4bind 8000 None)) (\<lambda>lfd.
     bnd (call (sys_listen lfd)) (\<lambda>_.
     bnd (call (syscall (ret (-1 :: int)) (\<lambda>k _ _. ret (int k)))) (\<lambda>n.
     bnd (modify (\<lambda>r. r\<lparr>epfd := n\<rparr>)) (\<lambda>_.
     if n < 0 then exit_with (-1) else bnd (epoll_add lfd lfd EPOLLIN) (\<lambda>_. ret lfd))))))"

text \<open>
  One round of \<^verbatim>\<open>thrRun\<close>: the wait, its critical section, and the call of the task. The result
  says whether the thread goes on.
\<close>

definition worker_round :: "bool served" where
  "worker_round =
     bnd (gets (\<lambda>r. must_wait (thrPool r))) (\<lambda>w.
     if w then block
     else bnd (on_pool thrRun_locked) (\<lambda>v. case v of
         Quit t \<Rightarrow> ret False
       | Run None \<Rightarrow> fault
       | Run (Some t) \<Rightarrow>
           bnd (require (task_func t = Fn_taskRun \<and> arg t = Arg_own)) (\<lambda>_.
           bnd (taskRun t TRead) (\<lambda>_. ret True))))"

section \<open>What a task does\<close>

text \<open>Where a run of a task on the server \<open>r\<close> may be: only its own descriptor has changed.\<close>

definition task_at :: "pool_server \<Rightarrow> EpollTask \<Rightarrow> tpc \<Rightarrow> pool_server \<Rightarrow> bool" where
  "task_at r t pc u \<longleftrightarrow>
     (\<forall>g. g \<noteq> task_fd t \<longrightarrow> fds (kernel u) g = fds (kernel r) g \<and> tree u g = tree r g) \<and> thrPool u = thrPool r \<and>
     live (kernel u) = (if pc = TDone then remove1 (task_e t) (live (kernel r)) else live (kernel r)) \<and>
     (tree u (task_fd t) = tree r (task_fd t) \<or>
       (pc = TFree \<or> pc = TDone) \<and> fds (kernel u) (task_fd t) = None \<and> tree u (task_fd t) = None) \<and>
     (\<forall>d. fds (kernel u) (task_fd t) = Some d \<longrightarrow>
       (\<exists>c k. fds (kernel r) (task_fd t) = Some c \<and> rcvq d = drop k (rcvq c)))"

definition big_read :: "pool_server \<Rightarrow> EpollTask \<Rightarrow> bool" where
  "big_read r t \<longleftrightarrow> (\<exists>c. fds (kernel r) (task_fd t) = Some c \<and> 1024 \<le> length (rcvq c))"

lemma task_close_runs:
  assumes "task_at r t TRead u"
  shows "runs (task_close t) (task_at r t) F u"
proof -
  have cl: "runs (close_fd (task_fd t)) (\<lambda>_ v. heap (kernel v) = heap (kernel u) \<and> thrPool v = thrPool u \<and>
      fds (kernel v) = (fds (kernel u))(task_fd t := None) \<and> tree v = (tree u)(task_fd t := None)) never u"
    by (auto simp: close_fd_def runs_def call_def bnd_def prog_basics sys_close_def syscall_def fail_with_def fun_upd_idem
        split: sys_splits res.splits)
  show ?thesis
    unfolding task_close_def
    by (rule runs_bnd [OF cl])
      (use assms in \<open>auto simp: runs_def bnd_def task_ctl_del_def epoll_del_def ret_def task_at_def heap_def\<close>)
qed

lemma task_step_runs:
  assumes "task_at r t pc u" "pc \<noteq> TDone" "task_e t \<in> set (live (kernel r))"
  shows "runs (task_step t pc) (task_at r t) (\<lambda>_. big_read r t) u"
proof (cases pc)
  case TRead
  show ?thesis
    unfolding task_step_def TRead tpc.case task_read_def
  proof (rule runs_bnd_call [OF Read_post], clarify, rule runs_bnd_gets, goal_cases)
    case (1 n bs k)
    show ?case
    proof (cases "0 < n")
      case False
      with 1 have "fds k = fds (kernel u)" "live k = live (kernel u)" by (auto simp: read_got_def heap_def)
      then have at: "task_at r t TRead (u\<lparr>kernel := k\<rparr>)" "task_at r t TFree (u\<lparr>kernel := k\<rparr>)"
        using assms(1) TRead by (auto simp: task_at_def)
      with False show ?thesis by (auto intro!: runs_intros task_close_runs)
    next
      case True
      with 1 obtain c where c: "fds (kernel u) (task_fd t) = Some c" "nat n \<le> length (rcvq c)"
        "fds k = (fds (kernel u))(task_fd t \<mapsto> c\<lparr>rcvq := drop (nat n) (rcvq c)\<rparr>)" "live k = live (kernel u)"
        by (auto simp: read_got_def heap_def)
      then obtain d j where d: "fds (kernel r) (task_fd t) = Some d" "rcvq c = drop j (rcvq d)"
        using assms(1) by (auto simp: task_at_def)
      have "task_at r t (TWrite bs) (u\<lparr>kernel := k\<rparr>)"
        using assms(1) TRead c d by (auto simp: task_at_def)
      moreover have "big_read r t" if "\<not> (length bs < 1024 \<or> 0 \<in> set bs)"
        using that 1 c(2) d True by (auto simp: big_read_def read_got_def)
      ultimately show ?thesis
        using True unfolding print_string_def by (auto intro!: runs_bnd_require runs_intros)
    qed
  qed
next
  case (TWrite bs)
  show ?thesis
    unfolding task_step_def TWrite tpc.case
    by (rule runs_bnd_call [OF Write_post])
      (use assms(1) TWrite in \<open>auto intro!: runs_intros simp: task_at_def write_put_def heap_def\<close>)
next
  case TFree
  then have "task_e t \<in> set (live (kernel u))" using assms by (simp add: task_at_def)
  show ?thesis
    unfolding task_step_def TFree tpc.case
    by (rule runs_bnd_call [OF free_runs])
      (use assms TFree in \<open>auto intro!: runs_intros simp: task_at_def\<close>)
qed (use assms in simp)

lemma taskRun_runs:
  "task_at r t pc u \<Longrightarrow> task_e t \<in> set (live (kernel r)) \<Longrightarrow>
   runs (taskRun t pc) (\<lambda>_. task_at r t TDone) (\<lambda>_. big_read r t) u"
proof (induction t pc u rule: taskRun.induct)
  case (1 t pc u)
  show ?case
  proof (cases "pc = TDone")
    case True
    with "1.prems" show ?thesis by (simp add: runs_def taskRun.simps)
  next
    case False
    note step = task_step_runs [OF "1.prems"(1) False "1.prems"(2)]
    obtain x v where x: "task_step t pc u = (x, v)" by fastforce
    show ?thesis
    proof (cases x)
      case (Ret pc')
      with step x have "task_at r t pc' v" by (simp add: runs_def)
      from "1.IH" [OF False x [unfolded Ret] this "1.prems"(2)] False x Ret show ?thesis
        by (simp add: runs_def taskRun.simps [of t pc])
    qed (use step x False in \<open>simp_all add: runs_def taskRun.simps [of t pc]\<close>)
  qed
qed

text \<open>
  C40: a task on every kernel. Whatever is read and whatever fails, \<^verbatim>\<open>taskRun\<close> gives its event block
  back exactly once, touches no other descriptor, no other registration and not the pool, and
  leaves its own descriptor either registered as it was or closed and not registered. The
  only undefined behaviour is \<^verbatim>\<open>printf\<close> on a full buffer: 1024 bytes or more were waiting.
\<close>

theorem taskRun_outcome:
  assumes "task_e t \<in> set (live (kernel r))"
  shows "case taskRun t TRead r of
      (Ret _, u) \<Rightarrow> live (kernel u) = remove1 (task_e t) (live (kernel r)) \<and> thrPool u = thrPool r \<and>
        (\<forall>g. g \<noteq> task_fd t \<longrightarrow> fds (kernel u) g = fds (kernel r) g \<and> tree u g = tree r g) \<and>
        (tree u (task_fd t) = tree r (task_fd t) \<or> fds (kernel u) (task_fd t) = None \<and> tree u (task_fd t) = None)
    | (Fault, u) \<Rightarrow> \<exists>c. fds (kernel r) (task_fd t) = Some c \<and> 1024 \<le> length (rcvq c)
    | (Block, u) \<Rightarrow> True
    | (Exit c, u) \<Rightarrow> False"
proof -
  have "task_at r t TRead r" by (auto simp: task_at_def intro: exI [of _ 0])
  note c = taskRun_runs [OF this assms]
  obtain x u where x: "taskRun t TRead r = (x, u)" by fastforce
  show ?thesis
  proof (cases x)
    case (Ret y)
    with c x have at: "task_at r t TDone u" by (simp add: runs_def)
    show ?thesis unfolding x Ret prod.case res.case using at unfolding task_at_def by simp
  qed (use c x in \<open>simp_all add: runs_def big_read_def\<close>)
qed

text \<open>A server whose client, descriptor 3, has sent \<open>bs\<close>; one event block is in use.\<close>

definition demo_task :: EpollTask where
  "demo_task = \<lparr>tasknum = 0, arg = Arg_own, task_func = Fn_taskRun, task_fd = 3, task_epfd = 0, task_e = 7\<rparr>"

definition demo_pool_server :: "answer list \<Rightarrow> byte list \<Rightarrow> pool_server" where
  "demo_pool_server xs bs = \<lparr>kernel = (demo_os xs bs)\<lparr>live := [7], fds := [3 \<mapsto> (new_sock bs False)\<lparr>flags := 2050\<rparr>]\<rparr>,
     tree = [3 \<mapsto> (3, EPOLLIN OR EPOLLET)],
     thrPool = create_threadpool 3 1 [demo_task], blocks = \<lparr>pool_block = 0, tasks_block = Some 1, threads_block = Some 2,
       ids = replicate 3 Detached\<rparr>, epfd = 5\<rparr>"

lemmas task_run_defs = task_step_def print_string_def task_read_def bnd_def call_def prog_basics Read.simps Write.simps sys_read_def sys_write_def
  syscall_def set_fd_def fail_with_def free_def Let_def nonblocking_def

theorem taskRun_outcome_witness:
  "\<exists>u :: pool_server. taskRun demo_task TRead (demo_pool_server [ok 9, ok 9, ok 0] [1, 2]) = (Ret (), u) \<and>
     live (kernel u) = [] \<and> tree u 3 = Some (3, EPOLLIN OR EPOLLET)"
proof -
  let ?r = "demo_pool_server [ok 9, ok 9, ok 0] [1, 2]"
  have nb: "bit (2050 :: int) 11" by (simp add: bit_iff_odd)
  have "\<exists>u :: pool_server. taskRun demo_task TRead ?r = (Ret (), u) \<and> fds (kernel u) 3 \<noteq> None"
    by (simp add: taskRun.simps task_run_defs demo_pool_server_def demo_task_def demo_os_def new_sock_def nb errno_defs)
  moreover have "task_e demo_task \<in> set (live (kernel ?r))" by (simp add: demo_task_def demo_pool_server_def)
  ultimately show ?thesis
    using taskRun_outcome [of demo_task ?r] by (auto simp: demo_task_def demo_pool_server_def)
qed

section \<open>From an event to the echo\<close>

text \<open>A task on a socket with fewer bytes than the buffer holds, and a kernel that moves them at once.\<close>

lemma taskRun_echo:
  assumes "fds (kernel r) (task_fd t) = Some c" "nonblocking c" "\<not> fin c" "rcvq c \<noteq> []" "length (rcvq c) < 1024"
    "sched (kernel r) = [ok i, ok j, ok k]" "length (rcvq c) \<le> i" "length (rcvq c) \<le> j" "task_e t \<in> set (live (kernel r))"
  shows "\<exists>u. taskRun t TRead r = (Ret (), u) \<and> live (kernel u) = remove1 (task_e t) (live (kernel r)) \<and>
    fds (kernel u) = (fds (kernel r))(task_fd t \<mapsto> c\<lparr>rcvq := [], sndq := sndq c @ rcvq c\<rparr>) \<and>
    tree u = tree r \<and> thrPool u = thrPool r"
proof -
  let ?f = "task_fd t" and ?k = "kernel r"
  let ?c1 = "c\<lparr>rcvq := []\<rparr>" and ?c2 = "c\<lparr>rcvq := [], sndq := sndq c @ rcvq c\<rparr>"
  let ?k1 = "?k\<lparr>sched := [ok j, ok k], fds := (fds ?k)(?f \<mapsto> ?c1)\<rparr>"
  let ?k2 = "?k\<lparr>sched := [ok k], fds := (fds ?k)(?f \<mapsto> ?c2)\<rparr>"
  let ?k3 = "?k\<lparr>fds := (fds ?k)(?f \<mapsto> ?c2), sched := [], errno := EAGAIN\<rparr>"
  have min: "min (min 1024 (max (Suc 0) i)) (length (rcvq c)) = length (rcvq c)"
    using assms(4,5,7) by (cases "rcvq c") auto
  have s1: "task_step t TRead r = (Ret (TWrite (rcvq c)), r\<lparr>kernel := ?k1\<rparr>)"
    using assms min by (simp add: task_run_defs)
  have s2: "task_step t (TWrite (rcvq c)) (r\<lparr>kernel := ?k1\<rparr>) = (Ret TRead, r\<lparr>kernel := ?k2\<rparr>)"
    using assms by (simp add: task_run_defs min_absorb2)
  have s3: "task_step t TRead (r\<lparr>kernel := ?k2\<rparr>) = (Ret TFree, r\<lparr>kernel := ?k3\<rparr>)"
    using assms(2,3) by (simp add: task_run_defs errno_defs)
  have s4: "task_step t TFree (r\<lparr>kernel := ?k3\<rparr>) = (Ret TDone, r\<lparr>kernel := ?k3\<lparr>live := remove1 (task_e t) (live ?k)\<rparr>\<rparr>)"
    using assms(9) by (simp add: task_run_defs)
  show ?thesis
    by (simp add: taskRun.simps [of t TRead] taskRun.simps [of t "TWrite _"] taskRun.simps [of t TFree] taskRun.simps [of t TDone] s1 s2 s3 s4)
qed



text \<open>
  Two workers can swap the replies of one client. Its data may raise a second event before the
  first task has run, so that two tasks for one descriptor run at the same time. If one reads
  \<open>xs\<close>, the other reads \<open>ys\<close> and sends it back, and only then the first sends, the client gets
  \<open>ys\<close> before \<open>xs\<close>: nothing orders the tasks of a connection.
\<close>

theorem replies_swapped:
  assumes "task_fd a = f" "task_fd b = f" "fds (kernel r) f = Some c" "rcvq c = xs @ ys" "xs \<noteq> []" "ys \<noteq> []"
    "length xs < 1024" "length ys < 1024"
    "sched (kernel r) = [ok (length xs), ok (length ys), ok (length ys), ok (length xs)]"
  shows "\<exists>u. bnd (task_step a TRead) (\<lambda>pa. bnd (task_step b TRead) (\<lambda>pb. bnd (task_step b pb) (\<lambda>pb.
      bnd (task_step a pa) (\<lambda>pa. ret (pa, pb))))) r = (Ret (TRead, TRead), u) \<and>
    fds (kernel u) f = Some (c\<lparr>rcvq := [], sndq := sndq c @ ys @ xs\<rparr>)"
proof -
  have min: "min (min 1024 (max (Suc 0) (length xs))) (length xs + length ys) = length xs"
    "min (min 1024 (max (Suc 0) (length ys))) (length ys) = length ys"
    using assms(5-8) by (cases xs; cases ys; auto)+
  show ?thesis using assms min by (simp add: task_run_defs)
qed

theorem replies_swapped_witness:
  "\<exists>u :: pool_server. bnd (task_step demo_task TRead) (\<lambda>pa. bnd (task_step (demo_task\<lparr>task_e := 8\<rparr>) TRead) (\<lambda>pb.
      bnd (task_step (demo_task\<lparr>task_e := 8\<rparr>) pb) (\<lambda>pb. bnd (task_step demo_task pa) (\<lambda>pa. ret (pa, pb)))))
      (demo_pool_server [ok 2, ok 1, ok 1, ok 2] [1, 2, 3]) = (Ret (TRead, TRead), u) \<and>
     map_option sndq (fds (kernel u) 3) = Some [3, 1, 2]"
  using replies_swapped [of demo_task 3 "demo_task\<lparr>task_e := 8\<rparr>" "demo_pool_server [ok 2, ok 1, ok 1, ok 2] [1, 2, 3]"
      "(new_sock [1, 2, 3] False)\<lparr>flags := 2050\<rparr>" "[1, 2]" "[3]"]
  by (auto simp: demo_task_def demo_pool_server_def demo_os_def new_sock_def numeral_2_eq_2)

end
