(* ===== verification/Threadpool_Server.thy ===== *)
theory Threadpool_Server
  imports Threadpool_Epoll Threadpool_Threads "HOL-Library.Multiset"
begin

text \<open>
  The server with a thread pool as a whole: its start, the loop of its main thread, and the main
  thread and the workers side by side, a task being run step by step. The heap blocks that carry
  the events from the main thread to the workers are followed through every interleaving.
\<close>

section \<open>Starting the server\<close>

lemma tcp4bind_up: "may_exit (tcp4bind p None) (\<lambda>lfd. listener_up lfd s) s"
  unfolding tcp4bind_def option.case bnd_ret
  by (rule may_exit_bnd [OF Socket_up], rule may_exit_bnd_basics(1), rule may_exit_bnd [OF setup_up(1)], assumption,
      rule may_exit_bnd [OF setup_up(2)], assumption) (auto intro: may_exit_basics)

definition server_up :: "pool_server \<Rightarrow> int \<Rightarrow> pool_server \<Rightarrow> bool" where
  "server_up r lfd u \<longleftrightarrow> fds (kernel u) lfd \<noteq> None \<and> fds (kernel r) lfd = None \<and> 0 \<le> epfd u \<and> thrPool u = thrPool r \<and> blocks u = blocks r"

lemma listen_part:
  "may_exit (bnd (call (tcp4bind 8000 None)) (\<lambda>lfd.
     bnd (call (sys_listen lfd)) (\<lambda>_.
     bnd (call (syscall (ret (-1 :: int)) (\<lambda>k _ _. ret (int k)))) (\<lambda>n.
     bnd (modify (\<lambda>r. r\<lparr>epfd := n\<rparr>)) (\<lambda>_.
     if n < 0 then exit_with (-1) else bnd (epoll_add lfd lfd EPOLLIN) (\<lambda>_. ret lfd)))))) (server_up r) r"
proof (rule may_exit_bnd_call [OF tcp4bind_up], goal_cases)
  case (1 lfd k)
  have ls: "may_exit (sys_listen lfd) (\<lambda>_. listener_up lfd (kernel r)) k"
    using 1 by (simp add: sys_listen_def sys_on_fd_up)
  have ep: "may_exit (syscall (ret (-1 :: int)) (\<lambda>k _ _. ret (int k))) (\<lambda>_. listener_up lfd (kernel r)) k'"
    if "listener_up lfd (kernel r) k'" for k'
    using that by (auto simp: may_exit_def syscall_def ret_def listener_up_def split: sys_splits)
  show ?case
    apply (rule may_exit_bnd_call [of _ "\<lambda>_. listener_up lfd (kernel r)"], simp add: ls)
    apply (rule may_exit_bnd_call [of _ "\<lambda>_. listener_up lfd (kernel r)"], simp add: ep)
    apply (rule may_exit_bnd_basics, rule may_exit_if, simp add: may_exit_intros)
    apply (unfold epoll_add_def bnd_assoc)
    apply (rule may_exit_bnd_call [of _ "\<lambda>_. listener_up lfd (kernel r)"], simp add: setup_up(4))
    apply (auto simp: may_exit_def bnd_def ret_def server_up_def listener_up_def)
    done
qed

text \<open>
  The server starts on every kernel into a state from which it can serve: when \<^verbatim>\<open>main\<close> reaches its
  loop, the listening descriptor is open, the epoll instance exists, and the pool is open, of
  twenty places, and empty; its ring is usable unless the allocation of the array failed, which
  nobody checks. Undefined behaviour needs a failing allocation; the process ends itself when a
  wrapper reports an error.
\<close>

theorem pool_server_ready:
  assumes "length mem = 20"
  shows "case pool_server_start mem r of
      (Ret lfd, u) \<Rightarrow> fds (kernel u) lfd \<noteq> None \<and> 0 \<le> epfd u \<and> max_job_num (thrPool u) = 20 \<and> queue (thrPool u) = [] \<and>
        shutdown (thrPool u) = 0 \<and> pushable (thrPool u) \<and> (tasks_block (blocks u) = None \<or> pool_ok (thrPool u)) \<and>
        length (ids (blocks u)) = 3
    | (Fault, u) \<Rightarrow> failing (kernel r)
    | (Block, u) \<Rightarrow> True
    | (Exit c, u) \<Rightarrow> True"
proof -
  obtain x k where x: "create_pool 40 3 20 mem (kernel r) = (x, k)" by fastforce
  note run = create_pool_runs [of 3 40 20 mem "kernel r"]
  show ?thesis
  proof (cases x)
    case (Ret pb)
    obtain p b where pb: "pb = (p, b)" by fastforce
    with run x Ret have new: "p = create_threadpool 3 20 (if tasks_block b = None then [] else mem)" "length (ids b) = 3"
      by (auto simp: runs_def INT_MAX_def new_pool_def)
    let ?r = "r\<lparr>kernel := k, thrPool := p, blocks := b\<rparr>"
    have st: "create_epoll_pool 3 20 mem r = (Ret (), ?r)"
      using x Ret pb by (simp add: create_epoll_pool_def bnd_def call_def modify_def)
    have "max_job_num p = 20 \<and> queue p = [] \<and> shutdown p = 0 \<and> pushable p \<and> (tasks_block b = None \<or> pool_ok p)"
      using new assms by (auto simp: create_threadpool_def queue_def pushable_def pool_ok_def INT_MAX_def)
    with listen_part [of ?r] new(2) show ?thesis
      unfolding pool_server_start_def bnd_Ret [of "create_epoll_pool 3 20 mem" r "()" ?r, OF st]
      by (auto simp: may_exit_def server_up_def split: prod.splits res.splits)
  next
    case Fault
    with run x show ?thesis by (simp add: pool_server_start_def create_epoll_pool_def bnd_def call_def runs_def INT_MAX_def)
  qed (use run x in \<open>simp_all add: pool_server_start_def create_epoll_pool_def bnd_def call_def runs_def\<close>)
qed

theorem pool_server_ready_witness:
  "\<exists>(u :: pool_server). pool_server_start (replicate 20 demo_task) (demo_pool_server (map ok [0, 0, 0, 1, 2, 3, 4, 0, 0, 0, 5, 0]) []) = (Ret 4, u) \<and>
     tree u 4 = Some (4, EPOLLIN) \<and> epfd u = 5 \<and> pool_ok (thrPool u) \<and> queue (thrPool u) = []"
proof -
  let ?mem = "replicate 20 demo_task" and ?r = "demo_pool_server (map ok [0, 0, 0, 1, 2, 3, 4, 0, 0, 0, 5, 0]) []"
  have "\<exists>(u :: pool_server). pool_server_start ?mem ?r = (Ret 4, u) \<and> tree u 4 = Some (4, EPOLLIN) \<and> epfd u = 5 \<and>
      tasks_block (blocks u) \<noteq> None"
    by (simp add: pool_server_start_def create_epoll_pool_def create_run_defs call_def demo_pool_server_def tcp4bind_def Socket_def
        sys_socket_def open_fd_def set_fd_def sys_setsockopt_def sys_on_fd_def Bind_def sys_bind_def sys_listen_def epoll_add_def
        numeral_3_eq_3)
  then obtain u where "pool_server_start ?mem ?r = (Ret 4, u)" "tree u 4 = Some (4, EPOLLIN)" "epfd u = 5" "tasks_block (blocks u) \<noteq> None"
    by blast
  with pool_server_ready [of ?mem ?r] show ?thesis by auto
qed

section \<open>The loop of the main thread\<close>

text \<open>
  One round: \<open>nready\<close> is what \<^verbatim>\<open>epoll_wait\<close> returned, \<open>evs\<close> the events it stored.
\<close>

primrec main_events :: "int \<Rightarrow> (int \<times> int) list \<Rightarrow> unit served" where
  "main_events lfd [] = ret ()"
| "main_events lfd (e # es) = bnd (main_event lfd e) (\<lambda>_. main_events lfd es)"

definition main_round :: "int \<Rightarrow> int \<Rightarrow> (int \<times> int) list \<Rightarrow> unit served" where
  "main_round lfd nready evs = (if nready < 0 then exit_with (-1) else main_events lfd (take (nat nready) evs))"

section \<open>All threads\<close>

text \<open>
  The state has the server, the task that the main thread is about to add (its descriptor and the
  event block it has allocated), and the tasks the three workers run, each with the point it has
  reached. A worker takes a task as \<^verbatim>\<open>thrRun\<close> does and is free again when the task is done; while the
  ring is full the main thread holds its block and waits. The network may act at any time.
\<close>

type_synonym server_state = "pool_server \<times> (int \<times> nat) option \<times> (EpollTask \<times> tpc) list"

definition read_event :: "int \<Rightarrow> int \<times> int \<Rightarrow> bool" where
  "read_event lfd e \<longleftrightarrow> (case e of (f, evs) \<Rightarrow> evs AND EPOLLIN \<noteq> 0 \<and> f \<noteq> lfd)"

inductive server_step :: "int \<Rightarrow> server_state \<Rightarrow> server_state \<Rightarrow> bool" for lfd where
  v_event: "\<not> read_event lfd e \<Longrightarrow> main_event lfd e r = (Ret (), t) \<Longrightarrow> server_step lfd (r, None, js) (t, None, js)"
| v_alloc: "read_event lfd (f, evs) \<Longrightarrow> call (malloc 12) r = (Ret (Some b), t) \<Longrightarrow>
    server_step lfd (r, None, js) (t, Some (f, b), js)"
| v_add: "addtask_epoll f b r = (Ret (), t) \<Longrightarrow> server_step lfd (r, Some (f, b), js) (t, None, js)"
| v_take: "length js < 3 \<Longrightarrow> \<not> must_wait (thrPool r) \<Longrightarrow> on_pool thrRun_locked r = (Ret (Run (Some k)), t) \<Longrightarrow>
    server_step lfd (r, w, js) (t, w, js @ [(k, TRead)])"
| v_task: "pc \<noteq> TDone \<Longrightarrow> task_step k pc r = (Ret pc', t) \<Longrightarrow>
    server_step lfd (r, w, xs @ (k, pc) # ys) (t, w, xs @ (k, pc') # ys)"
| v_done: "server_step lfd (r, w, xs @ (k, TDone) # ys) (r, w, xs @ ys)"
| v_net: "heap k = heap (kernel r) \<Longrightarrow> server_step lfd (r, w, js) (r\<lparr>kernel := k\<rparr>, w, js)"

inductive server_reach :: "int \<Rightarrow> server_state \<Rightarrow> server_state \<Rightarrow> bool" for lfd x where
  up: "server_reach lfd x x"
| on: "server_reach lfd x y \<Longrightarrow> server_step lfd y z \<Longrightarrow> server_reach lfd x z"

text \<open>A round of the main thread alone is a sequence of these steps.\<close>

lemma server_reach_trans: "server_reach lfd y z \<Longrightarrow> server_reach lfd x y \<Longrightarrow> server_reach lfd x z"
  by (induction rule: server_reach.induct) (auto intro: server_reach.on)

lemma main_event_reach:
  assumes "main_event lfd e r = (Ret (), t)"
  shows "server_reach lfd (r, None, js) (t, None, js)"
proof (cases "read_event lfd e")
  case False
  then show ?thesis using assms by (intro on [OF up] v_event)
next
  case True
  obtain f evs where e: "e = (f, evs)" by fastforce
  with True assms have "main_read f r = (Ret (), t)" by (auto simp: read_event_def main_event_def)
  then obtain b u where u: "call (malloc 12) r = (Ret (Some b), u)" "addtask_epoll f b u = (Ret (), t)"
    by (auto simp: main_read_def prog_basics elim!: bnd_RetE split: option.splits)
  from True e have "read_event lfd (f, evs)" by simp
  from on [OF on [OF up v_alloc [OF this u(1)]] v_add [OF u(2)]] show ?thesis .
qed

lemma main_round_reach:
  assumes "main_round lfd nready evs r = (Ret (), t)"
  shows "server_reach lfd (r, None, js) (t, None, js)"
proof -
  have "main_events lfd es r = (Ret (), t) \<Longrightarrow> server_reach lfd (r, None, js) (t, None, js)" for es r
  proof (induction es arbitrary: r)
    case (Cons e es)
    from Cons.prems obtain u where "main_event lfd e r = (Ret (), u)" "main_events lfd es u = (Ret (), t)" by (auto elim!: bnd_RetE)
    with Cons.IH main_event_reach show ?case by (meson server_reach_trans)
  qed (simp add: ret_def up)
  with assms show ?thesis by (simp add: main_round_def exit_with_def split: if_splits)
qed

section \<open>The event blocks\<close>

text \<open>Who holds an event block: a queued task, the main thread, or a worker until it has freed it.\<close>

definition in_hand :: "(int \<times> nat) option \<Rightarrow> nat list" where
  "in_hand w = (case w of None \<Rightarrow> [] | Some (f, b) \<Rightarrow> [b])"

definition running :: "(EpollTask \<times> tpc) list \<Rightarrow> nat list" where
  "running js = map (\<lambda>(k, pc). task_e k) (filter (\<lambda>(k, pc). pc \<noteq> TDone) js)"

definition holders :: "pool_server \<Rightarrow> (int \<times> nat) option \<Rightarrow> (EpollTask \<times> tpc) list \<Rightarrow> nat list" where
  "holders r w js = map task_e (queue (thrPool r)) @ in_hand w @ running js"

definition pool_up :: "pool_server \<Rightarrow> bool" where
  "pool_up r \<longleftrightarrow> pool_ok (thrPool r) \<and> shutdown (thrPool r) = 0 \<and> (\<forall>t \<in> set (queue (thrPool r)). task_func t = Fn_taskRun)"

definition blocks_inv :: "nat list \<Rightarrow> int \<Rightarrow> server_state \<Rightarrow> bool" where
  "blocks_inv base m x \<longleftrightarrow> (case x of (r, w, js) \<Rightarrow> pool_up r \<and> max_job_num (thrPool r) = m \<and> length js \<le> 3 \<and>
     (\<forall>(k, pc) \<in> set js. task_func k = Fn_taskRun \<and> arg k = Arg_own) \<and>
     distinct (live (kernel r)) \<and> (\<forall>b \<in> set (live (kernel r)). b < allocs (kernel r)) \<and>
     mset (live (kernel r)) = mset base + mset (holders r w js))"

definition held :: "pool_server \<Rightarrow> (nat list \<times> nat) \<times> unit EpollTask_ext ThreadPool" where
  "held r = (heap (kernel r), thrPool r)"

lemma keeps_held_call [keeps_intros]: "keeps heap m \<Longrightarrow> keeps held (call m)"
  by (auto simp: keeps_def held_def call_def split: prod.splits)

lemma keeps_held_tree [keeps_intros]: "keeps held (modify (\<lambda>r. r\<lparr>tree := g r\<rparr>))"
  by (rule keeps_modify) (simp add: held_def)

lemma keeps_heap_ok [keeps_intros]: "keeps heap (syscall (ret (-1 :: int)) (\<lambda>_ _ _. ret 0))"
  by (auto simp: keeps_def syscall_def ret_def heap_def split: sys_splits)

lemma keeps_heap_Accept [keeps_intros]: "keeps heap (Accept f)"
  by (rule Accept.keeps_loop; intro keeps_intros)

lemma keeps_held_epoll [keeps_intros]: "keeps held (epoll_add f i evs)" "keeps held (epoll_del f)"
  unfolding epoll_add_def
  by (rule keeps_bnd, intro keeps_intros) (auto simp: keeps_def held_def epoll_del_def)

lemma keeps_held_close [keeps_intros]: "keeps held (close_fd f)"
  unfolding close_fd_def by (intro keeps_intros)

lemma keeps_held_ctl [keeps_intros]: "keeps held (task_ctl_del t)"
  using keeps_held_epoll(2) by (auto simp: keeps_def task_ctl_del_def)

lemma keeps_held_print [keeps_intros]: "keeps held (print_string n bs)"
  unfolding print_string_def by (intro keeps_intros)

lemma keeps_held_read: "keeps held (task_read t)"
  unfolding task_read_def task_close_def by (auto intro!: keeps_intros split: prod.splits)

lemma keeps_held_event:
  assumes "\<not> read_event lfd e" shows "keeps held (main_event lfd e)"
  using assms unfolding main_event_def main_accept_def accept_edge_def
  by (auto simp: read_event_def intro!: keeps_intros split: prod.splits)

lemma held_eq: "held t = held r \<longleftrightarrow> live (kernel t) = live (kernel r) \<and> allocs (kernel t) = allocs (kernel r) \<and> thrPool t = thrPool r"
  by (auto simp: held_def heap_def)

lemma task_step_held:
  assumes "task_step k pc r = (Ret pc', t)" "pc \<noteq> TDone" "pc \<noteq> TFree"
  shows "held t = held r \<and> pc' \<noteq> TDone"
proof -
  have "keeps held (task_step k pc)"
    using assms(2,3) keeps_held_read by (cases pc) (auto simp: task_step_def intro!: keeps_intros keeps_RW)
  moreover have "pc' \<noteq> TDone"
    using assms by (cases pc) (auto simp: task_step_def task_read_def task_close_def prog_basics elim!: bnd_RetE split: prod.splits if_splits)
  ultimately show ?thesis using assms(1) by (auto simp: keeps_def)
qed

lemma task_step_free:
  "task_step k TFree r = (Ret pc', t) \<Longrightarrow> pc' = TDone \<and> task_e k \<in> set (live (kernel r)) \<and>
    live (kernel t) = remove1 (task_e k) (live (kernel r)) \<and> allocs (kernel t) = allocs (kernel r) \<and> thrPool t = thrPool r"
  by (auto simp: task_step_def call_def free_def prog_basics bnd_def split: if_splits)

section \<open>Every step keeps the account\<close>

lemma blocks_inv_held: "blocks_inv base m (r, w, js) \<Longrightarrow> held t = held r \<Longrightarrow> blocks_inv base m (t, w, js)"
  by (simp add: blocks_inv_def pool_up_def holders_def held_eq)

lemma blocks_inv_alloc:
  assumes "blocks_inv base m (r, None, js)" "call (malloc 12) r = (Ret (Some b), t)"
  shows "blocks_inv base m (t, Some (f, b), js)"
proof -
  have "b = allocs (kernel r)" "live (kernel t) = b # live (kernel r)" "allocs (kernel t) = Suc b" "thrPool t = thrPool r"
    using assms(2) by (auto simp: call_def malloc_def syscall_def fail_with_def ret_def split: prod.splits sys_splits)
  with assms(1) show ?thesis by (auto simp: blocks_inv_def pool_up_def holders_def in_hand_def less_Suc_eq)
qed

lemma blocks_inv_add:
  assumes "blocks_inv base m (r, Some (f, b), js)" "addtask_epoll f b r = (Ret (), t)"
  shows "blocks_inv base m (t, None, js)"
proof -
  let ?p = "thrPool r"
  have ok: "pool_ok ?p" using assms(1) by (simp add: blocks_inv_def pool_up_def)
  from assms(2) obtain p where p: "\<not> full ?p" "addtask_locked (fill_epoll f b) ?p = (Ret (), p)" "t = r\<lparr>thrPool := p\<rparr>"
    by (auto simp: addtask_epoll_def on_pool_def bnd_def prog_basics split: if_splits prod.splits)
  then have "pushable ?p"
    by (auto simp: addtask_locked_def pushable_def bnd_def prog_basics split: if_splits)
  from addtask_locked_ok [OF ok this p(1), of "fill_epoll f b"] p(2) obtain i a where
    "pool_ok p" "queue p = queue ?p @ [fill_epoll f b i a]" "shutdown p = shutdown ?p" "max_job_num p = max_job_num ?p" by auto
  with assms(1) p(3) show ?thesis by (simp add: blocks_inv_def pool_up_def holders_def in_hand_def fill_epoll_def)
qed

lemma blocks_inv_take:
  assumes "blocks_inv base m (r, w, js)" "length js < 3" "\<not> must_wait (thrPool r)" "on_pool thrRun_locked r = (Ret (Run (Some k)), t)"
  shows "blocks_inv base m (t, w, js @ [(k, TRead)])"
proof -
  let ?p = "thrPool r"
  have ok: "pool_ok ?p" "shutdown ?p = 0" using assms(1) by (simp_all add: blocks_inv_def pool_up_def)
  from assms(4) obtain p where p: "thrRun_locked ?p = (Ret (Run (Some k)), p)" "t = r\<lparr>thrPool := p\<rparr>"
    by (auto simp: on_pool_def split: prod.splits)
  with thrRun_locked_cases [OF ok(1) assms(3) p(1)] ok have q: "pool_ok p" "queue p = tl (queue ?p)" "shutdown p = 0"
    "max_job_num p = max_job_num ?p" "k = own (hd (queue ?p))" "job_num ?p \<noteq> 0" by (auto split: if_splits)
  have "queue ?p \<noteq> []" using ok(1) q(6) length_queue [of ?p] by (auto simp: pool_ok_def simp del: length_queue)
  then obtain e es where "queue ?p = e # es" by (cases "queue ?p") auto
  with assms(1,2) p(2) q show ?thesis by (simp add: blocks_inv_def pool_up_def holders_def running_def)
qed

lemma blocks_inv_task:
  assumes "blocks_inv base m (r, w, xs @ (k, pc) # ys)" "pc \<noteq> TDone" "task_step k pc r = (Ret pc', t)"
  shows "blocks_inv base m (t, w, xs @ (k, pc') # ys)"
proof (cases "pc = TFree")
  case True
  with task_step_free [of k r pc' t] assms show ?thesis
    by (auto simp: blocks_inv_def pool_up_def holders_def running_def dest: in_set_remove1)
next
  case False
  with task_step_held [OF assms(3,2)] assms(1,2) show ?thesis
    by (simp add: blocks_inv_def pool_up_def holders_def held_eq running_def)
qed

lemma blocks_inv_step: "server_step lfd x y \<Longrightarrow> blocks_inv base m x \<Longrightarrow> blocks_inv base m y"
proof (induction rule: server_step.induct)
  case (v_event e r t js)
  then show ?case using blocks_inv_held keepsD [OF keeps_held_event] by blast
next
  case (v_done r w xs k ys)
  then show ?case by (simp add: blocks_inv_def holders_def running_def)
next
  case (v_net k r w js)
  then show ?case using blocks_inv_held [of base m r w js "r\<lparr>kernel := k\<rparr>"] by (simp add: held_def)
qed (auto intro: blocks_inv_alloc blocks_inv_add blocks_inv_take blocks_inv_task)

lemma blocks_inv_reach: "server_reach lfd x y \<Longrightarrow> blocks_inv base m x \<Longrightarrow> blocks_inv base m y"
  by (induction rule: server_reach.induct) (auto intro: blocks_inv_step)

lemma length_holders: "length (holders r w js) \<le> length (queue (thrPool r)) + 1 + length js"
proof -
  have "length (running js) \<le> length js" by (simp add: running_def)
  then show ?thesis by (auto simp: holders_def in_hand_def split: option.splits)
qed

text \<open>
  C19: The event blocks of the server with a thread pool, in every interleaving of the main thread, the
  workers and the network: the heap has what it had at the start and exactly one block more for
  every task that is queued, about to be added or running, all different. So a running task never
  frees a block twice or a block of another task, at most \<^verbatim>\<open>max_job_num + 4\<close> blocks are in use, and
  nothing is leaked: when no task is left, the heap is as at the start.
\<close>

theorem event_blocks_accounted:
  assumes "server_reach lfd (r, None, []) (t, w, js)" "pool_up r" "queue (thrPool r) = []"
    "distinct (live (kernel r))" "\<forall>b \<in> set (live (kernel r)). b < allocs (kernel r)"
  shows "mset (live (kernel t)) = mset (live (kernel r)) + mset (holders t w js) \<and> distinct (live (kernel t)) \<and>
    (\<forall>(k, pc) \<in> set js. pc \<noteq> TDone \<longrightarrow> task_e k \<in> set (live (kernel t)) \<and> task_func k = Fn_taskRun) \<and>
    int (length (live (kernel t))) \<le> int (length (live (kernel r))) + max_job_num (thrPool r) + 4"
proof -
  let ?base = "live (kernel r)" and ?m = "max_job_num (thrPool r)"
  have "blocks_inv ?base ?m (r, None, [])"
    using assms(2-5) by (simp add: blocks_inv_def holders_def in_hand_def running_def)
  from blocks_inv_reach [OF assms(1) this] have inv: "blocks_inv ?base ?m (t, w, js)" .
  then have all: "mset (live (kernel t)) = mset ?base + mset (holders t w js)" and js: "length js \<le> 3"
    and pool: "pool_ok (thrPool t)" "max_job_num (thrPool t) = ?m" by (auto simp: blocks_inv_def pool_up_def)
  have "length (live (kernel t)) = length ?base + length (holders t w js)"
    using arg_cong [OF all, of size] by simp
  moreover have "int (length (holders t w js)) \<le> ?m + 4"
    using length_holders [of t w js] js pool by (simp add: pool_ok_def) arith
  moreover have "task_e k \<in> set (live (kernel t))" if "(k, pc) \<in> set js" "pc \<noteq> TDone" for k pc
  proof -
    have "task_e k \<in> set (holders t w js)" using that by (force simp: holders_def running_def)
    with arg_cong [OF all, of set_mset] show ?thesis by simp
  qed
  ultimately show ?thesis using inv by (auto simp: blocks_inv_def)
qed

text \<open>The main thread allocates a block and adds the task, a worker takes it.\<close>

theorem event_blocks_accounted_witness:
  "\<exists>(r :: pool_server) t k. server_reach 9 (r, None, []) (t, None, [(k, TRead)]) \<and> live (kernel r) = [7] \<and> task_e k = 8 \<and> task_fd k = 3 \<and>
     mset (live (kernel t)) = mset (live (kernel r)) + {#8#}"
proof -
  let ?d = "demo_pool_server [ok 0] [1]"
  let ?r = "?d\<lparr>kernel := (kernel ?d)\<lparr>allocs := 8\<rparr>\<rparr>" and ?k = "demo_task\<lparr>task_e := 8\<rparr>"
  let ?a = "?r\<lparr>kernel := (kernel ?r)\<lparr>sched := [], live := [8, 7], allocs := 9\<rparr>\<rparr>"
  let ?p = "(thrPool ?r)\<lparr>job_push := 1, job_num := 1, tasks := [fill_epoll 3 8 0 demo_task]\<rparr>"
  let ?q = "?p\<lparr>job_pop := 1, job_num := 0\<rparr>"
  have pools: "full (thrPool ?a) = False" "addtask_locked (fill_epoll 3 8) (thrPool ?a) = (Ret (), ?p)"
    "must_wait ?p = False" "thrRun_locked ?p = (Ret (Run (Some ?k)), ?q)"
    by (simp_all add: demo_pool_server_def create_threadpool_def full_def addtask_locked_def bnd_def prog_basics INT_MAX_def c_rem_def
        Let_def fill_epoll_def demo_task_def must_wait_def thrRun_locked_def take_task_def)
  have al: "call (malloc 12) ?r = (Ret (Some 8), ?a)"
    by (simp add: call_def malloc_def syscall_def ret_def PTRDIFF_MAX_def demo_pool_server_def demo_os_def)
  have steps: "server_step 9 (?r, None, []) (?a, Some (3, 8), [])" "server_step 9 (?a, Some (3, 8), []) (?a\<lparr>thrPool := ?p\<rparr>, None, [])"
    "server_step 9 (?a\<lparr>thrPool := ?p\<rparr>, None, []) (?a\<lparr>thrPool := ?q\<rparr>, None, [] @ [(?k, TRead)])"
    by (rule v_alloc [where evs = EPOLLIN], simp add: read_event_def EPOLLIN_def, rule al)
      (rule v_add v_take; use pools in \<open>simp add: addtask_epoll_def bnd_def prog_basics on_pool_def\<close>)+
  have reach: "server_reach 9 (?r, None, []) (?a\<lparr>thrPool := ?q\<rparr>, None, [(?k, TRead)])"
    using on [OF on [OF on [OF up]], OF steps] by simp
  have "pool_up ?r \<and> queue (thrPool ?r) = []" "queue ?q = []"
    by (simp_all add: pool_up_def demo_pool_server_def create_threadpool_def pool_ok_def queue_def INT_MAX_def)
  with event_blocks_accounted [OF reach] have "mset (live (kernel ?a)) = mset (live (kernel ?r)) + {#8#}"
    by (simp add: demo_pool_server_def holders_def in_hand_def running_def)
  with reach show ?thesis
    by (intro exI [of _ ?r] exI [of _ "?a\<lparr>thrPool := ?q\<rparr>"] exI [of _ ?k]) (simp add: demo_pool_server_def demo_task_def)
qed

end
