(* ===== verification/Threadpool_Demo.thy ===== *)
theory Threadpool_Demo
  imports Threadpool_Adjust
begin

text \<open>
  The test program of \<^verbatim>\<open>threadpool.c\<close>: \<^verbatim>\<open>main\<close> makes a pool of 3 to 100 threads and 100 places,
  adds twenty tasks, and destroys the pool. Its calls of \<^verbatim>\<open>threadpool_add\<close> are interleaved with the
  workers and the adjusting thread.
\<close>

section \<open>The program\<close>

text \<open>The task with number \<open>i\<close>: \<^verbatim>\<open>process\<close>, at \<open>fn\<close>, with the address \<open>num i\<close> of \<^verbatim>\<open>num[i]\<close>.\<close>

definition num_task :: "nat \<Rightarrow> (nat \<Rightarrow> nat) \<Rightarrow> nat \<Rightarrow> threadpool_task_t" where
  "num_task fn num i = \<lparr>task_function = At fn, task_arg = At (num i)\<rparr>"

text \<open>\<open>i\<close> calls of \<^verbatim>\<open>threadpool_add\<close> have returned.\<close>

inductive demo_step :: "nat \<Rightarrow> (nat \<Rightarrow> nat) \<Rightarrow> crew \<times> nat \<Rightarrow> crew \<times> nat \<Rightarrow> bool" for fn num where
  d_add: "i < 20 \<Longrightarrow> \<not> add_waits (cpool s) \<Longrightarrow> threadpool_add (At fn) (At (num i)) (cpool s) = (Ret True, q) \<Longrightarrow>
    demo_step fn num (s, i) (s\<lparr>cpool := q, added := added s @ [num_task fn num i]\<rparr>, Suc i)"
| d_other: "crew_step s t \<Longrightarrow> added t = added s \<Longrightarrow> demo_step fn num (s, i) (t, i)"

inductive demo_reach :: "nat \<Rightarrow> (nat \<Rightarrow> nat) \<Rightarrow> crew \<Rightarrow> crew \<Rightarrow> nat \<Rightarrow> bool" for fn num x where
  begun: "demo_reach fn num x x 0"
| going: "demo_reach fn num x s i \<Longrightarrow> demo_step fn num (s, i) (t, j) \<Longrightarrow> demo_reach fn num x t j"

section \<open>What it does\<close>

lemma demo_crew_step: "demo_step fn num (s, i) (t, j) \<Longrightarrow> crew_step s t"
  by (erule demo_step.cases) (auto simp: num_task_def intro: crew_step.u_add)

lemma crew_step_size: "crew_step s t \<Longrightarrow> crew_inv s \<Longrightarrow> queue_max_size (cpool t) = queue_max_size (cpool s)"
proof (induction rule: crew_step.induct)
  case (t_lock s t v q)
  then show ?case using threadpool_thread_ok [of "cpool s" False] by (auto simp: crew_inv_def dest: fixed_partsD(3))
next
  case (t_wake s t v q)
  then show ?case using threadpool_thread_ok [of "cpool s" True] by (auto simp: crew_inv_def dest: fixed_partsD(3))
next
  case (u_add s fn a q)
  then show ?case using threadpool_add_ok [of "cpool s" fn a] by (auto simp: crew_inv_def dest: fixed_partsD(3))
next
  case (a_grow s n l b new ts q)
  then show ?case using adjust_grow_ok [of "cpool s" new "alive s" n l] by (auto simp: crew_inv_def counts_ok_def)
next
  case (a_shrink s b l q)
  then show ?case by (auto simp: adjust_shrink_def bnd_def prog_basics split: if_splits)
qed (auto simp: busy_add_def bnd_def prog_basics split: if_splits)

lemma demo_reach_inv:
  assumes "demo_reach fn num x s i" "crew_inv x" "added x = []"
  shows "crew_inv s \<and> queue_max_size (cpool s) = queue_max_size (cpool x) \<and> i \<le> 20 \<and> added s = map (num_task fn num) [0..<i]"
  using assms(1)
proof induction
  case begun
  then show ?case using assms by simp
next
  case (going s i t j)
  have "crew_step s t" using going.hyps(2) by (rule demo_crew_step)
  then have "crew_inv t" "queue_max_size (cpool t) = queue_max_size (cpool s)"
    using going.IH crew_step_inv crew_step_size by blast+
  with going show ?case by (auto elim!: demo_step.cases)
qed

text \<open>
  The program, over every interleaving. \<^verbatim>\<open>main\<close> never waits: as long as it has tasks to add, the next
  call of \<^verbatim>\<open>threadpool_add\<close> finds a free place and succeeds. Its tasks are taken by the workers in
  order, none lost and none twice.
\<close>

theorem demo_never_waits:
  assumes "threadpool_create 3 100 100 z = (Ret (Some p), t)" "distinct (take 3 (threads p))"
    "demo_reach fn num (crew_start p) s i"
  shows "added s = map (num_task fn num) [0..<i] \<and> (\<exists>j \<le> i. taken s = map (num_task fn num) [0..<j]) \<and>
    (i = 20 \<or> (\<exists>u. demo_step fn num (s, i) (u, Suc i)))"
proof -
  have c: "created 3 100 100 p" using createdI [OF assms(1)] by (simp add: INT_MAX_def)
  have "crew_inv (crew_start p)" using crew_start_inv [OF c] assms(2) by simp
  from demo_reach_inv [OF assms(3) this] c have inv: "crew_inv s" "queue_max_size (cpool s) = 100" "i \<le> 20"
    "added s = map (num_task fn num) [0..<i]" by (auto simp: crew_start_def created_def)
  have fifo: "added s = taken s @ items (cpool s)" "tp_ok (cpool s)" "shutdown (cpool s) = 0" using inv(1) by (simp_all add: crew_inv_def)
  then have "taken s = take (length (taken s)) (added s)" by simp
  then have tk: "taken s = map (num_task fn num) (take (length (taken s)) [0..<i])" unfolding inv(4) by (simp add: take_map)
  have len: "length (taken s) + nat (queue_size (cpool s)) = i"
    using arg_cong [OF fifo(1), of length] inv(4) by simp
  then have "take (length (taken s)) [0..<i] = [0..<length (taken s)]" by (simp add: take_upt)
  with tk len have taken: "\<exists>j \<le> i. taken s = map (num_task fn num) [0..<j]" by (intro exI [of _ "length (taken s)"]) auto
  have "queue_size (cpool s) \<noteq> 100" using len inv(3) by auto
  then have free: "\<not> add_waits (cpool s)" using inv(2) by (simp add: add_waits_def)
  from threadpool_add_ok [OF fifo(2,3) this, of "At fn" "At (num i)"] obtain q where
    "threadpool_add (At fn) (At (num i)) (cpool s) = (Ret True, q)" by auto
  with free inv(3) have "i = 20 \<or> (\<exists>u. demo_step fn num (s, i) (u, Suc i))"
    using demo_step.d_add [of i s fn num q] by fastforce
  with inv(4) taken show ?thesis by blast
qed

lemma take_3: "3 \<le> length xs \<Longrightarrow> take 3 xs = [xs ! 0, xs ! 1, xs ! 2]"
  by (auto simp: numeral_3_eq_3 Suc_le_length_iff)

lemma malloc_good: "sched s = ok n # xs \<Longrightarrow> m \<le> PTRDIFF_MAX \<Longrightarrow>
    malloc m s = (Ret (Some (allocs s)), s\<lparr>sched := xs, live := allocs s # live s, allocs := Suc (allocs s)\<rparr>)"
  by (simp add: malloc_def syscall_def)

lemma init_locks_good: "sched s = ok a # ok b # ok c # ok d # xs \<Longrightarrow>
    init_locks p s = (Ret (True, p\<lparr>lock := Unlocked, thread_counter := Unlocked, queue_not_empty := True, queue_not_full := True\<rparr>), s\<lparr>sched := xs\<rparr>)"
  by (simp add: init_locks_def pthread_init_def bnd_def prog_basics Let_def)

lemma sizes_100: "mul_size 8 100 = 800" "mul_size 16 100 = 1600"
  by (simp_all add: mul_size_def c_size_def)

lemma start_three: "3 \<le> length (threads p) \<Longrightarrow> sched s = ok a # ok b # ok c # xs \<Longrightarrow>
    start_threads 0 3 p s = (Ret (p\<lparr>threads := (threads p)[0 := Suc a, 1 := Suc b, 2 := Suc c]\<rparr>), s\<lparr>sched := xs\<rparr>)"
  by (auto simp: numeral_3_eq_3 numeral_2_eq_2 pthread_create_def bnd_def prog_basics)

lemma demo_created:
  "\<exists>p t. threadpool_create 3 100 100 (demo_os (map ok [0, 0, 0, 0, 0, 0, 0, 10, 11, 12, 13]) []) = (Ret (Some p), t) \<and>
     distinct (take 3 (threads p))"
  by (simp add: threadpool_create_def Let_def malloc_good init_locks_good sizes_100 start_three bnd_def [of "malloc _"]
     bnd_def [of pthread_create] bnd_def [of "init_locks _"] bnd_def [of "start_threads _ _ _"] demo_os_def PTRDIFF_MAX_def pthread_create_def ret_def init_pool_def take_3
     del: One_nat_def)

theorem demo_never_waits_witness:
  "\<exists>p s t. fst (threadpool_create 3 100 100 (demo_os (map ok [0, 0, 0, 0, 0, 0, 0, 10, 11, 12, 13]) [])) = Ret (Some p) \<and>
     demo_reach 5 (\<lambda>i. 40 + 4 * i) (crew_start p) s 1 \<and> added s = [\<lparr>task_function = At 5, task_arg = At 40\<rparr>] \<and>
     demo_step 5 (\<lambda>i. 40 + 4 * i) (s, 1) (t, 2)"
proof -
  let ?num = "\<lambda>i. 40 + 4 * i"
  obtain p t where c: "threadpool_create 3 100 100 (demo_os (map ok [0, 0, 0, 0, 0, 0, 0, 10, 11, 12, 13]) []) = (Ret (Some p), t)"
    "distinct (take 3 (threads p))" using demo_created by (metis distinct_length_2_or_more distinct_singleton num.simps numeral_eq_iff)
  from demo_never_waits [OF c demo_reach.begun, of 5 ?num] obtain s where
    "demo_step 5 ?num (crew_start p, 0) (s, 1)" by auto
  then have r: "demo_reach 5 ?num (crew_start p) s 1" by (rule demo_reach.going [OF demo_reach.begun])
  from demo_never_waits [OF c r] obtain u where "demo_step 5 ?num (s, 1) (u, 2)" "added s = [num_task 5 ?num 0]"
    by (auto simp: numeral_2_eq_2)
  with c(1) r show ?thesis by (intro exI [of _ p] exI [of _ s] exI [of _ u]) (simp add: num_task_def)
qed

end
