(* ===== verification/Pool_Server.thy ===== *)
theory Pool_Server
  imports Pool_Correct
begin

text \<open>
  The connection pool over the message layer: what a client sends with \<^verbatim>\<open>sckCltPool_send\<close> on the
  connection it holds arrives at the server, complete and in order, while other clients use the
  same pool.
\<close>

section \<open>The pool as a sender of messages\<close>

text \<open>The time limit is the one of the handle.\<close>

definition pool_sender :: "SockePoolHandle \<Rightarrow> int \<Rightarrow> int \<Rightarrow> byte list option \<Rightarrow> int \<Rightarrow> int call" where
  "pool_sender p fd tm = sckCltPool_send (Some (p\<lparr>sendtime := tm\<rparr>)) fd"

lemma pool_send_0:
  assumes "sckCltPool_send (Some p) fd (Some bs) n s = (Ret 0, t)" "0 < n"
  shows "sckClient_send fd (sendtime p) (Some bs) n s = (Ret 0, t)"
  using assms by (auto simp: sckCltPool_send_def Sck_ErrParam_def Sck_defs ret_def elim!: bnd_RetE split: if_splits)

interpretation pool_client: message_sender "pool_sender p" for p
proof
  show "fds t = (fds s)(fd \<mapsto> c\<lparr>sndq := sndq c @ frame (take (nat n) bs)\<rparr>) \<and> log_safe t"
    if "pool_sender p fd tm (Some bs) n s = (Ret 0, t)" "fds s fd = Some c" "0 < n" "n \<le> int (length bs)"
      "n + 4 \<le> INT_MAX" "log_safe s" "fd_in_range fd (c_uint tm)" for fd tm bs n s t c
    using client.sent [OF pool_send_0 [OF that(1) [unfolded pool_sender_def] that(3)]] that by simp
qed

interpretation pool_to_server: channel "pool_sender p" sckServer_rev for p
  by unfold_locales

section \<open>Other clients\<close>

text \<open>What has been sent on the connection \<open>g\<close>.\<close>

definition sent_on :: "int \<Rightarrow> os \<Rightarrow> byte list option" where
  "sent_on g s = map_option sndq (fds s g)"

lemma keeps_sent_sys [keeps_intros]:
  "keeps (sent_on g) (sys_read fd n)" "fd \<noteq> g \<Longrightarrow> keeps (sent_on g) (sys_write fd bs)" "keeps (sent_on g) (malloc n)"
  "keeps (sent_on g) (free b)" "keeps (sent_on g) sys_select1"
  by (auto simp: keeps_def sent_on_def sys_defs free_def Let_def split: sys_splits)

lemma keeps_sent_log [keeps_intros]: "keeps (sent_on g) (Socket_Log f l v st m)"
  using Socket_Log_frame by (fastforce intro: keepsI simp: sent_on_def)

lemma keeps_sent_transfers [keeps_intros]:
  "keeps (sent_on g) (readn fd n)" "keeps (sent_on g) select_retry"
  by (auto simp: readn_def intro!: readn_loop.keeps_loop select_retry.keeps_loop keeps_intros)

lemma keeps_sent_writen [keeps_intros]: "fd \<noteq> g \<Longrightarrow> keeps (sent_on g) (writen fd bs)"
  unfolding writen_def by (intro writen_loop.keeps_loop keeps_intros)

lemma keeps_sent_timeouts [keeps_intros]: "keeps (sent_on g) (read_timeout fd w)" "keeps (sent_on g) (write_timeout fd w)"
  by (auto simp: read_timeout_def write_timeout_def FD_SET_def set_errno_def sent_on_def
      intro!: keeps_intros keeps_modify)

lemma keeps_sent_messages [keeps_intros]:
  "fd \<noteq> g \<Longrightarrow> keeps (sent_on g) (sckClient_send fd tm data n)" "keeps (sent_on g) (sckClient_rev fd tm b c)"
  unfolding sckClient_send_def sckClient_rev_def Let_def
  by (intro keeps_intros; assumption)+

lemma keeps_sent_pool:
  "fd \<noteq> g \<Longrightarrow> keeps (sent_on g) (sckCltPool_send h fd data n)" "keeps (sent_on g) (sckCltPool_rev h fd b c)"
  unfolding sckCltPool_send_def sckCltPool_rev_def
  by (intro keeps_intros; assumption)+

text \<open>
  The steps that are not the sends of the client that holds \<open>g\<close>: any client takes a connection,
  receives, gives back or sends on another one; the network neither opens and closes connections
  nor takes back what was sent.
\<close>

inductive other_step :: "int \<Rightarrow> pool_state \<Rightarrow> pool_state \<Rightarrow> bool" for g where
  o_get: "sckCltPool_getConnet (Some p) True s = (Ret ((r, out), Some q), t) \<Longrightarrow>
    other_step g (p, s, hs) (q, t, case out of None \<Rightarrow> hs | Some fd \<Rightarrow> fd # hs)"
| o_put: "fd \<in> set hs \<Longrightarrow> fd \<noteq> g \<Longrightarrow> sckCltPool_putConnet (Some p) fd v s = (Ret (r, Some q), t) \<Longrightarrow>
    other_step g (p, s, hs) (q, t, remove1 fd hs)"
| o_send: "fd \<in> set hs \<Longrightarrow> fd \<noteq> g \<Longrightarrow> sckCltPool_send (Some p) fd data n s = (Ret r, t) \<Longrightarrow>
    other_step g (p, s, hs) (p, t, hs)"
| o_rev: "fd \<in> set hs \<Longrightarrow> sckCltPool_rev (Some p) fd b c s = (Ret x, t) \<Longrightarrow>
    other_step g (p, s, hs) (p, t, hs)"
| o_net: "opn t = opn s \<Longrightarrow> env t = env s \<Longrightarrow> sent_on g t = sent_on g s \<Longrightarrow> other_step g (p, s, hs) (p, t, hs)"

lemma other_pool_step: "other_step g x y \<Longrightarrow> pool_step x y"
  by (induction rule: other_step.induct) (auto intro: pool_step.intros split: option.split)

text \<open>They leave what was sent on \<open>g\<close> alone, and \<open>g\<close> stays held.\<close>

lemma repaired_others:
  assumes "repaired p fd s r q t" "x \<noteq> fd" "fds s x \<noteq> None"
  shows "fds t x = fds s x"
proof (cases "r = 0")
  case True
  with assms(1) obtain new where "new = fd \<or> fds s new = None" "\<forall>x. x \<noteq> new \<longrightarrow> fds t x = (if x = fd then None else fds s x)"
    unfolding repaired_def by (simp only: simp_thms if_True) blast
  with assms(2,3) show ?thesis by metis
next
  case False
  with assms show ?thesis unfolding repaired_def by (simp only: simp_thms if_False)
qed

lemma put_sent:
  assumes "sys_inv (p, s, hs)" "fd \<in> set hs" "g \<in> set hs" "fd \<noteq> g" "sckCltPool_putConnet (Some p) fd v s = (Ret (r, Some q), t)"
  shows "fds t g = fds s g"
proof (cases "v = 1")
  case True
  note held = sys_inv_held [OF assms(1,2)]
  from True putConnet_valid [OF held(1,4,5,7)] assms(5) show ?thesis by auto
next
  case False
  note held = sys_inv_held [OF assms(1,2)]
  have rep: "repaired p fd s r q t"
    using runs_Ret [OF putConnet_repair_runs [OF held(1,4,5,7) False held(3,2)] assms(5)] by auto
  have "fds s g \<noteq> None" using assms(1,3) by (auto simp: sys_inv_def opn_def)
  with rep assms(4) show ?thesis by (metis repaired_others)
qed

lemma get_sent:
  assumes "sys_inv (p, s, hs)" "sckCltPool_getConnet (Some p) True s = (Ret ((r, out), Some q), t)"
  shows "fds t = fds s"
proof (cases "valid p = 0")
  case True
  with assms show ?thesis by (auto simp: sys_inv_def getConnet_empty)
next
  case False
  with assms getConnet_top [of p s] show ?thesis by (auto simp: sys_inv_def)
qed

lemma other_step_sent:
  assumes "other_step g (p, s, hs) (q, t, hs')" "sys_inv (p, s, hs)" "g \<in> set hs"
  shows "sent_on g t = sent_on g s \<and> g \<in> set hs'"
  using assms(1)
proof cases
  case (o_get r out)
  with get_sent [OF assms(2) o_get(2)] assms(3) show ?thesis by (auto simp: sent_on_def split: option.splits)
next
  case (o_put fd v r)
  with put_sent [OF assms(2) o_put(2) assms(3) o_put(3,4)] assms(3) show ?thesis by (simp add: sent_on_def)
next
  case (o_send fd data n r)
  with assms(3) show ?thesis using keepsD [OF keeps_sent_pool(1) [OF o_send(4)] o_send(5)] by simp
next
  case (o_rev fd b c x)
  with assms(3) show ?thesis using keepsD [OF keeps_sent_pool(2) o_rev(4)] by simp
qed (use assms(3) in simp)

section \<open>One client among others\<close>

text \<open>
  \<open>shared_run g x ms y\<close>: from \<open>x\<close> to \<open>y\<close> the client that holds the connection \<open>g\<close> has sent the messages \<open>ms\<close> on
  it, each with result 0, between any steps of the others.
\<close>

inductive shared_run :: "int \<Rightarrow> pool_state \<Rightarrow> byte list list \<Rightarrow> pool_state \<Rightarrow> bool" for g x where
  s_start: "shared_run g x [] x"
| s_send: "shared_run g x ms (p, s, hs) \<Longrightarrow> sckCltPool_send (Some p) g (Some m) (int (length m)) s = (Ret 0, t) \<Longrightarrow>
    shared_run g x (ms @ [m]) (p, t, hs)"
| s_other: "shared_run g x ms y \<Longrightarrow> other_step g y z \<Longrightarrow> shared_run g x ms z"

lemma shared_run_sent:
  assumes "shared_run g (p, s, hs) ms (q, t, hs')" "sys_inv (p, s, hs)" "g \<in> set hs" "g < FD_SETSIZE" "sendable ms"
    "sent_on g s = Some bs"
  shows "sent_on g t = Some (bs @ concat (map frame ms)) \<and> sys_inv (q, t, hs') \<and> g \<in> set hs'"
  using assms(1,5)
proof (induction ms "(q, t, hs')" arbitrary: q t hs' rule: shared_run.induct)
  case s_start
  then show ?case using assms by simp
next
  case (s_send ms q u hs' m t)
  then have IH: "sent_on g u = Some (bs @ concat (map frame ms))" "sys_inv (q, u, hs')" "g \<in> set hs'"
    and m: "m \<noteq> []" "int (length m) + 4 \<le> INT_MAX" by (auto simp: sendable_def)
  from IH(1) obtain c where c: "fds u g = Some c" "sndq c = bs @ concat (map frame ms)" by (auto simp: sent_on_def)
  have "0 \<le> g" "log_safe u" using IH(2,3) by (auto simp: sys_inv_def)
  then have range: "fd_in_range g (c_uint (sendtime q))" using assms(4) by (simp add: fd_in_range_def)
  have "pool_sender q g (sendtime q) (Some m) (int (length m)) u = (Ret 0, t)"
    using s_send.hyps(3) by (simp add: pool_sender_def)
  from pool_client.sent [OF this c(1) _ _ m(2) \<open>log_safe u\<close> range] m(1)
  have "fds t = (fds u)(g \<mapsto> c\<lparr>sndq := sndq c @ frame m\<rparr>)" by simp
  moreover have "sys_inv (q, t, hs')"
    by (rule sys_inv_step [OF pool_step.send [OF IH(3) s_send.hyps(3)] IH(2)])
  ultimately show ?case using c IH(3) by (simp add: sent_on_def)
next
  case (s_other ms y q t hs')
  obtain p' u hs'' where y: "y = (p', u, hs'')" by (cases y)
  with s_other have IH: "sent_on g u = Some (bs @ concat (map frame ms))" "sys_inv y" "g \<in> set hs''" by auto
  with other_step_sent [OF s_other.hyps(3) [unfolded y]] sys_inv_step [OF other_pool_step [OF s_other.hyps(3)]] y
  show ?case by auto
qed

text \<open>
  C6: Requests through the pool. A client that got the connection \<open>g\<close> from a pool made by
  \<^verbatim>\<open>sckCltPool_init\<close>, and has sent nothing on it, sends any number of messages with \<^verbatim>\<open>sckCltPool_send\<close>,
  every call returning 0, while other clients take, use and give back other connections and the
  network acts. Then the server gets from as many calls of \<^verbatim>\<open>sckServer_rev\<close> exactly these messages,
  complete and in order, whatever pieces the stream is delivered in: the clients of a pool do
  not mix their messages.
\<close>

theorem pooled_requests_in_order:
  assumes "sckCltPool_init True (Some a) z = (Ret (0, Some p), s)" "param_ok a" "log_safe z" "junk z (hdlBlk p) 2 \<noteq> 1"
    "pool_reach (p, s, []) (q, t, hs)" "g \<in> set hs" "g < FD_SETSIZE" "sent_on g t = Some []"
    "shared_run g (q, t, hs) ms (q', t', hs')" "sendable ms"
    and "fds u fd = Some d" "rcvq d = sndq (the (fds t' g)) @ rest"
    "list_all serves (sched u)" "sum_list (map (\<lambda>m. 5 + length m) ms) \<le> length (sched u)"
  shows "\<exists>v. recv_all sckServer_rev fd (length ms) u = (Ret (Some ms), v) \<and> fds v = (fds u)(fd \<mapsto> d\<lparr>rcvq := rest\<rparr>) \<and>
    g \<in> set hs' \<and> fds t' g \<noteq> None"
proof -
  from sys_inv_reach [OF assms(5) sys_inv_init [OF assms(1-4)]] have "sys_inv (q, t, hs)" .
  from shared_run_sent [OF assms(9) this assms(6,7,10,8)]
  have w: "sent_on g t' = Some (concat (map frame ms))" "g \<in> set hs'" by simp_all
  then have "rcvq d = concat (map frame ms) @ rest" using assms(12) by (auto simp: sent_on_def)
  from server.received_all [OF assms(11) this assms(10,13,14)] w show ?thesis by (auto simp: sent_on_def)
qed

lemma demo_init_fresh:
  "\<exists>t. sckCltPool_init True (Some demo_param) demo_start = (Ret (0, Some demo_pool), t) \<and> sent_on 4 t = Some []"
  by (simp add: sckCltPool_init_def init_fds_def init_status_def init_run_def init_end_def demo_start_def demo_os_def
      demo_param_def demo_pool_def malloc_def syscall_def PTRDIFF_MAX_def array_size_def c_size_def bnd_def ret_def
      gets_def require_def fresh_handle_def mutex_lock_def mutex_unlock_def fresh_ints_def sckClient_init_def
      init_connect.simps connect_slot_def sckClient_connect_def sys_socket_def open_fd_def set_fd_def new_sock_def
      connect_timeout_def c_uint_def sys_connect_def sys_on_fd_def connect_finish_def upd_at_def errno_defs sent_on_def)

text \<open>The only connection of the pool is taken and two bytes are sent on it.\<close>

lemma demo_session:
  "\<exists>s t t'. sckCltPool_init True (Some demo_param) demo_start = (Ret (0, Some demo_pool), s) \<and>
     pool_reach (demo_pool, s, []) (demo_pool\<lparr>valid := 0\<rparr>, t, [4]) \<and> sent_on 4 t = Some [] \<and>
     shared_run 4 (demo_pool\<lparr>valid := 0\<rparr>, t, [4]) [[1, 2]] (demo_pool\<lparr>valid := 0\<rparr>, t', [4]) \<and>
     sndq (the (fds t' 4)) = [0, 0, 0, 2, 1, 2]"
proof -
  let ?q = "demo_pool\<lparr>valid := 0\<rparr>"
  obtain s where s: "sckCltPool_init True (Some demo_param) demo_start = (Ret (0, Some demo_pool), s)" "sent_on 4 s = Some []"
    using demo_init_fresh by blast
  let ?t = "s\<lparr>sched := [ok 0, ok 6]\<rparr>"
  from s(2) obtain c where c: "fds s 4 = Some c" "sndq c = []" by (auto simp: sent_on_def)
  have inv: "pool_inv demo_pool" by (simp add: pool_inv_def demo_pool_def conns_def)
  have "sckCltPool_getConnet (Some demo_pool) True s = (Ret ((0, Some 4), Some ?q), s)"
    using getConnet_top [OF inv, of s] by (simp add: demo_pool_def conns_def)
  then have r: "pool_reach (demo_pool, s, []) (?q, s, [4])" by (blast intro: pool_reach.intros pool_step.get)
  have "pool_step (?q, s, [4]) (?q, ?t, [4])" by (rule pool_step.net) (simp_all add: opn_def)
  with r have "pool_reach (demo_pool, s, []) (?q, ?t, [4])" by (rule pool_reach.step)
  moreover have "\<exists>t'. sckCltPool_send (Some ?q) 4 (Some [1, 2]) (int (length [1, 2 :: byte])) ?t = (Ret 0, t') \<and>
      sndq (the (fds t' 4)) = [0, 0, 0, 2, 1, 2]"
    using c by (simp add: sckCltPool_send_def demo_pool_def send_demo_defs)
  then obtain t' where t': "sckCltPool_send (Some ?q) 4 (Some [1, 2]) (int (length [1, 2 :: byte])) ?t = (Ret 0, t')"
      "sndq (the (fds t' 4)) = [0, 0, 0, 2, 1, 2]" by blast
  from s_send [OF s_start t'(1)] have "shared_run 4 (?q, ?t, [4]) [[1, 2]] (?q, t', [4])" by simp
  moreover have "sent_on 4 ?t = Some []" using s(2) by (simp add: sent_on_def)
  ultimately show ?thesis using s(1) t'(2) by blast
qed

theorem pooled_requests_in_order_witness:
  "\<exists>v. recv_all sckServer_rev 3 1 (demo_os (replicate 20 (ok 2)) [0, 0, 0, 2, 1, 2, 9]) = (Ret (Some [[1, 2]]), v) \<and>
     map_option rcvq (fds v 3) = Some [9]"
proof -
  let ?u = "demo_os (replicate 20 (ok 2)) [0, 0, 0, 2, 1, 2, 9]"
  obtain s t t' where d: "sckCltPool_init True (Some demo_param) demo_start = (Ret (0, Some demo_pool), s)"
    "pool_reach (demo_pool, s, []) (demo_pool\<lparr>valid := 0\<rparr>, t, [4])" "sent_on 4 t = Some []"
    "shared_run 4 (demo_pool\<lparr>valid := 0\<rparr>, t, [4]) [[1, 2]] (demo_pool\<lparr>valid := 0\<rparr>, t', [4])"
    "sndq (the (fds t' 4)) = [0, 0, 0, 2, 1, 2]"
    using demo_session by blast
  have "\<exists>v. recv_all sckServer_rev 3 (length [[1, 2 :: byte]]) ?u = (Ret (Some [[1, 2]]), v) \<and>
      fds v = (fds ?u)(3 \<mapsto> (the (fds ?u 3))\<lparr>rcvq := [9]\<rparr>) \<and> 4 \<in> set [4 :: int] \<and> fds t' 4 \<noteq> None"
    by (rule pooled_requests_in_order [OF d(1) demo_start_ok(1,2) _ d(2) _ _ d(3,4)])
      (simp_all add: d(5) demo_start_ok(3) demo_os_def new_sock_def sendable_def INT_MAX_def FD_SETSIZE_def list_all_iff)
  then show ?thesis by auto
qed

end
