(* ===== verification/Client_Table.thy ===== *)
theory Client_Table
  imports Epoll_Host
begin

text \<open>
  The table of clients that the servers on \<^verbatim>\<open>select\<close> and on \<^verbatim>\<open>poll\<close> keep: one descriptor per place,
  negative where the place is free. What the two servers share is that a place in use holds
  an open descriptor, no two places the same, none of them the listening socket's.
\<close>

section \<open>Well-formed tables\<close>

definition table_ok :: "int \<Rightarrow> int list \<Rightarrow> os \<Rightarrow> bool" where
  "table_ok lfd cs s \<longleftrightarrow> fds s lfd \<noteq> None \<and>
     (\<forall>i < length cs. 0 \<le> cs ! i \<longrightarrow> cs ! i \<noteq> lfd \<and> fds s (cs ! i) \<noteq> None) \<and>
     (\<forall>i < length cs. \<forall>j < length cs. 0 \<le> cs ! i \<longrightarrow> cs ! i = cs ! j \<longrightarrow> i = j)"

lemma table_okD:
  assumes "table_ok lfd cs s"
  shows "fds s lfd \<noteq> None" "\<And>i. i < length cs \<Longrightarrow> 0 \<le> cs ! i \<Longrightarrow> cs ! i \<noteq> lfd"
    "\<And>i. i < length cs \<Longrightarrow> 0 \<le> cs ! i \<Longrightarrow> fds s (cs ! i) \<noteq> None"
    "\<And>i j. i < length cs \<Longrightarrow> j < length cs \<Longrightarrow> 0 \<le> cs ! i \<Longrightarrow> cs ! i = cs ! j \<Longrightarrow> i = j"
  using assms unfolding table_ok_def by auto

text \<open>Which descriptors are open is all that matters of the kernel.\<close>

definition same_open :: "os \<Rightarrow> os \<Rightarrow> bool" where
  "same_open s k \<longleftrightarrow> (\<forall>f. (fds k f = None) = (fds s f = None))"

lemma same_open_refl [simp]: "same_open s s"
  by (simp add: same_open_def)

lemma same_open_trans: "same_open s t \<Longrightarrow> same_open t u \<Longrightarrow> same_open s u"
  by (simp add: same_open_def)

lemma read_got_open: "read_got f n s x k \<Longrightarrow> same_open s k"
  by (auto simp: read_got_def same_open_def split: if_splits)

lemma write_put_open: "write_put f bs s m k \<Longrightarrow> same_open s k"
  by (auto simp: write_put_def same_open_def split: if_splits)

lemma table_ok_net: "table_ok lfd cs s \<Longrightarrow> same_open s k \<Longrightarrow> table_ok lfd cs k"
  unfolding table_ok_def same_open_def by simp

lemma table_ok_start: "fds s lfd \<noteq> None \<Longrightarrow> table_ok lfd (replicate n (-1)) s"
  by (simp add: table_ok_def)

lemma table_ok_accept:
  assumes "table_ok lfd cs s" "accepted s f k" "i < length cs"
  shows "table_ok lfd (cs[i := f]) k"
proof -
  note tab = table_okD [OF assms(1)]
  have fresh: "cs ! j \<noteq> f \<and> fds k (cs ! j) = fds s (cs ! j)" if "j < length cs" "0 \<le> cs ! j" for j
    using tab(3) [OF that] assms(2) unfolding accepted_def by (metis fun_upd_other)
  have l: "f \<noteq> lfd" "fds k lfd \<noteq> None" "fds k f \<noteq> None" "0 \<le> f"
    using tab(1) assms(2) by (auto simp: accepted_def dest: fun_cong)
  have at: "cs[i := f] ! a = (if a = i then f else cs ! a)" for a using assms(3) by simp
  have "a = b" if "a < length cs" "b < length cs" "0 \<le> cs[i := f] ! a" "cs[i := f] ! a = cs[i := f] ! b" for a b
    using that fresh [of a] fresh [of b] tab(4) [of a b] l(4) unfolding at by (metis (full_types))
  moreover have "cs[i := f] ! a \<noteq> lfd \<and> fds k (cs[i := f] ! a) \<noteq> None" if "a < length cs" "0 \<le> cs[i := f] ! a" for a
    using that l fresh [of a] tab(2,3) [of a] unfolding at by (cases "a = i") auto
  ultimately show ?thesis
    using l(2) unfolding table_ok_def length_list_update by blast
qed

lemma table_ok_close:
  assumes "table_ok lfd cs s" "i < length cs" "0 \<le> cs ! i" "fds k = (fds s)(cs ! i := None)"
  shows "table_ok lfd (cs[i := -1]) k"
proof -
  note tab = table_okD [OF assms(1)]
  have "cs ! j \<noteq> cs ! i" if "j < length cs" "0 \<le> cs ! j" "j \<noteq> i" for j using tab(4) [of j i] that assms(2) by auto
  with tab assms(2-4) show ?thesis
    unfolding table_ok_def by (auto simp: nth_list_update)
qed

section \<open>The search for a free place\<close>

definition free_place :: "int list \<Rightarrow> nat" where
  "free_place cs = length (takeWhile (\<lambda>f. 0 \<le> f) cs)"

lemma free_place_le: "free_place cs \<le> length cs"
  by (simp add: free_place_def length_takeWhile_le)

lemma free_place_free: "free_place cs < length cs \<Longrightarrow> cs ! free_place cs < 0"
  using nth_length_takeWhile [of "\<lambda>f. 0 \<le> f" cs] by (simp add: free_place_def)

lemma free_place_full: "free_place cs = length cs \<Longrightarrow> f \<in> set cs \<Longrightarrow> 0 \<le> f"
  by (metis free_place_def set_takeWhileD takeWhile_eq_take take_all order_refl)

text \<open>
  When all descriptors in the table, and the listener's, are among \<open>n\<close> numbers, a table of \<open>n\<close>
  places is never full.
\<close>

lemma place_exists:
  assumes "table_ok lfd cs s" "length cs = nat n" "0 \<le> lfd" "lfd < n" "\<And>i. i < length cs \<Longrightarrow> cs ! i < n"
  shows "free_place cs < length cs"
proof (rule ccontr)
  assume "\<not> free_place cs < length cs"
  then have all: "0 \<le> f" if "f \<in> set cs" for f using free_place_full [OF _ that] free_place_le [of cs] by simp
  note tab = table_okD [OF assms(1)]
  have "distinct cs" unfolding distinct_conv_nth using tab(4) all nth_mem by blast
  then have card: "card (set cs) = nat n" using assms(2) by (simp add: distinct_card)
  have "set cs \<subseteq> {0..<n} - {lfd}"
  proof
    fix f assume f: "f \<in> set cs"
    then obtain i where "i < length cs" "f = cs ! i" by (metis in_set_conv_nth)
    with tab(2) [of i] assms(5) [of i] all [OF f] show "f \<in> {0..<n} - {lfd}" by auto
  qed
  then have "card (set cs) \<le> card ({0..<n} - {lfd})" by (intro card_mono) auto
  also have "\<dots> = nat n - 1" using assms(3,4) by simp
  finally show False using card assms(3,4) by simp
qed

section \<open>Letters\<close>

text \<open>\<^verbatim>\<open>toupper\<close> on the characters of the C locale; both servers send back what they get in upper case.\<close>

definition toupper :: "byte \<Rightarrow> byte" where
  "toupper c = (if 97 \<le> c \<and> c \<le> 122 then c - 32 else c)"

end
