(* ===== verification/Select_Server.thy ===== *)
theory Select_Server
  imports Client_Table Socketutil
begin

text \<open>
  The server on \<^verbatim>\<open>select\<close>, \<^verbatim>\<open>select_advance.c\<close> under \<^verbatim>\<open>src/Csocket\<close>: a table of client
  descriptors, the set of all descriptors to watch, and the greatest index and descriptor in
  use. Every client gets back what it sent in upper case; a copy goes to the standard output.
\<close>

section \<open>State\<close>

record select_server = host +
  client :: "int list"
  maxi :: int
  maxfd :: int
  allset :: "int \<Rightarrow> bool"
  listenfd :: int

type_synonym 'a sel = "(select_server, 'a) prog"

definition BUFSIZ :: nat where "BUFSIZ = 8192"

text \<open>The macros on sets are undefined for a descriptor that the set has no bit for.\<close>

definition set_fits :: "int \<Rightarrow> bool" where
  "set_fits f \<longleftrightarrow> 0 \<le> f \<and> f < FD_SETSIZE"

section \<open>The functions\<close>

definition select_start :: "unit sel" where
  "select_start =
     bnd (listen_on 8888) (\<lambda>lfd.
     bnd (require (set_fits lfd)) (\<lambda>_.
     modify (\<lambda>r. r\<lparr>client := replicate (nat FD_SETSIZE) (-1), maxi := -1, maxfd := lfd,
       allset := (\<lambda>f. f = lfd), listenfd := lfd\<rparr>)))"

text \<open>A new connection takes the first free place.\<close>

definition select_accept :: "unit sel" where
  "select_accept =
     bnd (gets listenfd) (\<lambda>lfd.
     bnd (call (Accept lfd)) (\<lambda>connfd.
     bnd (gets (\<lambda>r. free_place (client r))) (\<lambda>i.
     if i = nat FD_SETSIZE then exit_with 1
     else
       bnd (modify (\<lambda>r. r\<lparr>client := (client r)[i := connfd]\<rparr>)) (\<lambda>_.
       bnd (require (set_fits connfd)) (\<lambda>_.
       modify (\<lambda>r. r\<lparr>allset := (allset r)(connfd := True), maxfd := max connfd (maxfd r),
         maxi := max (int i) (maxi r)\<rparr>))))))"

text \<open>One place of the table; the result says whether its client was ready.\<close>

definition select_client :: "nat \<Rightarrow> (int \<Rightarrow> bool) \<Rightarrow> bool sel" where
  "select_client i rset =
     bnd (gets client) (\<lambda>cs.
     bnd (require (i < length cs)) (\<lambda>_.
     let sockfd = cs ! i in
     if sockfd < 0 then ret False
     else
       bnd (require (set_fits sockfd)) (\<lambda>_.
       if \<not> rset sockfd then ret False
       else
         bnd (call (Read sockfd BUFSIZ)) (\<lambda>(n, bs).
         bnd (if n = 0 then
                bnd (call (Close sockfd)) (\<lambda>_.
                modify (\<lambda>r. r\<lparr>allset := (allset r)(sockfd := False), client := (client r)[i := -1]\<rparr>))
              else if n > 0 then
                bnd (call (Write sockfd (map toupper bs))) (\<lambda>_.
                bnd (call (Write 1 (map toupper bs))) (\<lambda>_. ret ()))
              else ret ()) (\<lambda>_. ret True)))))"

text \<open>The loop over the table: \<open>k\<close> places from \<open>i\<close> on, with \<open>n\<close> ready descriptors left.\<close>

fun select_scan :: "nat \<Rightarrow> nat \<Rightarrow> int \<Rightarrow> (int \<Rightarrow> bool) \<Rightarrow> unit sel" where
  "select_scan 0 i n rset = ret ()"
| "select_scan (Suc k) i n rset =
     bnd (select_client i rset) (\<lambda>hit.
       if hit then (if n - 1 = 0 then ret () else select_scan k (Suc i) (n - 1) rset)
       else select_scan k (Suc i) n rset)"

text \<open>One round of the main loop, with what \<^verbatim>\<open>select\<close> returned and stored in \<^verbatim>\<open>rset\<close>.\<close>

definition select_round :: "int \<Rightarrow> (int \<Rightarrow> bool) \<Rightarrow> unit sel" where
  "select_round nready rset =
     (if nready < 0 then exit_with (-1)
      else
        bnd (gets listenfd) (\<lambda>lfd.
        bnd (require (set_fits lfd)) (\<lambda>_.
        if rset lfd then
          bnd select_accept (\<lambda>_.
          if nready - 1 = 0 then ret ()
          else bnd (gets maxi) (\<lambda>m. select_scan (nat (m + 1)) 0 (nready - 1) rset))
        else bnd (gets maxi) (\<lambda>m. select_scan (nat (m + 1)) 0 nready rset))))"

section \<open>The invariant\<close>

definition sel_inv :: "select_server \<Rightarrow> bool" where
  "sel_inv r \<longleftrightarrow> length (client r) = nat FD_SETSIZE \<and> table_ok (listenfd r) (client r) (kernel r) \<and>
     0 \<le> listenfd r \<and> listenfd r \<le> maxfd r \<and> maxfd r < FD_SETSIZE \<and> -1 \<le> maxi r \<and> maxi r < FD_SETSIZE \<and>
     (\<forall>i < length (client r). 0 \<le> client r ! i \<longrightarrow> int i \<le> maxi r \<and> client r ! i \<le> maxfd r) \<and>
     (\<forall>f. allset r f \<longleftrightarrow> f = listenfd r \<or> 0 \<le> f \<and> f \<in> set (client r))"

lemma sel_invD:
  assumes "sel_inv r"
  shows "length (client r) = nat FD_SETSIZE" "table_ok (listenfd r) (client r) (kernel r)"
    "0 \<le> listenfd r" "listenfd r \<le> maxfd r" "maxfd r < FD_SETSIZE" "-1 \<le> maxi r" "maxi r < FD_SETSIZE"
    "\<And>i. i < length (client r) \<Longrightarrow> 0 \<le> client r ! i \<Longrightarrow> int i \<le> maxi r \<and> client r ! i \<le> maxfd r"
    "\<And>f. allset r f \<longleftrightarrow> f = listenfd r \<or> 0 \<le> f \<and> f \<in> set (client r)"
  using assms unfolding sel_inv_def by auto

lemma sel_inv_fits: "sel_inv r \<Longrightarrow> set_fits (listenfd r)"
  using sel_invD(3-5) [of r] by (simp add: set_fits_def)

lemma sel_inv_client_fits: "sel_inv r \<Longrightarrow> i < length (client r) \<Longrightarrow> 0 \<le> client r ! i \<Longrightarrow> set_fits (client r ! i)"
  using sel_invD(5) [of r] sel_invD(8) [of r i] by (auto simp: set_fits_def)

lemma sel_inv_net: "sel_inv r \<Longrightarrow> same_open (kernel r) k \<Longrightarrow> sel_inv (r\<lparr>kernel := k\<rparr>)"
  using table_ok_net unfolding sel_inv_def by auto

lemma sel_place:
  assumes "sel_inv r"
  shows "free_place (client r) < length (client r)"
proof (rule place_exists [where n = FD_SETSIZE])
  note inv = sel_invD [OF assms]
  show "table_ok (listenfd r) (client r) (kernel r)" "length (client r) = nat FD_SETSIZE" "0 \<le> listenfd r" "listenfd r < FD_SETSIZE"
    using inv(1-5) by auto
  show "client r ! i < FD_SETSIZE" if "i < length (client r)" for i
    using inv(5) inv(8) [OF that] by (cases "0 \<le> client r ! i") (auto simp: FD_SETSIZE_def)
qed

lemma sel_inv_accept:
  assumes "sel_inv r" "accepted (kernel r) f k" "set_fits f" "i < length (client r)" "client r ! i < 0"
  shows "sel_inv (r\<lparr>kernel := k, client := (client r)[i := f], allset := (allset r)(f := True),
    maxfd := max f (maxfd r), maxi := max (int i) (maxi r)\<rparr>)"
proof -
  note inv = sel_invD [OF assms(1)]
  have mem: "g \<in> set ((client r)[i := f]) \<longleftrightarrow> g = f \<or> g \<in> set (client r)" if "0 \<le> g" for g
  proof
    assume "g \<in> set ((client r)[i := f])"
    then show "g = f \<or> g \<in> set (client r)" using set_update_subset_insert by fastforce
  next
    assume "g = f \<or> g \<in> set (client r)"
    then show "g \<in> set ((client r)[i := f])"
    proof
      assume "g \<in> set (client r)"
      then obtain j where "j < length (client r)" "client r ! j = g" by (metis in_set_conv_nth)
      with that assms(5) show ?thesis by (metis length_list_update not_le nth_list_update_neq nth_mem)
    qed (use assms(4) set_update_memI in metis)
  qed
  have all: "((allset r)(f := True)) g \<longleftrightarrow> g = listenfd r \<or> 0 \<le> g \<and> g \<in> set ((client r)[i := f])" for g
    using inv(3) inv(9) [of g] mem [of g] assms(3) by (auto simp: set_fits_def)
  have "table_ok (listenfd r) ((client r)[i := f]) k" by (rule table_ok_accept [OF inv(2) assms(2,4)])
  then show ?thesis
    using inv(1,3-7) inv(8) all assms(3,4) unfolding sel_inv_def
    by (auto simp: set_fits_def nth_list_update FD_SETSIZE_def split: if_splits) fastforce+
qed

lemma sel_inv_close:
  assumes "sel_inv r" "i < length (client r)" "0 \<le> client r ! i" "fds k = (fds (kernel r))(client r ! i := None)"
  shows "sel_inv (r\<lparr>kernel := k, allset := (allset r)(client r ! i := False), client := (client r)[i := -1]\<rparr>)"
proof -
  note inv = sel_invD [OF assms(1)]
  note tab = table_okD [OF inv(2)]
  have mem: "g \<in> set ((client r)[i := -1]) \<longleftrightarrow> g \<noteq> client r ! i \<and> g \<in> set (client r)" if "0 \<le> g" for g
  proof -
    have "g \<in> set ((client r)[i := -1]) \<longleftrightarrow> (\<exists>j < length (client r). j \<noteq> i \<and> client r ! j = g)"
      using that assms(2) by (auto simp: in_set_conv_nth nth_list_update)
    also have "\<dots> \<longleftrightarrow> g \<noteq> client r ! i \<and> g \<in> set (client r)"
      using tab(4) [OF _ assms(2)] that by (auto simp: in_set_conv_nth)
    finally show ?thesis .
  qed
  have all: "((allset r)(client r ! i := False)) g \<longleftrightarrow> g = listenfd r \<or> 0 \<le> g \<and> g \<in> set ((client r)[i := -1])" for g
    using inv(9) [of g] mem [of g] assms(3) tab(2) [OF assms(2,3)] inv(3) by auto
  have "table_ok (listenfd r) ((client r)[i := -1]) k" by (rule table_ok_close [OF inv(2) assms(2-4)])
  then show ?thesis
    using inv(1,3-7) inv(8) all assms(2) unfolding sel_inv_def by (auto simp: nth_list_update split: if_splits)
qed

section \<open>Rounds keep it\<close>

lemma select_client_ends:
  assumes "sel_inv r" "i < length (client r)"
  shows "may_exit (select_client i rset) (\<lambda>_. sel_inv) r"
proof -
  let ?f = "client r ! i"
  have serve: "may_exit (bnd (call (Read ?f BUFSIZ)) (\<lambda>(n, bs).
      bnd (if n = 0 then bnd (call (Close ?f)) (\<lambda>_.
             modify (\<lambda>r. r\<lparr>allset := (allset r)(?f := False), client := (client r)[i := -1]\<rparr>))
           else if n > 0 then bnd (call (Write ?f (map toupper bs))) (\<lambda>_. bnd (call (Write 1 (map toupper bs))) (\<lambda>_. ret ()))
           else ret ()) (\<lambda>_. ret True))) (\<lambda>_. sel_inv) r" if f: "0 \<le> ?f"
  proof (rule may_exit_bnd_call [OF Read_runs], goal_cases)
    case (1 x k)
    obtain n bs where x: "x = (n, bs)" by fastforce
    have k: "sel_inv (r\<lparr>kernel := k\<rparr>)" using sel_inv_net [OF assms(1) read_got_open [OF 1]] .
    have close: "sel_inv (r\<lparr>kernel := k', allset := (allset r)(?f := False), client := (client r)[i := -1]\<rparr>)"
      if "fds k' = (fds k)(?f := None)" for k'
      using sel_inv_close [OF k, of i k'] f assms(2) that by simp
    have sent: "sel_inv (r\<lparr>kernel := k''\<rparr>)" if "write_put ?f us k m k'" "write_put 1 us k' m' k''" for us m m' k' k''
      using sel_inv_net [OF k, of k''] same_open_trans [OF write_put_open [OF that(1)] write_put_open [OF that(2)]] by simp
    show ?case
      unfolding x prod.case bnd_assoc
      by (rule may_exit_bnd [where P = "\<lambda>_. sel_inv"])
        (auto intro!: may_exit_intros may_exit_bnd_call [OF Close_runs] may_exit_bnd_call [OF Write_runs] dest: close sent simp: k)
  qed
  show ?thesis
    using serve assms sel_inv_client_fits [OF assms] unfolding select_client_def
    by (auto intro!: may_exit_intros simp: Let_def)
qed

lemma select_scan_ends: "sel_inv r \<Longrightarrow> i + k \<le> nat FD_SETSIZE \<Longrightarrow> may_exit (select_scan k i n rset) (\<lambda>_. sel_inv) r"
proof (induction k arbitrary: i n r)
  case (Suc k)
  then have "may_exit (select_client i rset) (\<lambda>_. sel_inv) r"
    using select_client_ends sel_invD(1) by simp
  then show ?case
    unfolding select_scan.simps
    by (rule may_exit_bnd) (use Suc in \<open>auto intro!: may_exit_intros Suc.IH\<close>)
qed (simp add: may_exit_intros)

text \<open>
  There always is a free place, so the process ends only when \<^verbatim>\<open>Accept\<close> fails (status -1), never
  with status 1; \<^verbatim>\<open>FD_SET\<close> writes outside the set when the new descriptor is 1024 or more.
\<close>

lemma select_accept_cases:
  assumes "sel_inv r"
  shows "case select_accept r of
      (Ret _, t) \<Rightarrow> sel_inv t \<and> (\<exists>n i. set_fits n \<and> accepted (kernel r) n (kernel t) \<and> i < length (client r) \<and>
        client r ! i < 0 \<and> client t = (client r)[i := n])
    | (Exit c, t) \<Rightarrow> c = -1 \<and> client t = client r
    | (Block, t) \<Rightarrow> True
    | (Fault, t) \<Rightarrow> \<exists>n \<ge> FD_SETSIZE. accepted (kernel r) n (kernel t)"
proof -
  obtain x k where acc: "Accept (listenfd r) (kernel r) = (x, k)" by fastforce
  have len: "free_place (client r) < nat FD_SETSIZE" using sel_place [OF assms] sel_invD(1) [OF assms] by simp
  have free: "client r ! free_place (client r) < 0" by (rule free_place_free [OF sel_place [OF assms]])
  show ?thesis
  proof (cases x)
    case (Ret n)
    then have n: "accepted (kernel r) n k" using Accept_outcome [where fd = "listenfd r" and s = "kernel r"] acc by simp
    let ?i = "free_place (client r)"
    have run: "select_accept r = bnd (require (set_fits n)) (\<lambda>_. modify (\<lambda>r. r\<lparr>allset := (allset r)(n := True),
        maxfd := max n (maxfd r), maxi := max (int ?i) (maxi r)\<rparr>)) (r\<lparr>kernel := k, client := (client r)[?i := n]\<rparr>)"
      using acc Ret len by (simp add: select_accept_def bnd_def call_def gets_def modify_def)
    show ?thesis
    proof (cases "set_fits n")
      case True
      from sel_inv_accept [OF assms n True sel_place [OF assms] free] True n free sel_place [OF assms] show ?thesis
        by (auto simp: run prog_basics)
    next
      case False
      then have "FD_SETSIZE \<le> n" using n by (simp add: set_fits_def accepted_def)
      with False n show ?thesis by (auto simp: run prog_basics)
    qed
  qed (use acc Accept_outcome [where fd = "listenfd r" and s = "kernel r"] in \<open>simp_all add: select_accept_def bnd_def call_def gets_def\<close>)
qed

lemma select_round_cases:
  assumes "sel_inv r"
  shows "case select_round nready rset r of
      (Ret _, t) \<Rightarrow> sel_inv t
    | (Fault, t) \<Rightarrow> \<exists>n \<ge> FD_SETSIZE. accepted (kernel r) n (kernel t)
    | _ \<Rightarrow> True"
proof -
  have scan: "may_exit (bnd (gets maxi) (\<lambda>m. select_scan (nat (m + 1)) 0 n rset)) (\<lambda>_. sel_inv) t" if "sel_inv t" for n t
    using sel_invD(7) [OF that] by (auto intro!: may_exit_intros select_scan_ends that simp: FD_SETSIZE_def)
  have safe: "case m t of (Ret _, u) \<Rightarrow> sel_inv u | (Fault, u) \<Rightarrow> P u | _ \<Rightarrow> True"
    if "may_exit m (\<lambda>_. sel_inv) t" for m :: "unit sel" and t P
    using that by (auto simp: may_exit_def split: prod.splits res.splits)
  consider "nready < 0" | "0 \<le> nready" "\<not> rset (listenfd r)" | "0 \<le> nready" "rset (listenfd r)" by linarith
  then show ?thesis
  proof cases
    case 1
    then show ?thesis by (simp add: select_round_def exit_with_def)
  next
    case 2
    then have "select_round nready rset r = bnd (gets maxi) (\<lambda>m. select_scan (nat (m + 1)) 0 nready rset) r"
      using sel_inv_fits [OF assms] by (simp add: select_round_def bnd_def prog_basics)
    then show ?thesis using safe [OF scan [OF assms]] by simp
  next
    case 3
    then have run: "select_round nready rset r = bnd select_accept (\<lambda>_. if nready - 1 = 0 then ret ()
        else bnd (gets maxi) (\<lambda>m. select_scan (nat (m + 1)) 0 (nready - 1) rset)) r"
      using sel_inv_fits [OF assms] by (simp add: select_round_def bnd_def prog_basics)
    show ?thesis
    proof (cases "\<exists>t. select_accept r = (Ret (), t)")
      case True
      then obtain t where t: "select_accept r = (Ret (), t)" by blast
      then have "sel_inv t" using select_accept_cases [OF assms] by simp
      with safe [OF scan [OF this]] t show ?thesis by (simp add: run ret_def)
    next
      case False
      then show ?thesis
        using select_accept_cases [OF assms] by (auto simp: run bnd_def split: prod.splits res.splits)
    qed
  qed
qed

text \<open>The server after its start: rounds, with any result of \<^verbatim>\<open>select\<close>, and the network between them.\<close>

inductive selecting :: "select_server \<Rightarrow> select_server \<Rightarrow> bool" for x where
  sel_begin: "selecting x x"
| sel_round: "selecting x r \<Longrightarrow> select_round nready rset r = (Ret (), t) \<Longrightarrow> selecting x t"
| sel_net: "selecting x r \<Longrightarrow> same_open (kernel r) k \<Longrightarrow> selecting x (r\<lparr>kernel := k\<rparr>)"

lemma selecting_inv: "selecting x r \<Longrightarrow> sel_inv x \<Longrightarrow> sel_inv r"
proof (induction rule: selecting.induct)
  case (sel_round r nready rset t)
  then show ?case using select_round_cases [of r nready rset] by simp
qed (auto intro: sel_inv_net)

lemma select_start_inv: "may_exit (bnd (listen_on 8888) (\<lambda>lfd. if set_fits lfd then modify (\<lambda>r. r\<lparr>client := replicate (nat FD_SETSIZE) (-1),
    maxi := -1, maxfd := lfd, allset := (\<lambda>f. f = lfd), listenfd := lfd\<rparr>) else block)) (\<lambda>_. sel_inv) x"
proof (rule may_exit_listen_on, goal_cases)
  case (1 lfd k)
  have "sel_inv (x\<lparr>kernel := k, client := replicate (nat FD_SETSIZE) (-1), maxi := -1, maxfd := lfd,
      allset := (\<lambda>f. f = lfd), listenfd := lfd\<rparr>)" if "set_fits lfd"
    using that 1 table_ok_start [of k lfd "nat FD_SETSIZE"] unfolding sel_inv_def
    by (auto simp: set_fits_def listener_up_def FD_SETSIZE_def)
  then show ?case by (auto simp: may_exit_def prog_basics)
qed

lemma select_start_Ret:
  assumes "select_start x = (Ret (), r)"
  shows "sel_inv r"
proof -
  have "bnd (listen_on 8888) (\<lambda>lfd. if set_fits lfd then modify (\<lambda>r. r\<lparr>client := replicate (nat FD_SETSIZE) (-1),
    maxi := -1, maxfd := lfd, allset := (\<lambda>f. f = lfd), listenfd := lfd\<rparr>) else block) x = (Ret (), r)"
    using assms by (auto simp: select_start_def bnd_def prog_basics split: prod.splits res.splits if_splits)
  with may_exit_Ret [OF select_start_inv] show ?thesis by blast
qed

section \<open>Properties\<close>


definition blank_select :: "answer list \<Rightarrow> select_server" where
  "blank_select xs = \<lparr>kernel = demo_os xs [], client = [], maxi = 0, maxfd = 0, allset = (\<lambda>_. False), listenfd = 0\<rparr>"

lemma demo_select:
  "\<exists>r c. select_start (blank_select (ok 5 # ok 0 # ok 0 # ok 0 # xs)) = (Ret (), r) \<and> listenfd r = 5 \<and> listening c \<and>
     kernel r = (demo_os xs [])\<lparr>fds := [3 \<mapsto> new_sock [] True, 5 \<mapsto> c]\<rparr> \<and>
     client r = replicate (nat FD_SETSIZE) (-1)"
proof -
  let ?r = "blank_select (ok 5 # ok 0 # ok 0 # ok 0 # xs)"
  have "sched (kernel ?r) = ok 5 # ok 0 # ok 0 # ok 0 # xs" "fds (kernel ?r) (int 5) = None"
    by (simp_all add: blank_select_def demo_os_def)
  from listen_on_good [OF this, of 8888] obtain c where c: "listening c"
    "listen_on 8888 ?r = (Ret 5, ?r\<lparr>kernel := (kernel ?r)\<lparr>sched := xs, fds := (fds (kernel ?r))(5 \<mapsto> c)\<rparr>\<rparr>)" by auto
  then show ?thesis
    by (simp add: select_start_def bnd_def require_def set_fits_def FD_SETSIZE_def ret_def modify_def blank_select_def demo_os_def) blast
qed

lemma first_place: "0 < n \<Longrightarrow> free_place (replicate n (-1)) = 0"
  by (cases n) (simp_all add: free_place_def)


text \<open>
  A new connection always finds a place, so that \<^verbatim>\<open>main\<close> never ends with "too many clients"
  (\<open>select_accept_cases\<close>). What the check does not catch is a descriptor of 1024 or more.
\<close>

lemma select_accept_overflows:
  "\<exists>r t. select_start (blank_select [ok 5, ok 0, ok 0, ok 0, ok 2000]) = (Ret (), r) \<and>
     select_accept r = (Fault, t) \<and> (\<exists>n \<ge> FD_SETSIZE. accepted (kernel r) n (kernel t))"
proof -
  obtain r c where r: "select_start (blank_select [ok 5, ok 0, ok 0, ok 0, ok 2000]) = (Ret (), r)" "listenfd r = 5" "listening c"
    "kernel r = (demo_os [ok 2000] [])\<lparr>fds := [3 \<mapsto> new_sock [] True, 5 \<mapsto> c]\<rparr>" "client r = replicate (nat FD_SETSIZE) (-1)"
    using demo_select [of "[ok 2000]"] by blast
  have place: "free_place (client r) = 0" using r(5) first_place [of "nat FD_SETSIZE"] by (simp add: FD_SETSIZE_def)
  have "\<exists>t. select_accept r = (Fault, t)"
    using r place
    by (simp add: select_accept_def bnd_def call_def prog_basics set_fits_def FD_SETSIZE_def Accept.simps
        sys_accept_def syscall_def demo_os_def open_fd_def set_fd_def)
  with select_accept_cases [OF select_start_Ret [OF r(1)]] r(1) show ?thesis by auto
qed

text \<open>What may have become of the client at place \<open>i\<close> on descriptor \<open>f\<close> when it has been looked at.\<close>

definition uppered :: "select_server \<Rightarrow> nat \<Rightarrow> int \<Rightarrow> sock \<Rightarrow> sock \<Rightarrow> select_server \<Rightarrow> bool" where
  "uppered r i f c d t \<longleftrightarrow> client t = (client r)[i := -1] \<and> fds (kernel t) = (fds (kernel r))(f := None) \<or>
    client t = client r \<and> (\<exists>n m p. n \<le> BUFSIZ \<and> m \<le> n \<and> p \<le> n \<and> n \<le> length (rcvq c) \<and>
      fds (kernel t) = (fds (kernel r))(f \<mapsto> c\<lparr>rcvq := drop n (rcvq c), sndq := sndq c @ map toupper (take m (rcvq c))\<rparr>,
        1 \<mapsto> d\<lparr>sndq := sndq d @ map toupper (take p (rcvq c))\<rparr>))"

lemma uppered_idle:
  assumes "fds (kernel r) f = Some c" "fds (kernel r) 1 = Some d" "fds k = fds (kernel r)"
  shows "uppered r i f c d (r\<lparr>kernel := k\<rparr>)"
proof -
  have "fds k = (fds (kernel r))(f \<mapsto> c\<lparr>rcvq := drop 0 (rcvq c), sndq := sndq c @ map toupper (take 0 (rcvq c))\<rparr>,
      1 \<mapsto> d\<lparr>sndq := sndq d @ map toupper (take 0 (rcvq c))\<rparr>)" using assms by auto
  then show ?thesis unfolding uppered_def by fastforce
qed

lemma uppered_closed: "fds k = (fds (kernel r))(f := None) \<Longrightarrow> uppered r i f c d (r\<lparr>kernel := k, allset := g, client := (client r)[i := -1]\<rparr>)"
  by (simp add: uppered_def)

lemma uppered_sent:
  assumes "fds (kernel r) 1 = Some d" "f \<noteq> 1"
    and k: "0 < n" "nat n \<le> BUFSIZ" "nat n \<le> length (rcvq c)" "fds k = (fds (kernel r))(f \<mapsto> c\<lparr>rcvq := drop (nat n) (rcvq c)\<rparr>)"
    and w: "write_put f (map toupper (take (nat n) (rcvq c))) k m k'" "write_put 1 (map toupper (take (nat n) (rcvq c))) k' p k''"
  shows "uppered r i f c d (r\<lparr>kernel := k''\<rparr>)"
proof -
  have m: "fds k' = (fds k)(f \<mapsto> c\<lparr>rcvq := drop (nat n) (rcvq c), sndq := sndq c @ map toupper (take (nat m) (rcvq c))\<rparr>) \<and> nat m \<le> nat n"
    using w(1) k unfolding write_put_def by (auto simp: take_map take_take min_absorb1 fun_upd_idem)
  have d: "fds k' 1 = Some d" using m k(4) assms(1,2) by simp
  have p: "fds k'' = (fds k')(1 \<mapsto> d\<lparr>sndq := sndq d @ map toupper (take (nat p) (rcvq c))\<rparr>) \<and> nat p \<le> nat n"
    using w(2) d k unfolding write_put_def by (auto simp: take_map take_take min_absorb1 fun_upd_idem)
  have "fds k'' = (fds (kernel r))(f \<mapsto> c\<lparr>rcvq := drop (nat n) (rcvq c), sndq := sndq c @ map toupper (take (nat m) (rcvq c))\<rparr>,
      1 \<mapsto> d\<lparr>sndq := sndq d @ map toupper (take (nat p) (rcvq c))\<rparr>)"
    using m p k(4) by simp
  with m p k show ?thesis unfolding uppered_def by auto
qed

lemma uppered_read:
  assumes "fds (kernel r) f = Some c" "fds (kernel r) 1 = Some d" "f \<noteq> 1"
  shows "may_exit (bnd (call (Read f BUFSIZ)) (\<lambda>(n, bs).
    bnd (if n = 0 then bnd (call (Close f)) (\<lambda>_.
           modify (\<lambda>r. r\<lparr>allset := (allset r)(f := False), client := (client r)[i := -1]\<rparr>))
         else if n > 0 then bnd (call (Write f (map toupper bs))) (\<lambda>_. bnd (call (Write 1 (map toupper bs))) (\<lambda>_. ret ()))
         else ret ()) (\<lambda>_. ret True))) (\<lambda>hit t. hit \<and> uppered r i f c d t) r"
proof (rule may_exit_bnd_call [OF Read_runs], goal_cases)
  case (1 x k)
  obtain n bs where x: "x = (n, bs)" by fastforce
  have got: "n \<le> 0 \<and> fds k = fds (kernel r) \<or> 0 < n \<and> bs = take (nat n) (rcvq c) \<and> nat n \<le> BUFSIZ \<and>
      nat n \<le> length (rcvq c) \<and> fds k = (fds (kernel r))(f \<mapsto> c\<lparr>rcvq := drop (nat n) (rcvq c)\<rparr>)"
    using 1 assms(1) by (auto simp: x read_got_def)
  show ?case
    unfolding x prod.case
    by (rule may_exit_bnd [where P = "\<lambda>_. uppered r i f c d"])
      (use got in \<open>auto intro!: may_exit_intros may_exit_bnd_call [OF Close_runs] may_exit_bnd_call [OF Write_runs]
         intro: uppered_idle [OF assms(1,2)] uppered_closed uppered_sent [OF assms(2,3)]\<close>)
qed

text \<open>
  What a ready client gets. Either its connection is closed and its place is free again, or
  \<open>n\<close> bytes are taken off its stream, at most 8192, and the first \<open>m\<close> of them, as far as one
  call of \<^verbatim>\<open>write\<close> accepts them, are sent back in upper case; the first \<open>p\<close> of them are
  written to the standard output. The other places and the other descriptors stay as they are.
\<close>

theorem select_upper:
  assumes "i < length (client r)" "client r ! i = f" "0 \<le> f" "f \<noteq> 1" "rset f"
    "fds (kernel r) f = Some c" "fds (kernel r) 1 = Some d" "select_client i rset r = (Ret hit, t)"
  shows "hit \<and> (client t = (client r)[i := -1] \<and> fds (kernel t) = (fds (kernel r))(f := None) \<or>
    client t = client r \<and> (\<exists>n m p. n \<le> BUFSIZ \<and> m \<le> n \<and> p \<le> n \<and> n \<le> length (rcvq c) \<and>
      fds (kernel t) = (fds (kernel r))(f \<mapsto> c\<lparr>rcvq := drop n (rcvq c), sndq := sndq c @ map toupper (take m (rcvq c))\<rparr>,
        1 \<mapsto> d\<lparr>sndq := sndq d @ map toupper (take p (rcvq c))\<rparr>)))"
proof -
  have fits: "set_fits f"
    using assms(1-3,5,8) by (auto simp: select_client_def bnd_def prog_basics Let_def split: if_splits)
  have "may_exit (select_client i rset) (\<lambda>hit t. hit \<and> uppered r i f c d t) r"
    using uppered_read [OF assms(6,7,4), of i] assms(1-3,5) fits unfolding select_client_def
    by (auto intro!: may_exit_intros simp: Let_def)
  then have "hit \<and> uppered r i f c d t" using assms(8) by (auto dest: may_exit_Ret)
  then show ?thesis by (simp add: uppered_def)
qed

theorem select_upper_witness:
  "\<exists>(r :: select_server) t. select_client 0 (\<lambda>_. True) r = (Ret True, t) \<and>
     fds (kernel r) 6 = Some (new_sock [104, 105, 33] False) \<and>
     (\<exists>n m p. n \<le> BUFSIZ \<and> m \<le> n \<and> p \<le> n \<and> n \<le> 3 \<and>
       fds (kernel t) = (fds (kernel r))(6 \<mapsto> (new_sock (drop n [104, 105, 33]) False)\<lparr>sndq := map toupper (take m [104, 105, 33])\<rparr>,
        1 \<mapsto> (new_sock [] False)\<lparr>sndq := map toupper (take p [104, 105, 33])\<rparr>))"
proof -
  define r :: select_server where "r = \<lparr>kernel = (demo_os [ok 3, ok 2, ok 3] [])\<lparr>fds := [6 \<mapsto> new_sock [104, 105, 33] False, 1 \<mapsto> new_sock [] False]\<rparr>,
    client = [6], maxi = 0, maxfd = 6, allset = (\<lambda>f. f \<in> {5, 6}), listenfd = 5\<rparr>"
  have r: "client r = [6]" "fds (kernel r) 6 = Some (new_sock [104, 105, 33] False)" "fds (kernel r) 1 = Some (new_sock [] False)"
    by (simp_all add: r_def)
  have "\<exists>t. select_client 0 (\<lambda>_. True) r = (Ret True, t) \<and> client t = [6]"
    by (simp add: r_def select_client_def bnd_def call_def prog_basics set_fits_def FD_SETSIZE_def BUFSIZ_def Read.simps Write.simps
        sys_read_def sys_write_def syscall_def demo_os_def new_sock_def set_fd_def Let_def)
  then obtain t where t: "select_client 0 (\<lambda>_. True) r = (Ret True, t)" "client t = [6]" by blast
  from select_upper [OF _ _ _ _ _ r(2,3) t(1)] r(1) t(2)
  have "\<exists>n m p. n \<le> BUFSIZ \<and> m \<le> n \<and> p \<le> n \<and> n \<le> 3 \<and>
       fds (kernel t) = (fds (kernel r))(6 \<mapsto> (new_sock (drop n [104, 105, 33]) False)\<lparr>sndq := map toupper (take m [104, 105, 33])\<rparr>,
        1 \<mapsto> (new_sock [] False)\<lparr>sndq := map toupper (take p [104, 105, 33])\<rparr>)"
    by (simp add: new_sock_def numeral_3_eq_3)
  with r(2) t(1) show ?thesis by blast
qed

end
