(* ===== verification/Poll_Server.thy ===== *)
theory Poll_Server
  imports Client_Table
begin

unbundle bit_operations_syntax

text \<open>
  The server on \<^verbatim>\<open>poll\<close>, \<^verbatim>\<open>poll.c\<close> under \<^verbatim>\<open>src/Csocket\<close>: an array of 1024 \<^verbatim>\<open>pollfd\<close> records, the first
  one for the listening socket, the others for clients. Every client gets back what it sent in
  upper case.
\<close>

section \<open>State\<close>

definition OPEN_MAX :: nat where "OPEN_MAX = 1024"
definition MAXLINE :: nat where "MAXLINE = 80"
definition POLLIN :: int where "POLLIN = 1"

record pollfd =
  fd :: int
  events :: int
  revents :: int

text \<open>The array is a local variable: before \<^verbatim>\<open>main\<close> writes to it, it holds what the stack held.\<close>

record poll_server = host +
  client :: "pollfd list"
  maxi :: nat
  listenfd :: int

type_synonym 'a polls = "(poll_server, 'a) prog"

section \<open>The functions\<close>

definition poll_start :: "unit polls" where
  "poll_start =
     bnd (listen_on 8000) (\<lambda>lfd.
     modify (\<lambda>r. r\<lparr>client := (map (\<lambda>e. e\<lparr>fd := -1\<rparr>) (client r))[0 := (client r ! 0)\<lparr>fd := lfd, events := POLLIN\<rparr>],
       maxi := 0, listenfd := lfd\<rparr>))"

text \<open>
  What \<^verbatim>\<open>poll\<close> stores when it succeeds: the reported events of the first \<open>n\<close> records, none for a
  record with a negative descriptor. When it fails it stores nothing.
\<close>

definition polled :: "nat \<Rightarrow> (nat \<Rightarrow> int) \<Rightarrow> pollfd list \<Rightarrow> pollfd list" where
  "polled n rep cs = map2 (\<lambda>i e. if i < n then e\<lparr>revents := if fd e < 0 then 0 else rep i\<rparr> else e) [0..<length cs] cs"

definition poll_wait :: "int \<Rightarrow> (nat \<Rightarrow> int) \<Rightarrow> unit polls" where
  "poll_wait nready rep = modify (\<lambda>r. if nready < 0 then r else r\<lparr>client := polled (Suc (maxi r)) rep (client r)\<rparr>)"

definition poll_accept :: "unit polls" where
  "poll_accept =
     bnd (gets listenfd) (\<lambda>lfd.
     bnd (call (Accept lfd)) (\<lambda>connfd.
     bnd (gets (\<lambda>r. Suc (free_place (map fd (tl (client r)))))) (\<lambda>i.
     if i = OPEN_MAX then exit_with (-1)
     else
       bnd (gets client) (\<lambda>cs.
       bnd (require (i < length cs)) (\<lambda>_.
       modify (\<lambda>r. r\<lparr>client := cs[i := (cs ! i)\<lparr>fd := connfd, events := POLLIN\<rparr>], maxi := max i (maxi r)\<rparr>))))))"

definition drop_client :: "nat \<Rightarrow> int \<Rightarrow> unit polls" where
  "drop_client i f =
     bnd (call (Close f)) (\<lambda>_.
     modify (\<lambda>r. r\<lparr>client := (client r)[i := (client r ! i)\<lparr>fd := -1\<rparr>]\<rparr>))"

definition poll_client :: "nat \<Rightarrow> bool polls" where
  "poll_client i =
     bnd (gets client) (\<lambda>cs.
     bnd (require (i < length cs)) (\<lambda>_.
     let sockfd = fd (cs ! i) in
     if sockfd < 0 \<or> revents (cs ! i) AND POLLIN = 0 then ret False
     else
       bnd (call (Read sockfd MAXLINE)) (\<lambda>(n, bs).
       bnd (gets (\<lambda>r. errno (kernel r))) (\<lambda>e.
       bnd (if n < 0 then (if e = ECONNRESET then drop_client i sockfd else exit_with (-1))
            else if n = 0 then drop_client i sockfd
            else bnd (call (Writen sockfd (map toupper bs))) (\<lambda>_. ret ())) (\<lambda>_. ret True)))))"

text \<open>The loop over the records: \<open>k\<close> of them from \<open>i\<close> on, with \<open>n\<close> ready descriptors left.\<close>

fun poll_scan :: "nat \<Rightarrow> nat \<Rightarrow> int \<Rightarrow> unit polls" where
  "poll_scan 0 i n = ret ()"
| "poll_scan (Suc k) i n =
     bnd (poll_client i) (\<lambda>hit.
       if hit then (if n - 1 \<le> 0 then ret () else poll_scan k (Suc i) (n - 1))
       else poll_scan k (Suc i) n)"

text \<open>One round of the main loop, with what \<^verbatim>\<open>poll\<close> returned and the events it reports.\<close>

definition poll_round :: "int \<Rightarrow> (nat \<Rightarrow> int) \<Rightarrow> unit polls" where
  "poll_round nready rep =
     bnd (poll_wait nready rep) (\<lambda>_.
     bnd (gets client) (\<lambda>cs.
     bnd (require (0 < length cs)) (\<lambda>_.
     if revents (cs ! 0) AND POLLIN \<noteq> 0 then
       bnd poll_accept (\<lambda>_.
       if nready - 1 \<le> 0 then ret ()
       else bnd (gets maxi) (\<lambda>m. poll_scan m 1 (nready - 1)))
     else bnd (gets maxi) (\<lambda>m. poll_scan m 1 nready))))"

section \<open>The invariant\<close>

definition poll_inv :: "poll_server \<Rightarrow> bool" where
  "poll_inv r \<longleftrightarrow> length (client r) = OPEN_MAX \<and> maxi r < OPEN_MAX \<and>
     fd (client r ! 0) = listenfd r \<and> events (client r ! 0) = POLLIN \<and>
     table_ok (listenfd r) (map fd (tl (client r))) (kernel r) \<and>
     (\<forall>i < OPEN_MAX. 0 < i \<longrightarrow> 0 \<le> fd (client r ! i) \<longrightarrow> i \<le> maxi r \<and> events (client r ! i) = POLLIN)"

lemma poll_invD:
  assumes "poll_inv r"
  shows "length (client r) = OPEN_MAX" "maxi r < OPEN_MAX" "fd (client r ! 0) = listenfd r" "events (client r ! 0) = POLLIN"
    "table_ok (listenfd r) (map fd (tl (client r))) (kernel r)"
    "\<And>i. i < OPEN_MAX \<Longrightarrow> 0 < i \<Longrightarrow> 0 \<le> fd (client r ! i) \<Longrightarrow> i \<le> maxi r \<and> events (client r ! i) = POLLIN"
  using assms unfolding poll_inv_def by auto

lemma poll_inv_net: "poll_inv r \<Longrightarrow> same_open (kernel r) k \<Longrightarrow> poll_inv (r\<lparr>kernel := k\<rparr>)"
  using table_ok_net unfolding poll_inv_def by auto

lemma length_polled [simp]: "length (polled n rep cs) = length cs"
  by (simp add: polled_def)

lemma polled_nth: "i < length cs \<Longrightarrow> polled n rep cs ! i = (if i < n then (cs ! i)\<lparr>revents := if fd (cs ! i) < 0 then 0 else rep i\<rparr> else cs ! i)"
  by (simp add: polled_def)

lemma polled_fds: "map fd (polled n rep cs) = map fd cs" "map fd (tl (polled n rep cs)) = map fd (tl cs)"
proof -
  show all: "map fd (polled n rep cs) = map fd cs" by (rule nth_equalityI) (simp_all add: polled_nth)
  show "map fd (tl (polled n rep cs)) = map fd (tl cs)" using arg_cong [OF all, of tl] by (simp add: map_tl)
qed

lemma poll_inv_polled: "poll_inv r \<Longrightarrow> poll_inv (r\<lparr>client := polled n rep (client r)\<rparr>)"
  unfolding poll_inv_def by (auto simp: polled_fds polled_nth OPEN_MAX_def)

text \<open>A step that rewrites the record of a client.\<close>

lemma tl_fds_upd: "0 < i \<Longrightarrow> map fd (tl (cs[i := e])) = (map fd (tl cs))[i - 1 := fd e]"
  by (cases cs; cases i) (simp_all add: map_update)

lemma poll_inv_upd:
  assumes "poll_inv r" "0 < i" "i < OPEN_MAX" "table_ok (listenfd r) ((map fd (tl (client r)))[i - 1 := fd e]) k"
    "fd e < 0 \<or> events e = POLLIN"
  shows "poll_inv (r\<lparr>kernel := k, client := (client r)[i := e], maxi := max i (maxi r)\<rparr>)"
    "i \<le> maxi r \<Longrightarrow> poll_inv (r\<lparr>kernel := k, client := (client r)[i := e]\<rparr>)"
proof -
  note inv = poll_invD [OF assms(1)]
  show all: "poll_inv (r\<lparr>kernel := k, client := (client r)[i := e], maxi := max i (maxi r)\<rparr>)"
    using inv(1-4) inv(6) assms(2-5) unfolding poll_inv_def
    by (auto simp: tl_fds_upd nth_list_update less_max_iff_disj le_max_iff_disj split: if_splits)
  show "poll_inv (r\<lparr>kernel := k, client := (client r)[i := e]\<rparr>)" if "i \<le> maxi r"
    using all that by (simp add: poll_inv_def max_absorb2)
qed

lemma poll_client_open:
  assumes "poll_inv r" "0 < i" "i < OPEN_MAX" "0 \<le> fd (client r ! i)"
  shows "fds (kernel r) (fd (client r ! i)) \<noteq> None" "i - 1 < length (map fd (tl (client r)))"
    "map fd (tl (client r)) ! (i - 1) = fd (client r ! i)" "i \<le> maxi r"
proof -
  note inv = poll_invD [OF assms(1)]
  show "i - 1 < length (map fd (tl (client r)))" "map fd (tl (client r)) ! (i - 1) = fd (client r ! i)"
    using assms(2,3) inv(1) by (simp_all add: nth_tl)
  with table_okD(3) [OF inv(5), of "i - 1"] assms(4) show "fds (kernel r) (fd (client r ! i)) \<noteq> None" by simp
  show "i \<le> maxi r" using inv(6) assms(2-4) by simp
qed

section \<open>Rounds keep it\<close>

lemma drop_client_ends:
  assumes "poll_inv r" "0 < i" "i < OPEN_MAX" "0 \<le> f" "fd (client r ! i) = f"
  shows "may_exit (drop_client i f) (\<lambda>_. poll_inv) r"
  unfolding drop_client_def
proof (rule may_exit_bnd_call [OF Close_runs], goal_cases)
  case (1 n k)
  let ?e = "(client r ! i)\<lparr>fd := -1\<rparr>"
  note at = poll_client_open [OF assms(1-3), unfolded assms(5), OF assms(4)]
  have "table_ok (listenfd r) ((map fd (tl (client r)))[i - 1 := fd ?e]) k"
    using table_ok_close [OF poll_invD(5) [OF assms(1)] at(2), of k] at(3) assms(4) 1 by simp
  from poll_inv_upd(2) [OF assms(1-3) this _ at(4)] show ?case by (auto intro!: may_exit_intros)
qed

lemma Writen_ends:
  assumes "fds s f = Some c"
  shows "may_exit (Writen f bs) (\<lambda>x k. \<exists>m \<le> length bs. fds k = (fds s)(f \<mapsto> c\<lparr>sndq := sndq c @ take m bs\<rparr>) \<and>
    (x = int (length bs) \<and> m = length bs \<or> x = -1)) s"
  by (rule may_exit_runs [OF runs_mono [OF Writen.contract [OF assms]]]) auto

lemma poll_client_ends:
  assumes "poll_inv r" "0 < i" "i < OPEN_MAX"
  shows "may_exit (poll_client i) (\<lambda>_. poll_inv) r"
proof -
  let ?f = "fd (client r ! i)"
  have serve: "may_exit (bnd (call (Read ?f MAXLINE)) (\<lambda>(n, bs).
       bnd (gets (\<lambda>r. errno (kernel r))) (\<lambda>e.
       bnd (if n < 0 then (if e = ECONNRESET then drop_client i ?f else exit_with (-1))
            else if n = 0 then drop_client i ?f
            else bnd (call (Writen ?f (map toupper bs))) (\<lambda>_. ret ())) (\<lambda>_. ret True)))) (\<lambda>_. poll_inv) r" if f: "0 \<le> ?f"
  proof (rule may_exit_bnd_call [OF Read_runs], goal_cases)
    case (1 x k)
    obtain n bs where x: "x = (n, bs)" by fastforce
    have k: "poll_inv (r\<lparr>kernel := k\<rparr>)" using poll_inv_net [OF assms(1) read_got_open [OF 1]] .
    have gone: "may_exit (drop_client i ?f) (\<lambda>_. poll_inv) (r\<lparr>kernel := k\<rparr>)"
      by (rule drop_client_ends [OF k assms(2,3) f]) simp
    obtain c where c: "fds (kernel (r\<lparr>kernel := k\<rparr>)) ?f = Some c"
      using poll_client_open(1) [OF k assms(2,3)] f by auto
    have sent: "may_exit (bnd (call (Writen ?f us)) (\<lambda>_. ret ())) (\<lambda>_. poll_inv) (r\<lparr>kernel := k\<rparr>)" for us
    proof (rule may_exit_bnd_call [OF Writen_ends [OF c]], goal_cases)
      case (1 a k')
      then have "same_open k k'" using c by (auto simp: same_open_def split: if_splits)
      with poll_inv_net [OF k, of k'] show ?case by (auto intro!: may_exit_intros)
    qed
    show ?case
      unfolding x prod.case
      by (rule may_exit_bnd_basics(1), rule may_exit_bnd [where P = "\<lambda>_. poll_inv"])
        (auto intro!: may_exit_intros(1,4) may_exit_if gone sent)
  qed
  have "i < length (client r)" using assms poll_invD(1) by simp
  then show ?thesis
    unfolding poll_client_def Let_def
    by (intro may_exit_bnd_basics(1,3) may_exit_if serve) (auto intro: may_exit_intros assms(1))
qed

lemma poll_scan_ends: "poll_inv r \<Longrightarrow> 0 < i \<Longrightarrow> i + k \<le> OPEN_MAX \<Longrightarrow> may_exit (poll_scan k i n) (\<lambda>_. poll_inv) r"
proof (induction k arbitrary: i n r)
  case (Suc k)
  then have "may_exit (poll_client i) (\<lambda>_. poll_inv) r" using poll_client_ends by simp
  then show ?case
    unfolding poll_scan.simps
    by (rule may_exit_bnd) (use Suc in \<open>auto intro!: may_exit_intros Suc.IH\<close>)
qed (simp add: may_exit_intros)

lemma poll_accept_ends:
  assumes "poll_inv r"
  shows "may_exit poll_accept (\<lambda>_. poll_inv) r"
  unfolding poll_accept_def
proof (rule may_exit_bnd_basics(1), rule may_exit_bnd_call [OF Accept_runs], rule may_exit_bnd_basics(1), goal_cases)
  case (1 n k)
  note inv = poll_invD [OF assms]
  let ?i = "free_place (map fd (tl (client r)))"
  have place: "Suc ?i < OPEN_MAX" if "Suc ?i \<noteq> OPEN_MAX"
    using that free_place_le [of "map fd (tl (client r))"] inv(1) by (simp add: OPEN_MAX_def)
  have "table_ok (listenfd r) ((map fd (tl (client r)))[?i := n]) k" if "Suc ?i < OPEN_MAX"
    using table_ok_accept [OF inv(5) 1] that inv(1) by simp
  then have "poll_inv (r\<lparr>kernel := k, client := (client r)[Suc ?i := (client r ! Suc ?i)\<lparr>fd := n, events := POLLIN\<rparr>],
      maxi := max (Suc ?i) (maxi r)\<rparr>)" if "Suc ?i < OPEN_MAX"
    using that by (intro poll_inv_upd(1) [OF assms]) simp_all
  with place inv(1) show ?case by (auto intro!: may_exit_intros)
qed

lemma poll_round_ends:
  assumes "poll_inv r"
  shows "may_exit (poll_round nready rep) (\<lambda>_. poll_inv) r"
proof -
  let ?r = "if nready < 0 then r else r\<lparr>client := polled (Suc (maxi r)) rep (client r)\<rparr>"
  have inv: "poll_inv ?r" using assms poll_inv_polled by simp
  have len: "0 < length (client ?r)" using poll_invD(1) [OF inv] by (simp add: OPEN_MAX_def)
  have scan: "may_exit (bnd (gets maxi) (\<lambda>m. poll_scan m 1 n)) (\<lambda>_. poll_inv) t" if "poll_inv t" for n t
    using poll_invD(2) [OF that] by (auto intro!: may_exit_intros poll_scan_ends that)
  show ?thesis
    unfolding poll_round_def poll_wait_def
    using len
    by (intro may_exit_bnd_basics may_exit_if may_exit_bnd [OF poll_accept_ends] scan inv may_exit_basics) assumption+
qed

text \<open>The server after its start: rounds, with any result of \<^verbatim>\<open>poll\<close>, and the network between them.\<close>

inductive polling :: "poll_server \<Rightarrow> poll_server \<Rightarrow> bool" for x where
  poll_begin: "polling x x"
| poll_step: "polling x r \<Longrightarrow> poll_round nready rep r = (Ret (), t) \<Longrightarrow> polling x t"
| poll_net: "polling x r \<Longrightarrow> same_open (kernel r) k \<Longrightarrow> polling x (r\<lparr>kernel := k\<rparr>)"

lemma polling_inv: "polling x r \<Longrightarrow> poll_inv x \<Longrightarrow> poll_inv r"
proof (induction rule: polling.induct)
  case (poll_step r nready rep t)
  then show ?case using may_exit_Ret [OF poll_round_ends] by blast
qed (auto intro: poll_inv_net)

lemma poll_start_ends:
  assumes "length (client x) = OPEN_MAX"
  shows "may_exit poll_start (\<lambda>_. poll_inv) x"
  unfolding poll_start_def
proof (rule may_exit_listen_on, goal_cases)
  case (1 lfd k)
  let ?cs = "map (\<lambda>e. e\<lparr>fd := -1\<rparr>) (client x)"
  have pos: "0 < length ?cs" using assms by (simp add: OPEN_MAX_def)
  have "map fd (tl (?cs[0 := e])) = replicate (length (tl ?cs)) (-1)" for e
    by (rule nth_equalityI) (use pos in \<open>auto simp: nth_tl\<close>)
  then have "poll_inv (x\<lparr>kernel := k, client := ?cs[0 := (client x ! 0)\<lparr>fd := lfd, events := POLLIN\<rparr>], maxi := 0, listenfd := lfd\<rparr>)"
    using 1 assms pos table_ok_start [of k lfd] unfolding poll_inv_def
    by (simp add: listener_up_def OPEN_MAX_def)
  then show ?case by (simp add: may_exit_def modify_def)
qed

section \<open>Properties\<close>


definition stack_poll :: "answer list \<Rightarrow> poll_server" where
  "stack_poll xs = \<lparr>kernel = demo_os xs [], client = replicate OPEN_MAX \<lparr>fd = 7, events = 9, revents = 11\<rparr>, maxi = 0, listenfd = 0\<rparr>"

lemma demo_poll:
  "\<exists>r c. poll_start (stack_poll (ok 5 # ok 0 # ok 0 # ok 0 # xs)) = (Ret (), r) \<and> listenfd r = 5 \<and> listening c \<and> maxi r = 0 \<and>
     kernel r = (demo_os xs [])\<lparr>fds := [3 \<mapsto> new_sock [] True, 5 \<mapsto> c]\<rparr> \<and>
     client r = \<lparr>fd = 5, events = POLLIN, revents = 11\<rparr> # replicate (OPEN_MAX - 1) \<lparr>fd = -1, events = 9, revents = 11\<rparr>"
proof -
  let ?r = "stack_poll (ok 5 # ok 0 # ok 0 # ok 0 # xs)"
  have "sched (kernel ?r) = ok 5 # ok 0 # ok 0 # ok 0 # xs" "fds (kernel ?r) (int 5) = None"
    by (simp_all add: stack_poll_def demo_os_def)
  from listen_on_good [OF this, of 8000] obtain c where c: "listening c"
    "listen_on 8000 ?r = (Ret 5, ?r\<lparr>kernel := (kernel ?r)\<lparr>sched := xs, fds := (fds (kernel ?r))(5 \<mapsto> c)\<rparr>\<rparr>)" by auto
  have n: "OPEN_MAX = Suc (OPEN_MAX - 1)" by (simp add: OPEN_MAX_def)
  have "client ?r = \<lparr>fd = 7, events = 9, revents = 11\<rparr> # replicate (OPEN_MAX - 1) \<lparr>fd = 7, events = 9, revents = 11\<rparr>"
    by (simp only: stack_poll_def poll_server.simps) (metis n replicate_Suc)
  with c show ?thesis
    by (simp add: poll_start_def bnd_def modify_def stack_poll_def demo_os_def) blast
qed


text \<open>
  What a ready client of the server on \<^verbatim>\<open>poll\<close> gets. Either its connection is closed and its
  record is free again, or \<open>n\<close> bytes, between 1 and 80, are taken off its stream and all of
  them are sent back in upper case; fewer only when \<^verbatim>\<open>Writen\<close> fails, whose result is not looked at.
  The other records and the other descriptors stay as they are.
\<close>

theorem poll_upper:
  assumes "i < length (client r)" "fd (client r ! i) = f" "0 \<le> f" "revents (client r ! i) AND POLLIN \<noteq> 0"
    "fds (kernel r) f = Some c" "poll_client i r = (Ret hit, t)"
  shows "hit \<and> (client t = (client r)[i := (client r ! i)\<lparr>fd := -1\<rparr>] \<and> fds (kernel t) = (fds (kernel r))(f := None) \<or>
    client t = client r \<and> (\<exists>n m k. 0 < n \<and> n \<le> MAXLINE \<and> m \<le> n \<and> n \<le> length (rcvq c) \<and>
      (m = n \<or> Writen f (map toupper (take n (rcvq c))) k = (Ret (-1), kernel t)) \<and>
      fds (kernel t) = (fds (kernel r))(f \<mapsto> c\<lparr>rcvq := drop n (rcvq c), sndq := sndq c @ map toupper (take m (rcvq c))\<rparr>)))"
proof -
  have "poll_client i r = bnd (call (Read f MAXLINE)) (\<lambda>(n, bs). bnd (gets (\<lambda>r. errno (kernel r))) (\<lambda>e.
       bnd (if n < 0 then (if e = ECONNRESET then drop_client i f else exit_with (-1))
            else if n = 0 then drop_client i f
            else bnd (call (Writen f (map toupper bs))) (\<lambda>_. ret ())) (\<lambda>_. ret True))) r"
    using assms(1,3,4) unfolding assms(2) [symmetric] by (simp add: poll_client_def bnd_def prog_basics Let_def)
  with assms(6) obtain n bs k where rd: "Read f MAXLINE (kernel r) = (Ret (n, bs), k)" and "bnd (gets (\<lambda>r. errno (kernel r))) (\<lambda>e.
       bnd (if n < 0 then (if e = ECONNRESET then drop_client i f else exit_with (-1))
            else if n = 0 then drop_client i f
            else bnd (call (Writen f (map toupper bs))) (\<lambda>_. ret ())) (\<lambda>_. ret True)) (r\<lparr>kernel := k\<rparr>) = (Ret hit, t)"
    by (auto simp: call_def elim!: bnd_RetE split: prod.splits)
  then have rest: "(if n < 0 then (if errno k = ECONNRESET then drop_client i f else exit_with (-1))
        else if n = 0 then drop_client i f else bnd (call (Writen f (map toupper bs))) (\<lambda>_. ret ())) (r\<lparr>kernel := k\<rparr>) = (Ret (), t)"
    and hit: hit
    by (auto simp: gets_def ret_def elim!: bnd_RetE)
  note got = may_exit_Ret [OF Read_runs rd]
  have gone: "client t = (client r)[i := (client r ! i)\<lparr>fd := -1\<rparr>] \<and> fds (kernel t) = (fds (kernel r))(f := None)"
    if dr: "drop_client i f (r\<lparr>kernel := k\<rparr>) = (Ret (), t)" and same: "fds k = fds (kernel r)"
  proof -
    obtain a u where "Close f k = (Ret a, u)" "t = r\<lparr>kernel := u, client := (client r)[i := (client r ! i)\<lparr>fd := -1\<rparr>]\<rparr>"
      using dr by (auto simp: drop_client_def call_def modify_def elim!: bnd_RetE split: prod.splits)
    with may_exit_Ret [OF Close_runs] same show ?thesis by fastforce
  qed
  show ?thesis
  proof (cases "0 < n")
    case False
    with got have "fds k = fds (kernel r)" by (auto simp: read_got_def)
    with False rest hit gone show ?thesis by (auto simp: exit_with_def split: if_splits)
  next
    case True
    with got assms(5) have k: "bs = take (nat n) (rcvq c)" "nat n \<le> MAXLINE" "nat n \<le> length (rcvq c)"
      "fds k = (fds (kernel r))(f \<mapsto> c\<lparr>rcvq := drop (nat n) (rcvq c)\<rparr>)" by (auto simp: read_got_def)
    from rest True obtain a u where u: "Writen f (map toupper bs) k = (Ret a, u)" "t = r\<lparr>kernel := u\<rparr>"
      by (auto simp: call_def ret_def elim!: bnd_RetE split: prod.splits)
    have "fds k f = Some (c\<lparr>rcvq := drop (nat n) (rcvq c)\<rparr>)" using k(4) by simp
    from may_exit_Ret [OF Writen_ends [OF this] u(1)] obtain m where m: "m \<le> length bs" "m = length bs \<or> a = -1"
      "fds u = (fds k)(f \<mapsto> c\<lparr>rcvq := drop (nat n) (rcvq c), sndq := sndq c @ take m (map toupper bs)\<rparr>)" by auto
    then have m: "m \<le> nat n" "m = nat n \<or> a = -1"
      "fds u = (fds k)(f \<mapsto> c\<lparr>rcvq := drop (nat n) (rcvq c), sndq := sndq c @ map toupper (take m (rcvq c))\<rparr>)"
      using k(1,3) by (simp_all add: take_map take_take min_absorb1)
    have "0 < nat n \<and> nat n \<le> MAXLINE \<and> m \<le> nat n \<and> nat n \<le> length (rcvq c) \<and>
      (m = nat n \<or> Writen f (map toupper (take (nat n) (rcvq c))) k = (Ret (-1), kernel t)) \<and>
      fds (kernel t) = (fds (kernel r))(f \<mapsto> c\<lparr>rcvq := drop (nat n) (rcvq c), sndq := sndq c @ map toupper (take m (rcvq c))\<rparr>)"
      using True k m u by auto
    moreover have "client t = client r" using u(2) by simp
    ultimately show ?thesis using hit by blast
  qed
qed

theorem poll_upper_witness:
  "\<exists>(r :: poll_server) t. poll_client 0 r = (Ret True, t) \<and> fds (kernel r) 6 = Some (new_sock [104, 105, 33] False) \<and> client t = client r \<and>
     (\<exists>n m k. 0 < n \<and> n \<le> MAXLINE \<and> m \<le> n \<and> n \<le> 3 \<and>
      (m = n \<or> Writen 6 (map toupper (take n [104, 105, 33])) k = (Ret (-1), kernel t)) \<and>
      fds (kernel t) = (fds (kernel r))(6 \<mapsto> (new_sock (drop n [104, 105, 33]) False)\<lparr>sndq := map toupper (take m [104, 105, 33])\<rparr>))"
proof -
  define r :: poll_server where "r = \<lparr>kernel = (demo_os [ok 3, ok 2, ok 1] [])\<lparr>fds := [6 \<mapsto> new_sock [104, 105, 33] False]\<rparr>,
    client = [\<lparr>fd = 6, events = POLLIN, revents = POLLIN\<rparr>], maxi = 0, listenfd = 5\<rparr>"
  have r: "client r = [\<lparr>fd = 6, events = POLLIN, revents = POLLIN\<rparr>]" "fds (kernel r) 6 = Some (new_sock [104, 105, 33] False)"
    by (simp_all add: r_def)
  have "\<exists>t. poll_client 0 r = (Ret True, t) \<and> client t = client r"
    by (simp add: r_def poll_client_def bnd_def call_def prog_basics POLLIN_def MAXLINE_def Read.simps Writen_def Writen_loop.simps
        sys_read_def sys_write_def syscall_def demo_os_def new_sock_def set_fd_def Let_def)
  then obtain t where t: "poll_client 0 r = (Ret True, t)" "client t = client r" by blast
  have "client r \<noteq> (client r)[0 := (client r ! 0)\<lparr>fd := -1\<rparr>]" by (simp add: r(1))
  moreover have "POLLIN AND POLLIN \<noteq> 0" by (simp add: POLLIN_def)
  ultimately have "\<exists>n m k. 0 < n \<and> n \<le> MAXLINE \<and> m \<le> n \<and> n \<le> 3 \<and>
      (m = n \<or> Writen 6 (map toupper (take n [104, 105, 33])) k = (Ret (-1), kernel t)) \<and>
      fds (kernel t) = (fds (kernel r))(6 \<mapsto> (new_sock (drop n [104, 105, 33]) False)\<lparr>sndq := map toupper (take m [104, 105, 33])\<rparr>)"
    using poll_upper [OF _ _ _ _ r(2) t(1)] t(2) by (simp add: r(1) new_sock_def numeral_3_eq_3)
  with r(2) t show ?thesis by blast
qed

end
