(* ===== verification/Echo_Servers.thy ===== *)
theory Echo_Servers
  imports Epoll_Host
begin

unbundle bit_operations_syntax

text \<open>
  The three small echo servers of the directory of the reactor under \<^verbatim>\<open>src/Csocket\<close>: \<^verbatim>\<open>epoll.c\<close> (level
  triggered, one read per event), \<^verbatim>\<open>epoll_et.c\<close> (edge triggered, reads until nothing is left) and
  \<^verbatim>\<open>pthread_tcp_server.c\<close> (a thread for every client).
\<close>

section \<open>The loop that echoes\<close>

text \<open>
  Read up to \<open>n\<close> bytes into a cleared buffer of \<open>cap\<close> bytes, print them as a string and write them
  back, until a read returns 0 or fails. The result is what that last read returned.
\<close>

function echo_loop :: "int \<Rightarrow> nat \<Rightarrow> nat \<Rightarrow> ('a host_scheme, int) prog" where
  "echo_loop f n cap r = bnd (call (Read f n)) (\<lambda>x t. case x of (m, bs) \<Rightarrow>
     if m \<le> 0 then ret m t
     else bnd (print_string cap bs) (\<lambda>_ u. bnd (call (Write f bs)) (\<lambda>_ v. echo_loop f n cap v) u) t) r"
  by pat_completeness auto
termination
proof (relation "measure (\<lambda>(f, n, cap, r). length (sched (kernel r)))", simp)
  fix f n cap and r t u v :: "'a host_scheme" and x m bs y k
  assume 1: "call (Read f n) r = (Ret x, t)" "(m, bs) = x" "\<not> m \<le> 0" "print_string cap bs t = (Ret y, u)" "call (Write f bs) u = (Ret k, v)"
  have "length (sched (kernel t)) < length (sched (kernel r))" using 1(1) Read_shorter by (cases x) (auto simp: call_def split: prod.splits)
  moreover have "u = t" using 1(4) by (auto simp: print_string_def prog_basics split: if_splits)
  moreover have "length (sched (kernel v)) < length (sched (kernel u))" using 1(5) Write_shorter by (auto simp: call_def split: prod.splits)
  ultimately show "((f, n, cap, v), f, n, cap, r) \<in> measure (\<lambda>(f, n, cap, r). length (sched (kernel r)))" by simp
qed

declare echo_loop.simps [simp del]

text \<open>
  What such a loop does to the client's socket: in each pass some bytes \<open>b\<close>, at most \<open>n\<close>, are taken
  off the stream and the first \<open>m\<close> of them are sent.
\<close>

definition echoed :: "nat \<Rightarrow> sock \<Rightarrow> sock \<Rightarrow> bool" where
  "echoed n c d \<longleftrightarrow> (\<exists>ps. (\<forall>(b, m) \<in> set ps. 0 < length b \<and> length b \<le> n \<and> m \<le> length b) \<and>
     rcvq c = concat (map fst ps) @ rcvq d \<and>
     d = c\<lparr>rcvq := rcvq d, sndq := sndq c @ concat (map (\<lambda>(b, m). take m b) ps)\<rparr>)"

lemma echoed_refl: "echoed n c c"
  unfolding echoed_def by (rule exI [of _ "[]"]) simp

lemma echoed_step:
  assumes "0 < k" "k \<le> n" "k \<le> length (rcvq c)" "m \<le> k"
    "echoed n (c\<lparr>rcvq := drop k (rcvq c), sndq := sndq c @ take m (take k (rcvq c))\<rparr>) d"
  shows "echoed n c d"
proof -
  obtain ps where "\<forall>(b, m) \<in> set ps. 0 < length b \<and> length b \<le> n \<and> m \<le> length b" "drop k (rcvq c) = concat (map fst ps) @ rcvq d"
    "d = c\<lparr>rcvq := rcvq d, sndq := sndq c @ take m (take k (rcvq c)) @ concat (map (\<lambda>(b, m). take m b) ps)\<rparr>"
    using assms(5) unfolding echoed_def by auto
  moreover have "rcvq c \<noteq> []" using assms(1,3) by auto
  ultimately show ?thesis
    using assms(1-4) append_take_drop_id [of k "rcvq c"]
    unfolding echoed_def by (intro exI [of _ "(take k (rcvq c), m) # ps"]) simp
qed

lemma echoed_rest: "echoed n c d \<Longrightarrow> \<exists>k. rcvq d = drop k (rcvq c)"
  unfolding echoed_def by (metis append_eq_conv_conj)

lemma runs_bnd_call_eq:
  assumes "runs m P never (kernel r)"
    "\<And>a k. P a k \<Longrightarrow> call m r = (Ret a, r\<lparr>kernel := k\<rparr>) \<Longrightarrow> runs (f a) R F (r\<lparr>kernel := k\<rparr>)"
  shows "runs (bnd (call m) f) R F r"
proof (cases "m (kernel r)")
  case (Pair x k)
  show ?thesis
  proof (cases x)
    case (Ret a)
    with Pair assms(1) have "P a k" "call m r = (Ret a, r\<lparr>kernel := k\<rparr>)" by (simp_all add: runs_def call_def)
    with assms(2) show ?thesis by (simp add: runs_def)
  qed (use Pair assms(1) in \<open>simp_all add: runs_def bnd_def call_def\<close>)
qed

lemma write_put_some:
  assumes "write_put f bs s m k" "fds s f = Some c"
  shows "\<exists>j \<le> length bs. fds k = (fds s)(f \<mapsto> c\<lparr>sndq := sndq c @ take j bs\<rparr>)"
proof (cases "0 < m")
  case True
  with assms show ?thesis by (auto simp: write_put_def)
next
  case False
  with assms have "fds k = (fds s)(f \<mapsto> c\<lparr>sndq := sndq c @ take 0 bs\<rparr>)" by (auto simp: write_put_def)
  then show ?thesis by blast
qed

lemma echo_loop_runs:
  "fds (kernel r) f = Some c \<Longrightarrow> runs (echo_loop f n cap) (\<lambda>m t. m \<le> 0 \<and>
     (\<exists>d k. echoed n c d \<and> t = r\<lparr>kernel := k\<rparr> \<and> fds k = (fds (kernel r))(f \<mapsto> d) \<and> heap k = heap (kernel r)))
     (\<lambda>_. cap \<le> n \<and> cap \<le> length (rcvq c)) r"
proof (induction f n cap r arbitrary: c rule: echo_loop.induct)
  case IH: (1 f n cap r)
  show ?case
  proof (rule runs_eq [OF echo_loop.simps], rule runs_bnd_call_eq [OF Read_post], clarify, goal_cases)
    case (1 m bs k)
    note read = 1
    show ?case
    proof (cases "0 < m")
      case False
      with 1 have "fds k = (fds (kernel r))(f \<mapsto> c)" "heap k = heap (kernel r)" using IH(2) by (auto simp: read_got_def)
      with False show ?thesis by (auto intro!: runs_intros exI [of _ c] exI [of _ k] echoed_refl)
    next
      case True
      with 1 IH(2) have k: "bs = take (nat m) (rcvq c)" "nat m \<le> n" "nat m \<le> length (rcvq c)" "heap k = heap (kernel r)"
        "fds k = (fds (kernel r))(f \<mapsto> c\<lparr>rcvq := drop (nat m) (rcvq c)\<rparr>)" "0 < nat m" by (auto simp: read_got_def)
      let ?R = "\<lambda>m t. m \<le> 0 \<and> (\<exists>d k. echoed n c d \<and> t = r\<lparr>kernel := k\<rparr> \<and> fds k = (fds (kernel r))(f \<mapsto> d) \<and> heap k = heap (kernel r))"
      have "runs (bnd (print_string cap bs) (\<lambda>_. bnd (call (Write f bs)) (\<lambda>_. echo_loop f n cap))) ?R
         (\<lambda>_. cap \<le> n \<and> cap \<le> length (rcvq c)) (r\<lparr>kernel := k\<rparr>)"
        unfolding print_string_def
      proof (rule runs_bnd_require, rule runs_bnd_call_eq [OF Write_post], goal_cases)
        case (1 a k')
        note put = 1(2)
        have at: "fds (kernel (r\<lparr>kernel := k\<rparr>)) f = Some (c\<lparr>rcvq := drop (nat m) (rcvq c)\<rparr>)" using k(5) by simp
        obtain j where j: "j \<le> nat m" "fds k' = (fds (kernel r))(f \<mapsto> c\<lparr>rcvq := drop (nat m) (rcvq c), sndq := sndq c @ take j (take (nat m) (rcvq c))\<rparr>)"
          using write_put_some [OF conjunct1 [OF 1(2)] at] k by auto
        have "\<not> m \<le> 0" "print_string cap bs (r\<lparr>kernel := k\<rparr>) = (Ret (), r\<lparr>kernel := k\<rparr>)"
          "fds (kernel (r\<lparr>kernel := k, kernel := k'\<rparr>)) f = Some (c\<lparr>rcvq := drop (nat m) (rcvq c), sndq := sndq c @ take j (take (nat m) (rcvq c))\<rparr>)"
          using True 1(1) j(2) by (simp_all add: print_string_def require_def ret_def)
        note IH(1) [OF read(1) refl this(1,2) 1(3) this(3)]
        moreover have "echoed n c d" if "echoed n (c\<lparr>rcvq := drop (nat m) (rcvq c), sndq := sndq c @ take j (take (nat m) (rcvq c))\<rparr>) d" for d
          using echoed_step [OF k(6,2,3) j(1) that] .
        ultimately show ?case
        proof (elim runs_mono, goal_cases)
          case (1 m' t)
          then obtain d l where d: "echoed n c d" "t = r\<lparr>kernel := k, kernel := k'\<rparr>\<lparr>kernel := l\<rparr>" "m' \<le> 0"
            "fds l = (fds (kernel (r\<lparr>kernel := k, kernel := k'\<rparr>)))(f \<mapsto> d)" "heap l = heap (kernel (r\<lparr>kernel := k, kernel := k'\<rparr>))"
            by blast
          then have "t = r\<lparr>kernel := l\<rparr>" "fds l = (fds (kernel r))(f \<mapsto> d)" "heap l = heap (kernel r)"
            using j(2) k(4) conjunct2 [OF put] by (simp_all add: fun_upd_idem_iff)
          with d(1,3) show ?case by blast
        qed auto
      qed (use k in auto)
      with True show ?thesis by simp
    qed
  qed
qed

text \<open>
  With a kernel that moves whole buffers, the loop returns after everything was sent back: by the
  end of the stream, or by \<^verbatim>\<open>EAGAIN\<close> on a descriptor that does not block.
\<close>

definition generous :: "nat \<Rightarrow> answer list \<Rightarrow> bool" where
  "generous n xs \<longleftrightarrow> list_all (\<lambda>a. case a of Err e \<Rightarrow> False | Ok k bs b \<Rightarrow> n \<le> k) xs"

lemma generous_Cons: "generous n (a # xs) \<longleftrightarrow> (\<exists>k bs b. a = Ok k bs b \<and> n \<le> k) \<and> generous n xs"
  by (cases a) (simp_all add: generous_def)

lemma generous_replicate: "n \<le> k \<Longrightarrow> generous n (replicate j (ok k))"
  by (induction j) (simp_all add: generous_def)

text \<open>One round of the loop when both calls move a whole buffer, and its last round.\<close>

lemma echo_pass:
  assumes "fds (kernel r) f = Some c" "rcvq c \<noteq> []" "0 < n" "n < cap" "sched (kernel r) = Ok i bs b # Ok j bs' b' # xs" "n \<le> i" "n \<le> j"
  shows "echo_loop f n cap r = echo_loop f n cap (r\<lparr>kernel := (kernel r)\<lparr>sched := xs,
    fds := (fds (kernel r))(f \<mapsto> c\<lparr>rcvq := drop n (rcvq c), sndq := sndq c @ take n (rcvq c)\<rparr>)\<rparr>\<rparr>)"
proof -
  let ?k = "kernel r" and ?m = "min n (length (rcvq c))" and ?bs = "take n (rcvq c)"
  let ?c1 = "c\<lparr>rcvq := drop n (rcvq c)\<rparr>" and ?c2 = "c\<lparr>rcvq := drop n (rcvq c), sndq := sndq c @ ?bs\<rparr>"
  let ?k1 = "?k\<lparr>sched := Ok j bs' b' # xs, fds := (fds ?k)(f \<mapsto> ?c1)\<rparr>" and ?k2 = "?k\<lparr>sched := xs, fds := (fds ?k)(f \<mapsto> ?c2)\<rparr>"
  have m: "0 < ?m" "take ?m (rcvq c) = ?bs" "drop ?m (rcvq c) = drop n (rcvq c)" using assms(2,3) by (simp, simp add: min_def, simp add: min_def)
  have "min (min n (max 1 i)) (length (rcvq c)) = ?m" using assms(3,6) by simp
  then have "sys_read f n ?k = (Ret (int ?m, ?bs), ?k1)"
    using assms(1-3,5) m(2,3) by (simp add: sys_read_def syscall_def Let_def set_fd_def)
  then have rd: "call (Read f n) r = (Ret (int ?m, ?bs), r\<lparr>kernel := ?k1\<rparr>)" by (simp add: call_def Read.simps ret_def)
  have pr: "print_string cap ?bs u = (Ret (), u)" for u :: "'a host_scheme"
    using assms(4) by (simp add: print_string_fits ret_def)
  have "sys_write f ?bs ?k1 = (Ret (int ?m), ?k2)"
    using assms(7) m(2) by (simp add: sys_write_def syscall_def Let_def set_fd_def min_absorb2 min.commute)
  then have wr: "call (Write f ?bs) (r\<lparr>kernel := ?k1\<rparr>) = (Ret (int ?m), r\<lparr>kernel := ?k2\<rparr>)"
    by (simp add: call_def Write.simps ret_def)
  have pos: "(int ?m \<le> 0) = False" using m(1) by simp
  show ?thesis by (simp only: echo_loop.simps [of f n cap r] bnd_Ret rd prod.case pos if_False pr wr)
qed

lemma echo_last:
  assumes "fds (kernel r) f = Some c" "rcvq c = []" "fin c \<or> nonblocking c" "0 < n" "sched (kernel r) = Ok i bs b # xs"
  shows "\<exists>k. echo_loop f n cap r = (Ret (if fin c then 0 else -1), r\<lparr>kernel := k\<rparr>) \<and> fds k = fds (kernel r) \<and> (fin c \<or> errno k = EAGAIN)"
proof -
  let ?k = "if fin c then (kernel r)\<lparr>sched := xs\<rparr> else (kernel r)\<lparr>sched := xs, errno := EAGAIN\<rparr>"
  have "sys_read f n (kernel r) = (Ret (if fin c then 0 else -1, []), ?k)"
    using assms by (auto simp: sys_read_def syscall_def fail_with_def)
  then have "call (Read f n) r = (Ret (if fin c then 0 else -1, []), r\<lparr>kernel := ?k\<rparr>)"
    by (simp add: call_def Read.simps ret_def errno_defs)
  then show ?thesis by (subst echo_loop.simps) (auto simp: ret_def intro!: exI [of _ ?k])
qed

lemma echo_loop_all:
  assumes "fds (kernel r) f = Some c" "fin c \<or> nonblocking c" "0 < n" "n < cap" "generous n (sched (kernel r))"
    "2 * length (rcvq c) < length (sched (kernel r))"
  shows "\<exists>k. echo_loop f n cap r = (Ret (if fin c then 0 else -1), r\<lparr>kernel := k\<rparr>) \<and>
    fds k = (fds (kernel r))(f \<mapsto> c\<lparr>rcvq := [], sndq := sndq c @ rcvq c\<rparr>) \<and> (fin c \<or> errno k = EAGAIN)"
  using assms
proof (induction "length (rcvq c)" arbitrary: c r rule: less_induct)
  case less
  obtain a xs where a: "sched (kernel r) = a # xs" using less.prems(6) by (cases "sched (kernel r)") auto
  with less.prems(5) obtain i bs b where i: "a = Ok i bs b" "n \<le> i" "generous n xs" by (auto simp: generous_Cons)
  show ?case
  proof (cases "rcvq c = []")
    case True
    from echo_last [OF less.prems(1) True less.prems(2,3), of i bs b xs cap] a i(1) True less.prems(1) show ?thesis
      by (auto simp: fun_upd_idem)
  next
    case False
    then have pos: "0 < length (rcvq c)" by simp
    then obtain a' xs' where a': "xs = a' # xs'" using less.prems(6) a by (cases xs) auto
    with i(3) obtain j bs' b' where j: "a' = Ok j bs' b'" "n \<le> j" "generous n xs'" by (auto simp: generous_Cons)
    let ?c = "c\<lparr>rcvq := drop n (rcvq c), sndq := sndq c @ take n (rcvq c)\<rparr>"
    let ?r = "r\<lparr>kernel := (kernel r)\<lparr>sched := xs', fds := (fds (kernel r))(f \<mapsto> ?c)\<rparr>\<rparr>"
    have step: "echo_loop f n cap r = echo_loop f n cap ?r"
      using echo_pass [OF less.prems(1) False less.prems(3,4)] a a' i(1,2) j(1,2) by blast
    have "2 * (length (rcvq c) - n) + 2 \<le> 2 * length (rcvq c)" using less.prems(3) pos by arith
    then have len: "2 * (length (rcvq c) - n) < length xs'" using less.prems(6) a a' by simp
    have "\<exists>k. echo_loop f n cap ?r = (Ret (if fin ?c then 0 else -1), ?r\<lparr>kernel := k\<rparr>) \<and>
        fds k = (fds (kernel ?r))(f \<mapsto> ?c\<lparr>rcvq := [], sndq := sndq ?c @ rcvq ?c\<rparr>) \<and> (fin ?c \<or> errno k = EAGAIN)"
      by (rule less.hyps) (use less.prems j(3) len pos in \<open>auto simp: nonblocking_def\<close>)
    then show ?thesis unfolding step by simp
  qed
qed

section \<open>\<^verbatim>\<open>epoll.c\<close> and \<^verbatim>\<open>epoll_et.c\<close>\<close>

type_synonym 'a eps = "(int epoll_host, 'a) prog"

text \<open>
  \<^verbatim>\<open>main\<close> of both up to the loop; the result is the listening descriptor. If the epoll instance cannot
  be created, the first \<^verbatim>\<open>epoll_wait\<close> fails and ends the process.
\<close>

definition epoll_start :: "int eps" where
  "epoll_start =
     bnd (call (tcp4bind 8000 None)) (\<lambda>lfd.
     bnd (call (sys_listen lfd)) (\<lambda>_.
     bnd (call (syscall (ret (-1 :: int)) (\<lambda>_ _ _. ret 0))) (\<lambda>epfd.
     if epfd < 0 then exit_with (-1) else bnd (epoll_add lfd lfd EPOLLIN) (\<lambda>_. ret lfd))))"

definition close_client :: "int \<Rightarrow> unit eps" where
  "close_client f = bnd (close_fd f) (\<lambda>_. bnd (epoll_del f) (\<lambda>_. ret ()))"

definition lt_serve :: "int \<Rightarrow> unit eps" where
  "lt_serve f =
     bnd (call (Read f 1024)) (\<lambda>(n, bs).
     if n \<le> 0 then close_client f
     else bnd (print_string 1024 bs) (\<lambda>_. bnd (call (Write f bs)) (\<lambda>_. ret ())))"

definition lt_event :: "int \<Rightarrow> int \<times> int \<Rightarrow> unit eps" where
  "lt_event lfd e = (case e of (f, evs) \<Rightarrow>
     if f = lfd \<and> evs AND EPOLLIN \<noteq> 0 then
       bnd (call (Accept lfd)) (\<lambda>cfd. bnd (epoll_add cfd cfd EPOLLIN) (\<lambda>_. ret ()))
     else if evs AND EPOLLIN \<noteq> 0 then lt_serve f
     else ret ())"

definition et_accept :: "int \<Rightarrow> unit eps" where
  "et_accept lfd = accept_edge lfd"

definition et_serve :: "int \<Rightarrow> unit eps" where
  "et_serve f =
     bnd (echo_loop f 5 6) (\<lambda>n.
     bnd (gets (\<lambda>r. errno (kernel r))) (\<lambda>e.
     if n < 0 \<and> e = EAGAIN then ret () else close_client f))"

definition et_event :: "int \<Rightarrow> int \<times> int \<Rightarrow> unit eps" where
  "et_event lfd e = (case e of (f, evs) \<Rightarrow>
     if f = lfd \<and> evs AND EPOLLIN \<noteq> 0 then et_accept lfd
     else if evs AND EPOLLIN \<noteq> 0 then et_serve f
     else ret ())"

text \<open>One round of a main loop, with what \<^verbatim>\<open>epoll_wait\<close> returned and the events it stored.\<close>

primrec each_event :: "('e \<Rightarrow> unit eps) \<Rightarrow> 'e list \<Rightarrow> unit eps" where
  "each_event h [] = ret ()"
| "each_event h (e # es) = bnd (h e) (\<lambda>_. each_event h es)"

definition lt_round :: "int \<Rightarrow> int \<Rightarrow> (int \<times> int) list \<Rightarrow> unit eps" where
  "lt_round lfd nready evs = (if nready < 0 then exit_with (-1) else each_event (lt_event lfd) (take (nat nready) evs))"

definition et_round :: "int \<Rightarrow> int \<Rightarrow> (int \<times> int) list \<Rightarrow> unit eps" where
  "et_round lfd nready evs = (if nready < 0 then exit_with (-1) else each_event (et_event lfd) (take (nat nready) evs))"

section \<open>Properties\<close>

lemma close_client_runs:
  "runs (close_client f) (\<lambda>_ t. fds (kernel t) = (fds (kernel r))(f := None) \<and> tree t = (tree r)(f := None)) F r"
  unfolding close_client_def
  by (rule host_close_runs) (auto simp: runs_def bnd_def epoll_del_def ret_def)

text \<open>
  An event of a client of \<^verbatim>\<open>epoll_et.c\<close>, on every kernel. Whatever is read, accepted for sending or
  fails, the process goes on and no access is out of bounds: a read takes at most 5 bytes into a
  cleared buffer of 6. In each pass the bytes taken off the stream, or a prefix of them, are
  sent back in order; afterwards the client is registered as before or closed and not
  registered, and no other descriptor has changed.
\<close>

theorem et_serve_outcome:
  assumes "fds (kernel r) f = Some c"
  shows "case et_serve f r of
      (Ret _, t) \<Rightarrow> fds (kernel t) = (fds (kernel r))(f := None) \<and> tree t = (tree r)(f := None) \<or>
        (\<exists>d. echoed 5 c d \<and> fds (kernel t) = (fds (kernel r))(f \<mapsto> d) \<and> tree t = tree r)
    | (Block, t) \<Rightarrow> True
    | (Exit x, t) \<Rightarrow> False
    | (Fault, t) \<Rightarrow> False"
proof -
  let ?R = "\<lambda>t. fds (kernel t) = (fds (kernel r))(f := None) \<and> tree t = (tree r)(f := None) \<or>
        (\<exists>d. echoed 5 c d \<and> fds (kernel t) = (fds (kernel r))(f \<mapsto> d) \<and> tree t = tree r)"
  have "runs (et_serve f) (\<lambda>_. ?R) never r"
    unfolding et_serve_def
  proof (rule runs_bnd [OF echo_loop_runs [OF assms]], goal_cases)
    case (1 n t)
    then obtain d k where d: "echoed 5 c d" "t = r\<lparr>kernel := k\<rparr>" "fds k = (fds (kernel r))(f \<mapsto> d)" by blast
    have "runs (close_client f) (\<lambda>_. ?R) never t"
      by (rule runs_mono [OF close_client_runs]) (auto simp: d)
    with d show ?case by (auto intro!: runs_intros)
  qed simp
  then show ?thesis by (simp add: runs_def split: prod.splits res.splits)
qed

definition demo_ep :: "answer list \<Rightarrow> byte list \<Rightarrow> int epoll_host" where
  "demo_ep xs bs = \<lparr>kernel = (demo_os xs [])\<lparr>fds := [3 \<mapsto> (new_sock [] False)\<lparr>listening := True\<rparr>, 6 \<mapsto> (new_sock bs False)\<lparr>flags := 2050\<rparr>]\<rparr>,
     tree = [3 \<mapsto> (3, EPOLLIN), 6 \<mapsto> (6, EPOLLIN OR EPOLLET)]\<rparr>"

lemma nonblocking_2050 [simp]: "nonblocking (c\<lparr>flags := 2050\<rparr>)"
  by (simp add: nonblocking_def bit_iff_odd)

theorem et_serve_outcome_witness:
  "\<exists>t. et_serve 6 (demo_ep (replicate 20 (ok 5)) [1, 2, 3, 4, 5, 6, 7]) = (Ret (), t) \<and> tree t 6 = Some (6, EPOLLIN OR EPOLLET) \<and>
     (\<exists>d. echoed 5 ((new_sock [1, 2, 3, 4, 5, 6, 7] False)\<lparr>flags := 2050\<rparr>) d \<and> fds (kernel t) 6 = Some d)"
proof -
  let ?r = "demo_ep (replicate 20 (ok 5)) [1, 2, 3, 4, 5, 6, 7]" and ?c = "(new_sock [1, 2, 3, 4, 5, 6, 7] False)\<lparr>flags := 2050\<rparr>"
  have c: "fds (kernel ?r) 6 = Some ?c" by (simp add: demo_ep_def)
  have g: "generous 5 (sched (kernel ?r))" by (simp add: demo_ep_def demo_os_def generous_replicate)
  have "\<exists>k. echo_loop 6 5 6 ?r = (Ret (if fin ?c then 0 else -1), ?r\<lparr>kernel := k\<rparr>) \<and>
      fds k = (fds (kernel ?r))(6 \<mapsto> ?c\<lparr>rcvq := [], sndq := sndq ?c @ rcvq ?c\<rparr>) \<and> (fin ?c \<or> errno k = EAGAIN)"
    by (rule echo_loop_all [OF c _ _ _ g]) (simp_all add: demo_ep_def demo_os_def, simp_all add: new_sock_def)
  then obtain t where t: "et_serve 6 ?r = (Ret (), t)" "fds (kernel t) 6 \<noteq> None"
    by (auto simp: et_serve_def bnd_def gets_def ret_def new_sock_def)
  with et_serve_outcome [OF c] show ?thesis by (auto simp: demo_ep_def)
qed

text \<open>
  C17: from a connection to the echo, in \<^verbatim>\<open>epoll_et.c\<close>. When the listening socket reports a connection
  of a peer that sends \<open>bs\<close>, and the kernel moves whole buffers, the first event makes its
  descriptor non-blocking and registers it edge triggered, and the one event that this
  registration reports is enough: the loop ends, with \<^verbatim>\<open>EAGAIN\<close>, and all of \<open>bs\<close> was sent back.
\<close>

theorem et_connection_echoed:
  assumes "fds (kernel r) lfd = Some l" "listening l" "fds (kernel r) (int n) = None" "tree r (int n) = None"
    "sched (kernel r) = Ok n bs False # ok 0 # ok 0 # ok 0 # xs" "generous 5 xs" "2 * length bs < length xs"
  shows "\<exists>t u c. et_event lfd (lfd, EPOLLIN) r = (Ret (), t) \<and> tree t (int n) = Some (int n, EPOLLIN OR EPOLLET) \<and>
    et_event lfd (int n, EPOLLIN) t = (Ret (), u) \<and> tree u = tree t \<and>
    fds (kernel u) = (fds (kernel r))(int n \<mapsto> c) \<and> nonblocking c \<and> rcvq c = [] \<and> sndq c = bs"
proof -
  let ?c = "(new_sock bs False)\<lparr>flags := O_RDWR OR O_NONBLOCK\<rparr>"
  let ?t = "r\<lparr>kernel := (kernel r)\<lparr>fds := (fds (kernel r))(int n \<mapsto> ?c), sched := xs\<rparr>,
    tree := (tree r)(int n \<mapsto> (int n, EPOLLIN OR EPOLLET))\<rparr>"
  have ne: "int n \<noteq> lfd" using assms(1,3) by auto
  have t: "et_event lfd (lfd, EPOLLIN) r = (Ret (), ?t)"
    using assms(1-5)
    by (simp add: et_event_def et_accept_def accept_edge_def EPOLLIN_def call_def bnd_def Accept.simps sys_accept_def syscall_def
        open_fd_def set_fd_def ret_def sys_fcntl_getfl_def sys_fcntl_setfl_def sys_on_fd_def epoll_add_def new_sock_def)
  have nb: "nonblocking ?c" by (simp add: nonblocking_def O_RDWR_def O_NONBLOCK_def bit_iff_odd)
  have "\<exists>k. echo_loop (int n) 5 6 ?t = (Ret (if fin ?c then 0 else -1), ?t\<lparr>kernel := k\<rparr>) \<and>
      fds k = (fds (kernel ?t))(int n \<mapsto> ?c\<lparr>rcvq := [], sndq := sndq ?c @ rcvq ?c\<rparr>) \<and> (fin ?c \<or> errno k = EAGAIN)"
    by (rule echo_loop_all) (use nb assms(6,7) in \<open>simp_all add: new_sock_def\<close>)
  then obtain k where k: "echo_loop (int n) 5 6 ?t = (Ret (-1), ?t\<lparr>kernel := k\<rparr>)" "errno k = EAGAIN"
    "fds k = (fds (kernel r))(int n \<mapsto> ?c\<lparr>rcvq := [], sndq := bs\<rparr>)"
    by (auto simp: new_sock_def)
  have "et_event lfd (int n, EPOLLIN) ?t = (Ret (), ?t\<lparr>kernel := k\<rparr>)"
    using ne k by (simp add: et_event_def EPOLLIN_def et_serve_def bnd_def gets_def ret_def)
  with t k(3) nb show ?thesis
    by (intro exI [of _ ?t] exI [of _ "?t\<lparr>kernel := k\<rparr>"] exI [of _ "?c\<lparr>rcvq := [], sndq := bs\<rparr>"]) (simp add: nonblocking_def)
qed

theorem et_connection_echoed_witness:
  "\<exists>t u c. et_event 3 (3, EPOLLIN) (demo_ep (Ok 8 [1, 2, 3, 4, 5, 6, 7] False # ok 0 # ok 0 # ok 0 # replicate 20 (ok 9)) []) = (Ret (), t) \<and>
     et_event 3 (8, EPOLLIN) t = (Ret (), u) \<and> fds (kernel u) 8 = Some c \<and> sndq c = [1, 2, 3, 4, 5, 6, 7]"
proof -
  let ?r = "demo_ep (Ok 8 [1, 2, 3, 4, 5, 6, 7] False # ok 0 # ok 0 # ok 0 # replicate 20 (ok 9)) []"
  have r: "fds (kernel ?r) 3 = Some ((new_sock [] False)\<lparr>listening := True\<rparr>)" "fds (kernel ?r) (int 8) = None" "tree ?r (int 8) = None"
    "sched (kernel ?r) = Ok 8 [1, 2, 3, 4, 5, 6, 7] False # ok 0 # ok 0 # ok 0 # replicate 20 (ok 9)"
    by (simp_all add: demo_ep_def demo_os_def)
  have "generous 5 (replicate 20 (ok 9))" by (rule generous_replicate) simp
  with et_connection_echoed [OF r(1) _ r(2-4)] show ?thesis by fastforce
qed

text \<open>
  An event of a client of \<^verbatim>\<open>epoll.c\<close>, on every kernel. The one read takes \<open>n\<close> bytes, at most 1024,
  off the stream and the first \<open>m\<close> of them are sent back, as far as one \<^verbatim>\<open>write\<close> accepts them; at
  the end of the stream and on every error, also a mere interruption, the client is closed. When
  1024 bytes without a 0 byte arrive at once, printing them reads outside the buffer.
\<close>

theorem lt_serve_outcome:
  assumes "fds (kernel r) f = Some c"
  shows "case lt_serve f r of
      (Ret _, t) \<Rightarrow> fds (kernel t) = (fds (kernel r))(f := None) \<and> tree t = (tree r)(f := None) \<or>
        (\<exists>n m. 0 < n \<and> n \<le> 1024 \<and> m \<le> n \<and> n \<le> length (rcvq c) \<and> tree t = tree r \<and>
          fds (kernel t) = (fds (kernel r))(f \<mapsto> c\<lparr>rcvq := drop n (rcvq c), sndq := sndq c @ take m (rcvq c)\<rparr>))
    | (Block, t) \<Rightarrow> True
    | (Exit x, t) \<Rightarrow> False
    | (Fault, t) \<Rightarrow> 1024 \<le> length (rcvq c) \<and> 0 \<notin> set (take 1024 (rcvq c))"
proof -
  let ?R = "\<lambda>t. fds (kernel t) = (fds (kernel r))(f := None) \<and> tree t = (tree r)(f := None) \<or>
        (\<exists>n m. 0 < n \<and> n \<le> 1024 \<and> m \<le> n \<and> n \<le> length (rcvq c) \<and> tree t = tree r \<and>
          fds (kernel t) = (fds (kernel r))(f \<mapsto> c\<lparr>rcvq := drop n (rcvq c), sndq := sndq c @ take m (rcvq c)\<rparr>))"
  have "runs (lt_serve f) (\<lambda>_. ?R) (\<lambda>_. 1024 \<le> length (rcvq c) \<and> 0 \<notin> set (take 1024 (rcvq c))) r"
    unfolding lt_serve_def
  proof (rule runs_bnd_call [OF Read_post], clarify, rule runs_if, goal_cases)
    case (1 n bs k)
    then have "fds k = fds (kernel r)" by (auto simp: read_got_def)
    then show ?case by (intro runs_mono [OF close_client_runs]) auto
  next
    case (2 n bs k)
    with assms have k: "bs = take (nat n) (rcvq c)" "nat n \<le> 1024" "nat n \<le> length (rcvq c)" "0 < nat n"
      "fds k = (fds (kernel r))(f \<mapsto> c\<lparr>rcvq := drop (nat n) (rcvq c)\<rparr>)" by (auto simp: read_got_def)
    show ?case
      unfolding print_string_def
    proof (rule runs_bnd_require, rule runs_bnd_call [OF Write_post], goal_cases)
      case (1 a k')
      have "fds (kernel (r\<lparr>kernel := k\<rparr>)) f = Some (c\<lparr>rcvq := drop (nat n) (rcvq c)\<rparr>)" using k(5) by simp
      from write_put_some [OF conjunct1 [OF 1(2)] this] k obtain m where m: "m \<le> nat n"
        "fds k' = (fds (kernel r))(f \<mapsto> c\<lparr>rcvq := drop (nat n) (rcvq c), sndq := sndq c @ take m (rcvq c)\<rparr>)"
        by (auto simp: min_absorb1)
      with k(2-4) show ?case by (intro runs_ret disjI2 exI [of _ "nat n"] exI [of _ m]) auto
    next
      case 2
      then have "nat n = 1024" using k by auto
      with 2 k(1,3) show ?case by simp
    qed
  qed
  then show ?thesis by (simp add: runs_def split: prod.splits res.splits)
qed

theorem lt_serve_outcome_witness:
  "\<exists>t. lt_serve 6 (demo_ep [ok 2000] (replicate 1024 65)) = (Fault, t)"
proof -
  let ?r = "demo_ep [ok 2000] (replicate 1024 65)"
  have c: "fds (kernel ?r) 6 = Some ((new_sock (replicate 1024 65) False)\<lparr>flags := 2050\<rparr>)" by (simp add: demo_ep_def)
  obtain x t where x: "lt_serve 6 ?r = (x, t)" by fastforce
  have "x \<noteq> Block" "x \<noteq> Ret ()"
    using x
    by (auto simp: lt_serve_def bnd_def call_def Read.simps sys_read_def syscall_def demo_ep_def demo_os_def new_sock_def Let_def
        ret_def print_string_def require_def fault_def)
  with lt_serve_outcome [OF c] x show ?thesis by (cases x) auto
qed

section \<open>\<^verbatim>\<open>pthread_tcp_server.c\<close>\<close>

text \<open>
  The \<^verbatim>\<open>INFO\<close> blocks on the heap, of which only the descriptor matters, and the threads started,
  each by the block that it gets.
\<close>

record thread_server = host +
  infos :: "nat \<Rightarrow> int option"
  threads :: "nat list"

type_synonym 'a ths = "(thread_server, 'a) prog"

text \<open>\<^verbatim>\<open>main\<close> up to its loop, and one pass of the loop; the result of \<^verbatim>\<open>pthread_create\<close> is not looked at.\<close>

definition thread_start :: "int ths" where
  "thread_start =
     bnd (call (tcp4bind 8000 None)) (\<lambda>lfd.
     bnd (call (sys_setsockopt lfd)) (\<lambda>_.
     bnd (call (sys_listen lfd)) (\<lambda>_. ret lfd)))"

definition thread_accept :: "int \<Rightarrow> unit ths" where
  "thread_accept lfd =
     bnd (call (Accept lfd)) (\<lambda>cfd.
     bnd (call (malloc 20)) (\<lambda>b. case b of
         None \<Rightarrow> fault
       | Some info \<Rightarrow>
           bnd (modify (\<lambda>r. r\<lparr>infos := (infos r)(info \<mapsto> cfd)\<rparr>)) (\<lambda>_.
           bnd (call (syscall (ret False) (\<lambda>_ _ _. ret True))) (\<lambda>started.
           if started then modify (\<lambda>r. r\<lparr>threads := info # threads r\<rparr>) else ret ()))))"

text \<open>A client's thread. It never frees its block.\<close>

definition client_fun :: "nat \<Rightarrow> unit ths" where
  "client_fun info =
     bnd (gets (\<lambda>r. (infos r info, info \<in> set (live (kernel r))))) (\<lambda>(i, alive). case i of
       None \<Rightarrow> fault
     | Some cfd \<Rightarrow>
         bnd (require alive) (\<lambda>_.
         bnd (echo_loop cfd 1024 1024) (\<lambda>_.
         bnd (call (sys_close cfd)) (\<lambda>_. ret ()))))"

text \<open>
  The life of a client's thread, on every kernel. Up to the end of the stream or an error it sends
  back what it reads, in order, then closes the descriptor; the other descriptors stay as they
  are, and so does the heap: the \<^verbatim>\<open>INFO\<close> block that \<^verbatim>\<open>main\<close> allocated for it is never given back.
  Its only undefined behaviour is to print a full buffer.
\<close>

theorem client_fun_outcome:
  assumes "infos r info = Some cfd" "info \<in> set (live (kernel r))" "fds (kernel r) cfd = Some c"
  shows "case client_fun info r of
      (Ret _, t) \<Rightarrow> fds (kernel t) = (fds (kernel r))(cfd := None) \<and> live (kernel t) = live (kernel r) \<and>
        (\<exists>n u d. n \<le> 0 \<and> echo_loop cfd 1024 1024 r = (Ret n, u) \<and> echoed 1024 c d \<and> fds (kernel u) cfd = Some d)
    | (Block, t) \<Rightarrow> True
    | (Exit x, t) \<Rightarrow> False
    | (Fault, t) \<Rightarrow> 1024 \<le> length (rcvq c)"
proof -
  have run: "client_fun info r = bnd (echo_loop cfd 1024 1024) (\<lambda>_. bnd (call (sys_close cfd)) (\<lambda>_. ret ())) r"
    using assms(1,2) by (simp add: client_fun_def bnd_def prog_basics)
  note echo = echo_loop_runs [OF assms(3), of 1024 1024]
  obtain x u where u: "echo_loop cfd 1024 1024 r = (x, u)" by fastforce
  show ?thesis
  proof (cases x)
    case (Ret n)
    with echo u obtain d k where d: "n \<le> 0" "echoed 1024 c d" "u = r\<lparr>kernel := k\<rparr>" "fds k = (fds (kernel r))(cfd \<mapsto> d)"
      "heap k = heap (kernel r)" by (auto simp: runs_def)
    have "runs (sys_close cfd) (\<lambda>_ k'. fds k' = (fds k)(cfd := None) \<and> live k' = live k) never k"
      by (auto simp: runs_def sys_defs split: sys_splits)
    then have "runs (bnd (call (sys_close cfd)) (\<lambda>_. ret ())) (\<lambda>_ t. fds (kernel t) = (fds (kernel r))(cfd := None) \<and>
        live (kernel t) = live (kernel r)) never u"
      by (intro runs_bnd_call [where P = "\<lambda>_ k'. fds k' = (fds k)(cfd := None) \<and> live k' = live k"])
        (use d in \<open>auto intro!: runs_ret dest: heap_eqD\<close>)
    then show ?thesis
      using u Ret d unfolding run by (auto simp: runs_def split: prod.splits res.splits)
  qed (use echo u in \<open>auto simp: run runs_def\<close>)
qed

text \<open>A server whose listening socket is descriptor 3; the peer sends \<open>bs\<close>.\<close>

definition demo_threads :: "answer list \<Rightarrow> thread_server" where
  "demo_threads xs = \<lparr>kernel = (demo_os xs [])\<lparr>fds := [3 \<mapsto> (new_sock [] False)\<lparr>listening := True\<rparr>]\<rparr>,
     infos = (\<lambda>_. None), threads = []\<rparr>"

theorem client_fun_outcome_witness:
  "\<exists>r t. thread_accept 3 (demo_threads [Ok 8 [1, 2, 3] True, ok 0, ok 0, ok 3, ok 3, ok 0, ok 0]) = (Ret (), r) \<and> threads r = [0] \<and>
     client_fun 0 r = (Ret (), t) \<and> fds (kernel t) 8 = None \<and> live (kernel t) = [0]"
proof -
  let ?c = "new_sock [1, 2, 3] True"
  have "\<exists>r. thread_accept 3 (demo_threads [Ok 8 [1, 2, 3] True, ok 0, ok 0, ok 3, ok 3, ok 0, ok 0]) = (Ret (), r) \<and> threads r = [0] \<and>
      infos r 0 = Some 8 \<and> live (kernel r) = [0] \<and> fds (kernel r) 8 = Some ?c \<and> sched (kernel r) = [ok 3, ok 3, ok 0, ok 0]"
    by (simp add: thread_accept_def demo_threads_def demo_os_def bnd_def call_def prog_basics Accept.simps sys_accept_def syscall_def
        open_fd_def set_fd_def malloc_def PTRDIFF_MAX_def)
  then obtain r where r: "thread_accept 3 (demo_threads [Ok 8 [1, 2, 3] True, ok 0, ok 0, ok 3, ok 3, ok 0, ok 0]) = (Ret (), r)" "threads r = [0]"
    "infos r 0 = Some 8" "live (kernel r) = [0]" "fds (kernel r) 8 = Some ?c" "sched (kernel r) = [ok 3, ok 3, ok 0, ok 0]" by blast
  have "\<exists>t. client_fun 0 r = (Ret (), t)"
    using r(3-6)
    by (simp add: client_fun_def bnd_def call_def prog_basics echo_loop.simps Read.simps Write.simps sys_read_def sys_write_def syscall_def
        new_sock_def set_fd_def Let_def print_string_def sys_close_def)
  then obtain t where t: "client_fun 0 r = (Ret (), t)" by blast
  with client_fun_outcome [OF r(3) _ r(5)] r show ?thesis by fastforce
qed

end
