(* ===== verification/Pipe_Epoll.thy ===== *)
theory Pipe_Epoll
  imports Epoll_Host
begin

text \<open>
  \<^verbatim>\<open>pipe_epoll.c\<close> under \<^verbatim>\<open>src/Csocket\<close>: a child process writes six equal letters into a pipe every second,
  its parent waits on the read end with epoll and prints what it reads. The two run at the same
  time; one round of either is one step. \<open>written\<close> and \<open>got\<close> record the bytes that went into the pipe
  and those the parent has read.
\<close>

section \<open>The program\<close>

text \<open>
  The state of both processes: the parent's kernel with the read end \<open>rd\<close>, whose queue is what is
  in the pipe, its epoll instance, and the child's letter.
\<close>

record piped = "int epoll_host" +
  rd :: int
  epfd :: int
  ch :: byte
  written :: "byte list"
  got :: "byte list"

type_synonym 'a pps = "(piped, 'a) prog"

text \<open>
  A write of at most \<^verbatim>\<open>PIPE_BUF\<close> bytes goes into the pipe as a whole, and waits while there is no
  room for it.
\<close>

definition PIPE_SIZE :: nat where "PIPE_SIZE = 65536"

definition pipe_write :: "int \<Rightarrow> byte list \<Rightarrow> int call" where
  "pipe_write f bs = syscall (ret (-1)) (\<lambda>_ _ _ s.
     (case fds s f of None \<Rightarrow> fail_with EBADF (-1) s
      | Some c \<Rightarrow> if length (rcvq c) + length bs \<le> PIPE_SIZE
          then (Ret (int (length bs)), set_fd f (Some (c\<lparr>rcvq := rcvq c @ bs\<rparr>)) s) else (Block, s)))"

text \<open>
  \<^verbatim>\<open>main\<close> up to its loops. The result of \<^verbatim>\<open>pipe\<close> is not looked at: when it fails, the processes use
  descriptors nobody stored. \<open>False\<close>: there is no child, \<^verbatim>\<open>main\<close> returns.
\<close>

definition pipe_start :: "bool pps" where
  "pipe_start =
     bnd (call (syscall (ret (-1)) (\<lambda>k _ _. open_fd k (new_sock [] False)))) (\<lambda>f.
     bnd (call (syscall (ret (-1 :: int)) (\<lambda>k _ _. ret (int (Suc k))))) (\<lambda>pid.
     if pid < 0 then ret False
     else
       bnd (require (0 \<le> f)) (\<lambda>_.
       bnd (modify (\<lambda>r. r\<lparr>rd := f, ch := 97, written := [], got := []\<rparr>)) (\<lambda>_.
       bnd (call (syscall (ret (-1 :: int)) (\<lambda>k _ _. ret (int k)))) (\<lambda>e.
       bnd (modify (\<lambda>r. r\<lparr>epfd := e\<rparr>)) (\<lambda>_.
       bnd (if e < 0 then ret (-1) else epoll_add f f EPOLLIN) (\<lambda>_. ret True)))))))"

text \<open>One round of the child. The letter is a \<^verbatim>\<open>char\<close> and wraps around.\<close>

definition child_round :: "unit pps" where
  "child_round =
     bnd (gets (\<lambda>r. (ch r, rd r))) (\<lambda>(c, f).
     bnd (modify (\<lambda>r. r\<lparr>ch := c + 1\<rparr>)) (\<lambda>_.
     bnd (call (pipe_write f (replicate 6 c))) (\<lambda>n.
     modify (\<lambda>r. r\<lparr>written := written r @ take (nat n) (replicate 6 c)\<rparr>))))"

text \<open>
  One round of the parent: \<^verbatim>\<open>epoll_wait\<close> fails, or reports the read end when something is in the pipe.
  The buffer has ten bytes, cleared before the read, and is printed as a string.
\<close>

definition wait_event :: "piped \<Rightarrow> int option" where
  "wait_event r = (case tree r (rd r) of None \<Rightarrow> None
    | Some (d, evs) \<Rightarrow> (case fds (kernel r) (rd r) of None \<Rightarrow> None | Some c \<Rightarrow> if rcvq c = [] then None else Some d))"

definition parent_round :: "unit pps" where
  "parent_round =
     bnd (call (syscall (ret (-1 :: int)) (\<lambda>_ _ _. ret 1))) (\<lambda>n.
     if n > 0 then
       bnd (gets wait_event) (\<lambda>e. case e of None \<Rightarrow> block
       | Some d \<Rightarrow>
           bnd (call (sys_read d 10)) (\<lambda>(m, bs).
           bnd (modify (\<lambda>r. r\<lparr>got := got r @ bs\<rparr>)) (\<lambda>_.
           print_string 10 bs)))
     else ret ())"

inductive pipe_reach :: "piped \<Rightarrow> piped \<Rightarrow> bool" for r where
  started: "pipe_start r = (Ret True, s) \<Longrightarrow> pipe_reach r s"
| child: "pipe_reach r s \<Longrightarrow> child_round s = (Ret (), t) \<Longrightarrow> pipe_reach r t"
| parent: "pipe_reach r s \<Longrightarrow> parent_round s = (Ret (), t) \<Longrightarrow> pipe_reach r t"

section \<open>The pipe\<close>

text \<open>What is in the pipe, and the letters of the child, six of each.\<close>

definition in_pipe :: "piped \<Rightarrow> byte list" where
  "in_pipe r = (case fds (kernel r) (rd r) of None \<Rightarrow> [] | Some c \<Rightarrow> rcvq c)"

definition six :: "byte list \<Rightarrow> byte list" where
  "six cs = concat (map (replicate 6) cs)"

definition pipe_inv :: "piped \<Rightarrow> bool" where
  "pipe_inv r \<longleftrightarrow> fds (kernel r) (rd r) \<noteq> None \<and> (\<forall>d evs. tree r (rd r) = Some (d, evs) \<longrightarrow> d = rd r) \<and>
     got r @ in_pipe r = written r \<and> length (in_pipe r) \<le> PIPE_SIZE \<and> (\<exists>cs. written r = six cs)"

lemma six_snoc: "six (cs @ [c]) = six cs @ replicate 6 c"
  by (simp add: six_def)

lemma six_more: "\<exists>cs. xs = six cs \<Longrightarrow> \<exists>cs. xs @ replicate 6 c = six cs"
  by (metis six_snoc)

lemma pipe_write_runs:
  assumes "fds s f = Some c"
  shows "runs (pipe_write f bs) (\<lambda>n k. n = -1 \<and> fds k = fds s \<or>
    n = int (length bs) \<and> length (rcvq c @ bs) \<le> PIPE_SIZE \<and> fds k = (fds s)(f \<mapsto> c\<lparr>rcvq := rcvq c @ bs\<rparr>)) never s"
  using assms by (auto simp: runs_def pipe_write_def syscall_def ret_def split: sys_splits)

lemma child_round_runs:
  assumes "pipe_inv r"
  shows "runs child_round (\<lambda>_. pipe_inv) never r"
proof -
  obtain c where c: "fds (kernel r) (rd r) = Some c" using assms by (auto simp: pipe_inv_def)
  have more: "\<exists>cs. written r @ replicate 6 (ch r) = six cs" using assms by (intro six_more) (simp add: pipe_inv_def)
  show ?thesis
    unfolding child_round_def
    apply (rule runs_bnd_gets, simp, rule runs_bnd_modify, rule runs_bnd_call)
     apply (rule pipe_write_runs, simp add: c)
    apply (rule runs_modify)
    using assms c more
    apply (auto simp: pipe_inv_def in_pipe_def simp flip: append_assoc)
    done
qed

lemma epoll_wait_runs: "runs (syscall (ret (-1 :: int)) (\<lambda>_ _ _. ret 1)) (\<lambda>_ k. fds k = fds s) never s"
  by (auto simp: runs_def syscall_def ret_def split: sys_splits)

lemma parent_round_runs:
  assumes "pipe_inv r"
  shows "runs parent_round (\<lambda>_. pipe_inv) (\<lambda>_. 10 \<le> length (in_pipe r)) r"
  unfolding parent_round_def
proof (rule runs_bnd_call [OF epoll_wait_runs], goal_cases)
  case (1 n k)
  let ?r = "r\<lparr>kernel := k\<rparr>"
  have inv: "pipe_inv ?r" using assms 1 by (simp add: pipe_inv_def in_pipe_def)
  have same: "in_pipe ?r = in_pipe r" using 1 by (simp add: in_pipe_def)
  show ?case
  proof (rule runs_if [OF runs_bnd_gets runs_ret], goal_cases)
    case 1
    show ?case
    proof (cases "wait_event ?r")
      case None
      then show ?thesis by (simp add: runs_def block_def)
    next
      case (Some d)
      with inv have d: "d = rd r" by (auto simp: wait_event_def pipe_inv_def split: option.splits if_splits)
      show ?thesis
        unfolding Some option.case d
      proof (rule runs_bnd_call [OF sys_read_runs], clarify, rule runs_bnd_modify, unfold print_string_def, rule runs_require, goal_cases)
        case (1 m bs k')
        then show ?case using inv by (auto simp: pipe_inv_def in_pipe_def)
      next
        case (2 m bs k')
        then have "10 \<le> length (in_pipe ?r)" by (auto simp: in_pipe_def)
        with same show ?case by simp
      qed
    qed
  qed (use inv in simp)
qed

lemma pipe_start_runs: "pipe_start r = (Ret True, s) \<Longrightarrow> tree r = Map.empty \<Longrightarrow> pipe_inv s"
  by (auto simp: pipe_start_def bnd_def call_def prog_basics syscall_def open_fd_def set_fd_def fail_with_def epoll_add_def new_sock_def
      pipe_inv_def in_pipe_def six_def PIPE_SIZE_def split: sys_splits res.splits intro!: exI [of _ "[]"])

lemma pipe_reach_inv: "pipe_reach r s \<Longrightarrow> tree r = Map.empty \<Longrightarrow> pipe_inv s"
proof (induction rule: pipe_reach.induct)
  case (child s t)
  with runs_Ret [OF child_round_runs [of s]] show ?case by blast
next
  case (parent s t)
  with runs_Ret [OF parent_round_runs [of s]] show ?case by blast
qed (rule pipe_start_runs)

text \<open>
  C23: The pipe, over every interleaving of the two processes: what the parent has read followed by what
  is still in the pipe is what the child has written, and that is a sequence of letters, six of
  each. A round of the parent is defined unless ten bytes or more are waiting.
\<close>

theorem pipe_in_order:
  assumes "pipe_reach r s" "tree r = Map.empty"
  shows "got s @ in_pipe s = written s \<and> (\<exists>cs. written s = six cs) \<and>
    (case parent_round s of
      (Ret _, t) \<Rightarrow> got t @ in_pipe t = written t
    | (Fault, t) \<Rightarrow> 10 \<le> length (in_pipe s)
    | (Block, t) \<Rightarrow> True
    | (Exit c, t) \<Rightarrow> False)"
proof -
  have inv: "pipe_inv s" using assms by (rule pipe_reach_inv)
  with parent_round_runs [OF inv] show ?thesis
    by (auto simp: runs_def pipe_inv_def split: prod.splits res.splits)
qed

section \<open>A parent that is late\<close>

definition demo_pipe :: "answer list \<Rightarrow> piped" where
  "demo_pipe xs = \<lparr>kernel = demo_os xs [], tree = Map.empty, rd = 0, epfd = 0, ch = 0, written = [], got = []\<rparr>"

lemmas pipe_run_defs = demo_pipe_def pipe_start_def child_round_def parent_round_def pipe_write_def wait_event_def in_pipe_def
  PIPE_SIZE_def bnd_def call_def prog_basics sys_read_def Let_def syscall_def open_fd_def set_fd_def fail_with_def epoll_add_def new_sock_def demo_os_def
  print_string_def

lemma replicate_6: "replicate 6 x = [x, x, x, x, x, x]"
  by (simp add: numeral_eq_Suc)

text \<open>
  Two rounds of the child before one of the parent: twelve bytes wait, the read fills all ten bytes of
  the buffer, and \<^verbatim>\<open>printf\<close> reads behind its end.
\<close>

theorem late_parent_overreads:
  "\<exists>s. pipe_reach (demo_pipe (map ok [4, 9, 5, 0, 0, 0, 0, 10])) s \<and> written s = six [97, 98] \<and> fst (parent_round s) = Fault"
proof -
  let ?r = "demo_pipe (map ok [4, 9, 5, 0, 0, 0, 0, 10])"
  have "\<exists>s1 s2 s3. pipe_start ?r = (Ret True, s1) \<and> child_round s1 = (Ret (), s2) \<and> child_round s2 = (Ret (), s3) \<and>
      written s3 = six [97, 98] \<and> fst (parent_round s3) = Fault"
    by (simp add: pipe_run_defs six_def replicate_6)
  then show ?thesis by (blast intro: pipe_reach.intros)
qed

theorem pipe_in_order_witness:
  "\<exists>s t. pipe_reach (demo_pipe (map ok [4, 9, 5, 0, 0, 0, 10])) s \<and> written s = six [97] \<and>
     parent_round s = (Ret (), t) \<and> got t = six [97] \<and> got t @ in_pipe t = written t"
proof -
  let ?r = "demo_pipe (map ok [4, 9, 5, 0, 0, 0, 10])"
  have "\<exists>s1 s2 t. pipe_start ?r = (Ret True, s1) \<and> child_round s1 = (Ret (), s2) \<and> written s2 = six [97] \<and>
      parent_round s2 = (Ret (), t) \<and> got t = six [97]"
    by (simp add: pipe_run_defs six_def replicate_6)
  then obtain s t where s: "pipe_reach ?r s" "written s = six [97]" "parent_round s = (Ret (), t)" "got t = six [97]"
    by (blast intro: pipe_reach.intros)
  moreover have "tree ?r = Map.empty" by (simp add: demo_pipe_def)
  ultimately show ?thesis using pipe_in_order [of ?r s] by auto
qed

end
